(* ===== verification/Xv6_Prelude.thy ===== *)
theory Xv6_Prelude
  imports Main "HOL-Library.Word"
begin

text \<open>
  What the components share: the C integer types, the outcomes of a kernel function and the
  sequencing of statements, weakest preconditions for it, little-endian encodings of integers,
  and lemmas on words, lists and memory ranges.

  A kernel function is a function from the kernel's state to an \<open>outcome\<close>.  It returns a
  value and the new state (\<open>Ok\<close>), it calls \<^verbatim>\<open>panic\<close> with a message (\<open>Panic\<close>), it gives the
  processor up inside \<^verbatim>\<open>sleep\<close> (\<open>Sleep\<close>, with the channel and the state in which the process
  sleeps), it ends in \<^verbatim>\<open>exit\<close> (\<open>Exit\<close>), it spins for ever (\<open>Hang\<close>), or the machine loses power (\<open>Crash\<close>).  Every call of
  \<^verbatim>\<open>sleep\<close> in the sources stands in a loop that tests its condition again, so a process that is
  woken continues by evaluating the same loop in the state it then finds.
\<close>

unbundle bit_operations_syntax

named_theorems wp_simps \<open>weakest preconditions of statements\<close>
named_theorems run_simps \<open>evaluation of statements\<close>
named_theorems keeps_intros \<open>what a statement leaves as it is\<close>

section \<open>C integer types\<close>

type_synonym u8 = "8 word"
type_synonym u16 = "16 word"
type_synonym u32 = "32 word"
type_synonym u64 = "64 word"

section \<open>Outcomes and statements\<close>

datatype ('c, 's, 'a) outcome =
    Ok 'a 's
  | Panic string
  | Sleep 'c 's
  | Exit 's
  | Crash 's
  | Hang

fun obind :: "('c, 's, 'a) outcome \<Rightarrow> ('a \<Rightarrow> 's \<Rightarrow> ('c, 's, 'b) outcome) \<Rightarrow> ('c, 's, 'b) outcome" where
  "obind (Ok a s) f = f a s"
| "obind (Panic m) f = Panic m"
| "obind (Sleep c s) f = Sleep c s"
| "obind (Exit s) f = Exit s"
| "obind (Crash s) f = Crash s"
| "obind Hang f = Hang"

definition bind :: "('s \<Rightarrow> ('c, 's, 'a) outcome) \<Rightarrow> ('a \<Rightarrow> 's \<Rightarrow> ('c, 's, 'b) outcome)
    \<Rightarrow> 's \<Rightarrow> ('c, 's, 'b) outcome" where
  "bind f g s = obind (f s) g"

definition ret :: "'a \<Rightarrow> 's \<Rightarrow> ('c, 's, 'a) outcome" where
  "ret a s = Ok a s"

definition skip :: "'s \<Rightarrow> ('c, 's, unit) outcome" where
  "skip s = Ok () s"

definition gets :: "('s \<Rightarrow> 'a) \<Rightarrow> 's \<Rightarrow> ('c, 's, 'a) outcome" where
  "gets f s = Ok (f s) s"

definition modify :: "('s \<Rightarrow> 's) \<Rightarrow> 's \<Rightarrow> ('c, 's, unit) outcome" where
  "modify f s = Ok () (f s)"

definition panicK :: "string \<Rightarrow> 's \<Rightarrow> ('c, 's, 'a) outcome" where
  "panicK m s = Panic m"

text \<open>\<open>panic_if c m\<close> is the statement \<^verbatim>\<open>if(c) panic(m);\<close> with the condition read in the state.\<close>

definition panic_if :: "('s \<Rightarrow> bool) \<Rightarrow> string \<Rightarrow> 's \<Rightarrow> ('c, 's, unit) outcome" where
  "panic_if c m s = (if c s then Panic m else Ok () s)"

definition ifK :: "bool \<Rightarrow> ('s \<Rightarrow> ('c, 's, 'a) outcome) \<Rightarrow> ('s \<Rightarrow> ('c, 's, 'a) outcome)
    \<Rightarrow> 's \<Rightarrow> ('c, 's, 'a) outcome" where
  "ifK b f g s = (if b then f s else g s)"

definition whenK :: "bool \<Rightarrow> ('s \<Rightarrow> ('c, 's, unit) outcome) \<Rightarrow> 's \<Rightarrow> ('c, 's, unit) outcome" where
  "whenK b f s = (if b then f s else Ok () s)"

text \<open>\<open>ifS\<close> and \<open>whenS\<close> are the same statements with the condition read in the state.\<close>

definition ifS :: "('s \<Rightarrow> bool) \<Rightarrow> ('s \<Rightarrow> ('c, 's, 'a) outcome) \<Rightarrow> ('s \<Rightarrow> ('c, 's, 'a) outcome)
    \<Rightarrow> 's \<Rightarrow> ('c, 's, 'a) outcome" where
  "ifS c f g s = (if c s then f s else g s)"

definition whenS :: "('s \<Rightarrow> bool) \<Rightarrow> ('s \<Rightarrow> ('c, 's, unit) outcome) \<Rightarrow> 's \<Rightarrow> ('c, 's, unit) outcome" where
  "whenS c f s = (if c s then f s else Ok () s)"

text \<open>\<open>block [c1, c2, c3]\<close> is the compound statement \<^verbatim>\<open>{ c1; c2; c3; }\<close>, and
  \<open>seqK cs f\<close> runs the statements and then the expression statement \<open>f\<close>, whose value it has.\<close>

fun seqK :: "('s \<Rightarrow> ('c, 's, unit) outcome) list \<Rightarrow> ('s \<Rightarrow> ('c, 's, 'a) outcome)
    \<Rightarrow> 's \<Rightarrow> ('c, 's, 'a) outcome" where
  "seqK [] f = f"
| "seqK (c # cs) f = bind c (\<lambda>_. seqK cs f)"

definition block :: "('s \<Rightarrow> ('c, 's, unit) outcome) list \<Rightarrow> 's \<Rightarrow> ('c, 's, unit) outcome" where
  "block cs = seqK cs skip"

text \<open>\<open>forK f xs\<close> is the loop \<^verbatim>\<open>for(x in xs) f(x);\<close>.\<close>

fun forK :: "('x \<Rightarrow> 's \<Rightarrow> ('c, 's, unit) outcome) \<Rightarrow> 'x list \<Rightarrow> 's \<Rightarrow> ('c, 's, unit) outcome" where
  "forK f [] = skip"
| "forK f (x # xs) = bind (f x) (\<lambda>_. forK f xs)"

subsection \<open>Evaluation\<close>

lemma run_bind [run_simps]: "bind f g s = obind (f s) g"
  by (simp add: bind_def)

lemma run_ret [run_simps]: "ret a s = Ok a s"
  by (simp add: ret_def)

lemma run_skip [run_simps]: "skip s = Ok () s"
  by (simp add: skip_def)

lemma run_gets [run_simps]: "gets f s = Ok (f s) s"
  by (simp add: gets_def)

lemma run_modify [run_simps]: "modify f s = Ok () (f s)"
  by (simp add: modify_def)

lemma run_panicK [run_simps]: "panicK m s = Panic m"
  by (simp add: panicK_def)

lemma run_panic_if [run_simps]: "panic_if c m s = (if c s then Panic m else Ok () s)"
  by (simp add: panic_if_def)

lemma run_ifK [run_simps]: "ifK b f g s = (if b then f s else g s)"
  by (simp add: ifK_def)

lemma run_whenK [run_simps]: "whenK b f s = (if b then f s else Ok () s)"
  by (simp add: whenK_def)

lemma run_ifS [run_simps]: "ifS c f g s = (if c s then f s else g s)"
  by (simp add: ifS_def)

lemma run_whenS [run_simps]: "whenS c f s = (if c s then f s else Ok () s)"
  by (simp add: whenS_def)

lemma run_block [run_simps]: "block cs s = seqK cs skip s"
  by (simp add: block_def)

lemma obind_cong [fundef_cong]:
  "x = y \<Longrightarrow> (\<And>a s. y = Ok a s \<Longrightarrow> f a s = g a s) \<Longrightarrow> obind x f = obind y g"
  by (cases y) auto

lemma obind_skip [run_simps]: "obind x (\<lambda>_. skip) = x" "obind x (\<lambda>_. Ok ()) = x" "obind x Ok = y \<longleftrightarrow> x = y"
  by (cases x; simp add: skip_def)+

lemma obind_assoc: "obind (obind x f) g = obind x (\<lambda>a s. obind (f a s) g)"
  by (cases x) simp_all

lemma forK_append: "forK f (xs @ ys) s = obind (forK f xs s) (\<lambda>_. forK f ys)"
proof (induction xs arbitrary: s)
  case (Cons x xs)
  then have "forK f (xs @ ys) = (\<lambda>s. obind (forK f xs s) (\<lambda>_. forK f ys))" by auto
  then show ?case by (simp add: run_simps obind_assoc)
qed (simp add: run_simps)

lemma obind_Ok_iff: "obind x f = Ok b t \<longleftrightarrow> (\<exists>a s. x = Ok a s \<and> f a s = Ok b t)"
  by (cases x) auto

lemma obind_Panic_iff: "obind x f = Panic m \<longleftrightarrow> x = Panic m \<or> (\<exists>a s. x = Ok a s \<and> f a s = Panic m)"
  by (cases x) auto

subsection \<open>Weakest preconditions\<close>

text \<open>\<open>wp f Q s\<close>: from \<open>s\<close> the statement returns, and \<open>Q\<close> holds of the value and the state it
  returns.  \<open>wlp f Q s\<close>: if it returns from \<open>s\<close>, \<open>Q\<close> holds then.\<close>

definition wp :: "('s \<Rightarrow> ('c, 's, 'a) outcome) \<Rightarrow> ('a \<Rightarrow> 's \<Rightarrow> bool) \<Rightarrow> 's \<Rightarrow> bool" where
  "wp f Q s \<longleftrightarrow> (case f s of Ok a t \<Rightarrow> Q a t | _ \<Rightarrow> False)"

definition wlp :: "('s \<Rightarrow> ('c, 's, 'a) outcome) \<Rightarrow> ('a \<Rightarrow> 's \<Rightarrow> bool) \<Rightarrow> 's \<Rightarrow> bool" where
  "wlp f Q s \<longleftrightarrow> (case f s of Ok a t \<Rightarrow> Q a t | _ \<Rightarrow> True)"

lemma wp_iff: "wp f Q s \<longleftrightarrow> (\<exists>a t. f s = Ok a t \<and> Q a t)"
  by (auto simp: wp_def split: outcome.splits)

lemma wlp_iff: "wlp f Q s \<longleftrightarrow> (\<forall>a t. f s = Ok a t \<longrightarrow> Q a t)"
  by (auto simp: wlp_def split: outcome.splits)

lemma wp_bind [wp_simps]: "wp (bind f g) Q s \<longleftrightarrow> wp f (\<lambda>a. wp (g a) Q) s"
  by (auto simp: wp_def bind_def split: outcome.splits)

lemma wlp_bind [wp_simps]: "wlp (bind f g) Q s \<longleftrightarrow> wlp f (\<lambda>a. wlp (g a) Q) s"
  by (auto simp: wlp_def bind_def split: outcome.splits)

lemma wp_basic [wp_simps]:
  "wp (ret a) Q s \<longleftrightarrow> Q a s"
  "wp skip R s \<longleftrightarrow> R () s"
  "wp (gets f) P s \<longleftrightarrow> P (f s) s"
  "wp (modify h) R s \<longleftrightarrow> R () (h s)"
  "wp (panicK m) T s \<longleftrightarrow> False"
  "wp (panic_if c m) R s \<longleftrightarrow> \<not> c s \<and> R () s"
  "wp (ifK b x y) V s \<longleftrightarrow> (if b then wp x V s else wp y V s)"
  "wp (whenK b z) R s \<longleftrightarrow> (if b then wp z R s else R () s)"
  "wp (ifS d x y) V s \<longleftrightarrow> (if d s then wp x V s else wp y V s)"
  "wp (whenS d z) R s \<longleftrightarrow> (if d s then wp z R s else R () s)"
  by (auto simp: wp_def run_simps)

lemma wlp_basic [wp_simps]:
  "wlp (ret a) Q s \<longleftrightarrow> Q a s"
  "wlp skip R s \<longleftrightarrow> R () s"
  "wlp (gets f) P s \<longleftrightarrow> P (f s) s"
  "wlp (modify h) R s \<longleftrightarrow> R () (h s)"
  "wlp (panicK m) T s \<longleftrightarrow> True"
  "wlp (panic_if c m) R s \<longleftrightarrow> (\<not> c s \<longrightarrow> R () s)"
  "wlp (ifK b x y) V s \<longleftrightarrow> (if b then wlp x V s else wlp y V s)"
  "wlp (whenK b z) R s \<longleftrightarrow> (if b then wlp z R s else R () s)"
  "wlp (ifS d x y) V s \<longleftrightarrow> (if d s then wlp x V s else wlp y V s)"
  "wlp (whenS d z) R s \<longleftrightarrow> (if d s then wlp z R s else R () s)"
  by (auto simp: wlp_def run_simps)

lemma wp_block [wp_simps]: "wp (block cs) Q s \<longleftrightarrow> wp (seqK cs skip) Q s"
  by (simp add: wp_def block_def)

lemma wlp_block [wp_simps]: "wlp (block cs) Q s \<longleftrightarrow> wlp (seqK cs skip) Q s"
  by (simp add: wlp_def block_def)

lemma wp_mono: "wp f Q s \<Longrightarrow> (\<And>a t. Q a t \<Longrightarrow> R a t) \<Longrightarrow> wp f R s"
  by (auto simp: wp_iff)

lemma wlp_mono: "wlp f Q s \<Longrightarrow> (\<And>a t. Q a t \<Longrightarrow> R a t) \<Longrightarrow> wlp f R s"
  by (auto simp: wlp_iff)

lemma wp_wlp: "wp f Q s \<Longrightarrow> wlp f Q s"
  by (auto simp: wp_iff wlp_iff)

lemma wlp_conj: "wlp f (\<lambda>a t. Q a t \<and> R a t) s \<longleftrightarrow> wlp f Q s \<and> wlp f R s"
  by (auto simp: wlp_iff)

lemma wlpD: "wlp f Q s \<Longrightarrow> f s = Ok a t \<Longrightarrow> Q a t"
  by (simp add: wlp_iff)

lemma wp_forK:
  assumes "I [] s" and "\<And>xs x ys t. zs = xs @ x # ys \<Longrightarrow> I xs t \<Longrightarrow> wp (f x) (\<lambda>_. I (xs @ [x])) t"
  shows "wp (forK f zs) (\<lambda>_. I zs) s"
proof -
  have "I xs s \<Longrightarrow> zs = xs @ ys \<Longrightarrow> wp (forK f ys) (\<lambda>_. I zs) s" for xs ys
  proof (induction ys arbitrary: xs s)
    case Nil
    then show ?case by (simp add: wp_simps)
  next
    case (Cons y ys)
    from Cons.prems(2) have split: "zs = (xs @ [y]) @ ys" by simp
    from assms(2) [OF Cons.prems(2) Cons.prems(1)] show ?case
      unfolding forK.simps wp_bind by (rule wp_mono) (rule Cons.IH [OF _ split])
  qed
  from this [OF assms(1)] show ?thesis by simp
qed

text \<open>\<open>wpc f Q C s\<close>: from \<open>s\<close> the statement returns with \<open>Q\<close>, or the power fails in a state with \<open>C\<close>.\<close>

definition wpc :: "('s \<Rightarrow> ('c, 's, 'a) outcome) \<Rightarrow> ('a \<Rightarrow> 's \<Rightarrow> bool) \<Rightarrow> ('s \<Rightarrow> bool) \<Rightarrow> 's \<Rightarrow> bool" where
  "wpc f Q C s \<longleftrightarrow> (case f s of Ok a t \<Rightarrow> Q a t | Crash t \<Rightarrow> C t | _ \<Rightarrow> False)"

lemma wpc_bind [wp_simps]: "wpc (bind f g) Q C = wpc f (\<lambda>a. wpc (g a) Q C) C"
  by (auto simp: wpc_def bind_def fun_eq_iff split: outcome.splits)

lemma wpc_basic [wp_simps]:
  "wpc (ret a) Q C = Q a"
  "wpc skip R C = R ()"
  "wpc (gets f) P C = (\<lambda>s. P (f s) s)"
  "wpc (modify h) R C = (\<lambda>s. R () (h s))"
  "wpc (panicK m) T C = (\<lambda>_. False)"
  "wpc (panic_if c m) R C = (\<lambda>s. \<not> c s \<and> R () s)"
  "wpc (ifK b x y) V C = (if b then wpc x V C else wpc y V C)"
  "wpc (whenK b z) R C = (if b then wpc z R C else R ())"
  "wpc (ifS d x y) V C = (\<lambda>s. if d s then wpc x V C s else wpc y V C s)"
  "wpc (whenS d z) R C = (\<lambda>s. if d s then wpc z R C s else R () s)"
  by (auto simp: wpc_def run_simps fun_eq_iff)

lemma wpc_block [wp_simps]: "wpc (block cs) Q C = wpc (seqK cs skip) Q C"
  by (simp add: wpc_def block_def fun_eq_iff)

lemma wpc_mono: "wpc f Q C s \<Longrightarrow> (\<And>a t. Q a t \<Longrightarrow> R a t) \<Longrightarrow> (\<And>t. C t \<Longrightarrow> D t) \<Longrightarrow> wpc f R D s"
  by (auto simp: wpc_def split: outcome.splits)

lemma wp_wpc: "wp f Q s \<Longrightarrow> wpc f Q C s"
  by (auto simp: wp_def wpc_def split: outcome.splits)

lemma wpc_forK:
  assumes "I [] s" and "\<And>xs x ys t. zs = xs @ x # ys \<Longrightarrow> I xs t \<Longrightarrow> wpc (f x) (\<lambda>_. I (xs @ [x])) C t"
  shows "wpc (forK f zs) (\<lambda>_. I zs) C s"
proof -
  have "I xs s \<Longrightarrow> zs = xs @ ys \<Longrightarrow> wpc (forK f ys) (\<lambda>_. I zs) C s" for xs ys
  proof (induction ys arbitrary: xs s)
    case Nil
    then show ?case by (simp add: wp_simps)
  next
    case (Cons y ys)
    from Cons.prems(2) have split: "zs = (xs @ [y]) @ ys" by simp
    from assms(2) [OF Cons.prems(2) Cons.prems(1)] show ?case
      unfolding forK.simps wpc_bind by (rule wpc_mono) (auto intro: Cons.IH [OF _ split])
  qed
  from this [OF assms(1)] show ?thesis by simp
qed

subsection \<open>Frames\<close>

text \<open>\<open>keeps F f\<close>: whether the statement returns, sleeps or exits, it leaves \<open>F\<close> of the state as it was.\<close>

definition keeps :: "('s \<Rightarrow> 'x) \<Rightarrow> ('s \<Rightarrow> ('c, 's, 'a) outcome) \<Rightarrow> bool" where
  "keeps F f \<longleftrightarrow> (\<forall>s. case f s of Ok a t \<Rightarrow> F t = F s | Sleep c t \<Rightarrow> F t = F s | Exit t \<Rightarrow> F t = F s | _ \<Rightarrow> True)"

lemma keepsD:
  "keeps F f \<Longrightarrow> f s = Ok a t \<Longrightarrow> F t = F s"
  "keeps F f \<Longrightarrow> f s = Sleep c t \<Longrightarrow> F t = F s"
  "keeps F f \<Longrightarrow> f s = Exit t \<Longrightarrow> F t = F s"
  unfolding keeps_def by (drule spec [of _ s], simp)+

lemma keeps_bind [keeps_intros]: "keeps F f \<Longrightarrow> (\<And>a. keeps F (g a)) \<Longrightarrow> keeps F (bind f g)"
  unfolding keeps_def
proof
  fix s
  assume f: "\<forall>s. case f s of Ok a t \<Rightarrow> F t = F s | Sleep c t \<Rightarrow> F t = F s | Exit t \<Rightarrow> F t = F s | _ \<Rightarrow> True"
    and g: "\<And>a. \<forall>s. case g a s of Ok a t \<Rightarrow> F t = F s | Sleep c t \<Rightarrow> F t = F s | Exit t \<Rightarrow> F t = F s | _ \<Rightarrow> True"
  show "case bind f g s of Ok a t \<Rightarrow> F t = F s | Sleep c t \<Rightarrow> F t = F s | Exit t \<Rightarrow> F t = F s | _ \<Rightarrow> True"
  proof (cases "f s")
    case (Ok a t)
    then show ?thesis using f [rule_format, of s] g [of a, rule_format, of t]
      by (cases "g a t") (simp_all add: run_simps)
  qed (use f [rule_format, of s] in \<open>simp_all add: run_simps\<close>)
qed

lemma keeps_basic [keeps_intros]:
  "keeps F (ret a)" "keeps F skip" "keeps F (gets h)" "keeps F (panicK m)" "keeps F (panic_if c m)" "keeps F (\<lambda>s. Hang)"
  by (simp_all add: keeps_def run_simps)

lemma keeps_modify [keeps_intros]: "(\<And>s. F (h s) = F s) \<Longrightarrow> keeps F (modify h)"
  by (simp add: keeps_def run_simps)

lemma keeps_cond [keeps_intros]:
  "keeps F f \<Longrightarrow> keeps F g \<Longrightarrow> keeps F (ifK b f g)" "keeps F h \<Longrightarrow> keeps F (whenK b h)"
  "keeps F f \<Longrightarrow> keeps F g \<Longrightarrow> keeps F (ifS c f g)" "keeps F h \<Longrightarrow> keeps F (whenS c h)"
  "keeps F f \<Longrightarrow> keeps F g \<Longrightarrow> keeps F (if b then f else g)"
  by (simp_all add: keeps_def run_simps)

lemma keeps_cases [keeps_intros]:
  "keeps F f \<Longrightarrow> (\<And>x. keeps F (g x)) \<Longrightarrow> keeps F (case y of None \<Rightarrow> f | Some x \<Rightarrow> g x)"
  "(\<And>x. keeps F (h x)) \<Longrightarrow> (\<And>x. keeps F (k x)) \<Longrightarrow> keeps F (case z of Inl x \<Rightarrow> h x | Inr x \<Rightarrow> k x)"
  "(\<And>a b. keeps F (e a b)) \<Longrightarrow> keeps F (case w of (a, b) \<Rightarrow> e a b)"
  by (simp_all split: option.split sum.split prod.split)

lemma keeps_seqK [keeps_intros]:
  "keeps F f \<Longrightarrow> keeps F (seqK [] f)" "keeps F c \<Longrightarrow> keeps F (seqK cs f) \<Longrightarrow> keeps F (seqK (c # cs) f)"
  "keeps F (seqK cs skip) \<Longrightarrow> keeps F (block cs)"
  by (simp_all add: keeps_bind block_def)

lemma keeps_forK [keeps_intros]: "(\<And>x. keeps F (f x)) \<Longrightarrow> keeps F (forK f xs)"
  by (induction xs) (simp_all add: keeps_intros)

text \<open>A statement whose argument is read in the state.\<close>

lemma keeps_arg: "(\<And>x. keeps F (f x)) \<Longrightarrow> keeps F (\<lambda>s. f (x s) s)"
  by (simp add: keeps_def)

section \<open>Lists\<close>

text \<open>\<open>splice xs i ys\<close> overwrites \<open>xs\<close> with \<open>ys\<close> from position \<open>i\<close>: what a copy of
  \<open>length ys\<close> bytes to \<^verbatim>\<open>xs + i\<close> does.\<close>

definition splice :: "'a list \<Rightarrow> nat \<Rightarrow> 'a list \<Rightarrow> 'a list" where
  "splice xs i ys = take i xs @ ys @ drop (i + length ys) xs"

definition slice :: "'a list \<Rightarrow> nat \<Rightarrow> nat \<Rightarrow> 'a list" where
  "slice xs i n = take n (drop i xs)"

lemma length_splice [simp]: "i + length ys \<le> length xs \<Longrightarrow> length (splice xs i ys) = length xs"
  by (simp add: splice_def)

lemma length_slice [simp]: "i + n \<le> length xs \<Longrightarrow> length (slice xs i n) = n"
  by (simp add: slice_def)

lemma splice_Nil [simp]: "splice xs i [] = xs"
  by (simp add: splice_def)

lemma nth_splice:
  "i + length ys \<le> length xs \<Longrightarrow> j < length xs \<Longrightarrow>
   splice xs i ys ! j = (if i \<le> j \<and> j < i + length ys then ys ! (j - i) else xs ! j)"
  by (auto simp: splice_def nth_append)

lemma nth_slice: "i + n \<le> length xs \<Longrightarrow> j < n \<Longrightarrow> slice xs i n ! j = xs ! (i + j)"
  by (simp add: slice_def)

lemma slice_splice_same [simp]:
  "i + length ys \<le> length xs \<Longrightarrow> slice (splice xs i ys) i (length ys) = ys"
  by (simp add: splice_def slice_def)

lemma slice_splice_disjoint:
  assumes "i + length ys \<le> length xs" "j + n \<le> length xs" "j + n \<le> i \<or> i + length ys \<le> j"
  shows "slice (splice xs i ys) j n = slice xs j n"
  by (rule nth_equalityI) (use assms in \<open>auto simp: nth_slice nth_splice\<close>)

lemma splice_slice_id: "i + n \<le> length xs \<Longrightarrow> splice xs i (slice xs i n) = xs"
  by (rule nth_equalityI) (auto simp: nth_splice nth_slice)

section \<open>Little-endian integers\<close>

text \<open>\<open>le n w\<close> is the \<open>n\<close>-byte little-endian representation of \<open>w\<close>, \<open>unle\<close> reads one: how
  RISC-V stores and loads an integer.\<close>

primrec le :: "nat \<Rightarrow> 'a::len word \<Rightarrow> u8 list" where
  "le 0 w = []"
| "le (Suc n) w = ucast w # le n (drop_bit 8 w)"

primrec unle :: "u8 list \<Rightarrow> 'a::len word" where
  "unle [] = 0"
| "unle (b # bs) = ucast b OR push_bit 8 (unle bs)"

lemma length_le [simp]: "length (le n w) = n"
  by (induction n arbitrary: w) auto

lemma unle_le: "unle (le n (w::'a::len word)) = take_bit (8 * n) w"
proof (induction n arbitrary: w)
  case 0
  then show ?case by simp
next
  case (Suc n)
  show ?case
    unfolding le.simps unle.simps Suc
    by (rule bit_word_eqI) (auto simp: bit_simps)
qed

lemma unle_le_full [simp]: "8 * n = LENGTH('a) \<Longrightarrow> unle (le n (w::'a::len word)) = w"
  by (simp add: unle_le take_bit_word_eq_self)

lemma bit_unle_bound: "bit (unle bs :: 'a::len word) n \<Longrightarrow> n < 8 * length bs"
proof (induction bs arbitrary: n)
  case Nil
  then show ?case by simp
next
  case (Cons b bs)
  from Cons.prems consider "n < 8" | "8 \<le> n" "bit (unle bs :: 'a word) (n - 8)"
    using bit_imp_le_length [of b n] by (auto simp: bit_simps)
  then show ?case by cases (use Cons.IH [of "n - 8"] in auto)
qed

lemma le_unle: "8 * length bs \<le> LENGTH('a) \<Longrightarrow> le (length bs) (unle bs :: 'a::len word) = bs"
proof (induction bs)
  case Nil
  then show ?case by simp
next
  case (Cons b bs)
  let ?v = "unle bs :: 'a word"
  have "ucast (ucast b OR push_bit 8 ?v) = b"
    using Cons.prems by (intro bit_word_eqI) (auto simp: bit_simps)
  moreover have "drop_bit 8 (ucast b OR push_bit 8 ?v) = ?v"
  proof (rule bit_word_eqI)
    fix n
    assume "n < LENGTH('a)"
    show "bit (drop_bit 8 (ucast b OR push_bit 8 ?v)) n = bit ?v n"
      using bit_unle_bound [of bs n, where 'a = 'a] Cons.prems bit_imp_le_length [of b "8 + n"]
      by (auto simp: bit_simps)
  qed
  ultimately show ?case using Cons by simp
qed

section \<open>Memory\<close>

type_synonym memory = "u64 \<Rightarrow> u8"

text \<open>\<open>bytes m a n\<close> are the \<open>n\<close> bytes of memory from address \<open>a\<close>, \<open>store m a bs\<close> the memory
  after the bytes \<open>bs\<close> have been stored at \<open>a\<close>.  Addresses wrap as C's \<^verbatim>\<open>uint64\<close> arithmetic does.\<close>

definition bytes :: "memory \<Rightarrow> u64 \<Rightarrow> nat \<Rightarrow> u8 list" where
  "bytes m a n = map (\<lambda>i. m (a + of_nat i)) [0..<n]"

primrec store :: "memory \<Rightarrow> u64 \<Rightarrow> u8 list \<Rightarrow> memory" where
  "store m a [] = m"
| "store m a (b # bs) = store (m(a := b)) (a + 1) bs"

lemma length_bytes [simp]: "length (bytes m a n) = n"
  by (simp add: bytes_def)

lemma nth_bytes [simp]: "i < n \<Longrightarrow> bytes m a n ! i = m (a + of_nat i)"
  by (simp add: bytes_def)

lemma bytes_0 [simp]: "bytes m a 0 = []"
  by (simp add: bytes_def)

lemma unat_lt_64: "unat (w::u64) < 2 ^ 64"
  using unsigned_less [of w, where ?'a = nat] by simp

lemma unat_of_nat_64 [simp]: "i < 2 ^ 64 \<Longrightarrow> unat (of_nat i :: u64) = i"
  by (rule of_nat_inverse) auto

lemma addr_offset: "k < 2 ^ 64 \<Longrightarrow> x = a + of_nat k \<longleftrightarrow> unat (x - a) = k" for x :: u64
  by (metis add_diff_cancel_left' add.commute diff_add_cancel of_nat_unat ucast_id unat_of_nat_64)

lemma unat_diff_Suc: "x \<noteq> a \<Longrightarrow> unat (x - a) = Suc (unat (x - (a + 1)))" for x :: u64
  using unat_minus_one [of "x - a"] by (simp add: unat_gt_0 diff_diff_eq)

lemma unat_diff_self_Suc: "unat (a - (a + 1)) = 2 ^ 64 - 1" for a :: u64
  by (simp add: unsigned_minus_1_eq_mask mask_eq_exp_minus_1)

text \<open>A store changes the \<open>length bs\<close> addresses from \<open>a\<close> and no other.\<close>

lemma store_apply:
  "length bs \<le> 2 ^ 64 \<Longrightarrow>
   store m a bs x = (if unat (x - a) < length bs then bs ! unat (x - a) else m x)"
proof (induction bs arbitrary: m a)
  case Nil
  then show ?case by simp
next
  case (Cons b bs)
  show ?case
  proof (cases "x = a")
    case True
    with Cons unat_diff_self_Suc [of a] show ?thesis by simp
  next
    case False
    with Cons unat_diff_Suc [of x a] show ?thesis by simp
  qed
qed

lemma bytes_store_same: "length bs \<le> 2 ^ 64 \<Longrightarrow> bytes (store m a bs) a (length bs) = bs"
  by (rule nth_equalityI) (auto simp: store_apply)

text \<open>Two ranges of memory that do not meet, as the distance of one from the other shows.\<close>

definition disjoint_ranges :: "u64 \<Rightarrow> nat \<Rightarrow> u64 \<Rightarrow> nat \<Rightarrow> bool" where
  "disjoint_ranges a n b k \<longleftrightarrow> (\<forall>i < n. \<forall>j < k. a + of_nat i \<noteq> b + of_nat j)"

lemma bytes_store_disjoint:
  "length bs \<le> 2 ^ 64 \<Longrightarrow> disjoint_ranges a (length bs) b k \<Longrightarrow> bytes (store m a bs) b k = bytes m b k"
proof (rule nth_equalityI, simp, goal_cases)
  case (1 j)
  have "a + of_nat (unat (b + of_nat j - a)) = b + of_nat j"
    by simp
  then have "\<not> unat (b + of_nat j - a) < length bs"
    using 1 unfolding disjoint_ranges_def by (metis length_bytes)
  with 1 show ?case by (simp add: store_apply)
qed

text \<open>64-bit loads and stores, the access of page-table entries and of the free list.\<close>

definition ld64 :: "memory \<Rightarrow> u64 \<Rightarrow> u64" where
  "ld64 m a = unle (bytes m a 8)"

definition st64 :: "memory \<Rightarrow> u64 \<Rightarrow> u64 \<Rightarrow> memory" where
  "st64 m a v = store m a (le 8 v)"

lemma ld64_st64_same [simp]: "ld64 (st64 m a v) a = v"
  using bytes_store_same [of "le 8 v" m a] by (simp add: ld64_def st64_def)

lemma ld64_store_disjoint:
  "length bs \<le> 2 ^ 64 \<Longrightarrow> disjoint_ranges a (length bs) b 8 \<Longrightarrow> ld64 (store m a bs) b = ld64 m b"
  by (simp add: ld64_def bytes_store_disjoint)

lemma ld64_st64_disjoint: "disjoint_ranges a 8 b 8 \<Longrightarrow> ld64 (st64 m a v) b = ld64 m b"
  by (simp add: st64_def ld64_store_disjoint)

section \<open>Transition systems\<close>

inductive reachable :: "('g \<Rightarrow> bool) \<Rightarrow> ('g \<Rightarrow> 'g \<Rightarrow> bool) \<Rightarrow> 'g \<Rightarrow> bool" for init step where
  start: "init g \<Longrightarrow> reachable init step g"
| more: "reachable init step g \<Longrightarrow> step g g' \<Longrightarrow> reachable init step g'"

lemma reachable_steps: "step\<^sup>*\<^sup>* g g' \<Longrightarrow> reachable init step g \<Longrightarrow> reachable init step g'"
  by (induction rule: rtranclp_induct) (auto intro: reachable.more)

text \<open>A system whose steps keep an invariant.\<close>

locale invariant_system =
  fixes init :: "'g \<Rightarrow> bool" and step :: "'g \<Rightarrow> 'g \<Rightarrow> bool" and inv :: "'g \<Rightarrow> bool"
  assumes inv_init: "init g \<Longrightarrow> inv g"
    and inv_step: "inv g \<Longrightarrow> step g g' \<Longrightarrow> inv g'"
begin

lemma inv_reachable: "reachable init step g \<Longrightarrow> inv g"
  by (induction rule: reachable.induct) (auto intro: inv_init inv_step)

end

text \<open>A system that implements an abstract one: each of its steps is a step of the abstract system
  or leaves the abstract state as it is.\<close>

locale refinement = invariant_system init step inv
  for init :: "'g \<Rightarrow> bool" and step :: "'g \<Rightarrow> 'g \<Rightarrow> bool" and inv :: "'g \<Rightarrow> bool" +
  fixes ainit :: "'a \<Rightarrow> bool" and astep :: "'a \<Rightarrow> 'a \<Rightarrow> bool" and abs :: "'g \<Rightarrow> 'a \<Rightarrow> bool"
  assumes abs_init: "init g \<Longrightarrow> \<exists>a. ainit a \<and> abs g a"
    and abs_step: "inv g \<Longrightarrow> step g g' \<Longrightarrow> abs g a \<Longrightarrow> \<exists>a'. abs g' a' \<and> (a' = a \<or> astep a a')"
begin

lemma abs_reachable: "reachable init step g \<Longrightarrow> \<exists>a. reachable ainit astep a \<and> abs g a"
proof (induction rule: reachable.induct)
  case (start g)
  with abs_init show ?case by (meson reachable.start)
next
  case (more g g')
  then obtain a where "reachable ainit astep a" "abs g a" by blast
  with abs_step [OF inv_reachable [OF more.hyps(1)] more.hyps(2)] show ?case by (metis reachable.more)
qed

end

end
