(* ===== verification/Xv6_Layout.thy ===== *)
theory Xv6_Layout
  imports Xv6_Prelude
begin

text \<open>
  The constants and address macros of \<^verbatim>\<open>kernel/param.h\<close>, \<^verbatim>\<open>kernel/memlayout.h\<close> and the paging part
  of \<^verbatim>\<open>kernel/riscv.h\<close>: page rounding, page-table entries, the three 9-bit indices of an Sv39
  virtual address, and the places of the trampoline, the trapframe and the kernel stacks.
  The lemmas show that a page-table entry keeps the address and the flags it is built from, that
  the three indices determine the page of a virtual address, and that the kernel stacks are
  separated from one another by unmapped pages.
\<close>

section \<open>Parameters (param.h)\<close>

definition NPROC :: "'a::numeral" where [simp]: "NPROC = 64"
definition NCPU :: "'a::numeral" where [simp]: "NCPU = 8"
definition NOFILE :: "'a::numeral" where [simp]: "NOFILE = 16"
definition NFILE :: "'a::numeral" where [simp]: "NFILE = 100"
definition NINODE :: "'a::numeral" where [simp]: "NINODE = 50"
definition NDEV :: "'a::numeral" where [simp]: "NDEV = 10"
definition ROOTDEV :: "'a::one" where [simp]: "ROOTDEV = 1"
definition MAXARG :: "'a::numeral" where [simp]: "MAXARG = 32"
definition MAXOPBLOCKS :: "'a::numeral" where [simp]: "MAXOPBLOCKS = 10"
definition LOGSIZE :: "'a::semiring_numeral" where [simp]: "LOGSIZE = MAXOPBLOCKS * 3"
definition NBUF :: "'a::semiring_numeral" where [simp]: "NBUF = MAXOPBLOCKS * 3"
definition FSSIZE :: "'a::numeral" where [simp]: "FSSIZE = 2000"
definition MAXPATH :: "'a::numeral" where [simp]: "MAXPATH = 128"

section \<open>Pages (riscv.h)\<close>

definition PGSIZE :: "'a::numeral" where [simp]: "PGSIZE = 4096"
definition PGSHIFT :: nat where [simp]: "PGSHIFT = 12"

definition PGROUNDUP :: "u64 \<Rightarrow> u64" where
  "PGROUNDUP sz = (sz + PGSIZE - 1) AND NOT (PGSIZE - 1)"

definition PGROUNDDOWN :: "u64 \<Rightarrow> u64" where
  "PGROUNDDOWN a = a AND NOT (PGSIZE - 1)"

definition PTE_V :: u64 where "PTE_V = push_bit 0 1"
definition PTE_R :: u64 where "PTE_R = push_bit 1 1"
definition PTE_W :: u64 where "PTE_W = push_bit 2 1"
definition PTE_X :: u64 where "PTE_X = push_bit 3 1"
definition PTE_U :: u64 where "PTE_U = push_bit 4 1"

definition PA2PTE :: "u64 \<Rightarrow> u64" where
  "PA2PTE pa = push_bit 10 (drop_bit 12 pa)"

definition PTE2PA :: "u64 \<Rightarrow> u64" where
  "PTE2PA pte = push_bit 12 (drop_bit 10 pte)"

definition PTE_FLAGS :: "u64 \<Rightarrow> u64" where
  "PTE_FLAGS pte = pte AND 0x3FF"

definition PXMASK :: u64 where "PXMASK = 0x1FF"

definition PXSHIFT :: "nat \<Rightarrow> nat" where
  "PXSHIFT level = PGSHIFT + 9 * level"

definition PX :: "nat \<Rightarrow> u64 \<Rightarrow> u64" where
  "PX level va = drop_bit (PXSHIFT level) va AND PXMASK"

definition MAXVA :: u64 where "MAXVA = push_bit (9 + 9 + 9 + 12 - 1) 1"

definition SATP_SV39 :: u64 where "SATP_SV39 = push_bit 60 8"

definition MAKE_SATP :: "u64 \<Rightarrow> u64" where
  "MAKE_SATP pagetable = SATP_SV39 OR drop_bit 12 pagetable"

section \<open>Physical and virtual layout (memlayout.h)\<close>

definition UART0 :: u64 where "UART0 = 0x10000000"
definition UART0_IRQ :: "'a::numeral" where [simp]: "UART0_IRQ = 10"
definition VIRTIO0 :: u64 where "VIRTIO0 = 0x10001000"
definition VIRTIO0_IRQ :: "'a::one" where [simp]: "VIRTIO0_IRQ = 1"
definition CLINT :: u64 where "CLINT = 0x2000000"
definition CLINT_MTIMECMP :: "u64 \<Rightarrow> u64" where "CLINT_MTIMECMP hartid = CLINT + 0x4000 + 8 * hartid"
definition CLINT_MTIME :: u64 where "CLINT_MTIME = CLINT + 0xBFF8"
definition PLIC :: u64 where "PLIC = 0x0c000000"
definition PLIC_SENABLE :: "u64 \<Rightarrow> u64" where "PLIC_SENABLE hart = PLIC + 0x2080 + hart * 0x100"
definition PLIC_SPRIORITY :: "u64 \<Rightarrow> u64" where "PLIC_SPRIORITY hart = PLIC + 0x201000 + hart * 0x2000"
definition PLIC_SCLAIM :: "u64 \<Rightarrow> u64" where "PLIC_SCLAIM hart = PLIC + 0x201004 + hart * 0x2000"
definition KERNBASE :: u64 where "KERNBASE = 0x80000000"
definition PHYSTOP :: u64 where "PHYSTOP = KERNBASE + 128 * 1024 * 1024"
definition TRAMPOLINE :: u64 where "TRAMPOLINE = MAXVA - PGSIZE"
definition TRAPFRAME :: u64 where "TRAPFRAME = TRAMPOLINE - PGSIZE"

definition KSTACK :: "nat \<Rightarrow> u64" where
  "KSTACK p = TRAMPOLINE - of_nat (p + 1) * 2 * PGSIZE"

lemmas pte_flag_defs = PTE_V_def PTE_R_def PTE_W_def PTE_X_def PTE_U_def

lemmas layout_defs = UART0_def VIRTIO0_def CLINT_def PLIC_def KERNBASE_def PHYSTOP_def
  TRAMPOLINE_def TRAPFRAME_def MAXVA_def

section \<open>Page arithmetic\<close>

text \<open>An address is page-aligned when its low twelve bits are zero; \<open>page_of\<close> is the number of
  the page an address lies in.\<close>

definition page_of :: "u64 \<Rightarrow> u64" where
  "page_of a = drop_bit 12 a"

definition pg_aligned :: "u64 \<Rightarrow> bool" where
  "pg_aligned a \<longleftrightarrow> a mod PGSIZE = 0"

lemma mask12: "(0xFFF::u64) = mask 12"
  by (simp add: mask_eq_exp_minus_1)

lemma PGROUNDDOWN_bits: "PGROUNDDOWN a = push_bit 12 (drop_bit 12 a)"
  by (rule bit_word_eqI) (auto simp: PGROUNDDOWN_def mask12 bit_simps)

lemma unat_PGROUNDDOWN: "unat (PGROUNDDOWN a) = unat a div 4096 * 4096"
proof -
  have "unat a div 4096 * 4096 \<le> unat a" by simp
  also have "\<dots> < 2 ^ 64" by (rule unat_lt_64)
  finally have "unat a div 4096 * 4096 < 2 ^ 64" .
  moreover have "PGROUNDDOWN a = a div 4096 * 4096"
    by (simp add: PGROUNDDOWN_bits drop_bit_eq_div push_bit_eq_mult)
  ultimately show ?thesis
    by (simp only: unat_word_ariths unat_div_distrib) simp
qed

lemma PGROUNDUP_eq: "PGROUNDUP sz = PGROUNDDOWN (sz + 4095)"
  by (simp add: PGROUNDUP_def PGROUNDDOWN_def add.commute)

lemma unat_PGROUNDUP:
  "unat sz + 4095 < 2 ^ 64 \<Longrightarrow> unat (PGROUNDUP sz) = (unat sz + 4095) div 4096 * 4096"
  by (simp add: PGROUNDUP_eq unat_PGROUNDDOWN unat_word_ariths)

lemma pg_aligned_unat: "pg_aligned a \<longleftrightarrow> unat a mod 4096 = 0"
  by (simp add: pg_aligned_def word_unat_eq_iff unat_mod_distrib)

lemma pg_aligned_PGROUNDDOWN [simp]: "pg_aligned (PGROUNDDOWN a)"
  by (simp add: pg_aligned_unat unat_PGROUNDDOWN)

lemma pg_aligned_PGROUNDUP [simp]: "pg_aligned (PGROUNDUP a)"
  by (simp add: PGROUNDUP_eq)

lemma pg_aligned_room: "pg_aligned p \<Longrightarrow> unat p + 4096 \<le> 2 ^ 64"
proof -
  assume "pg_aligned p"
  then obtain k where k: "unat p = 4096 * k"
    by (auto simp: pg_aligned_unat mod_eq_0_iff_dvd dvd_def)
  with unat_lt_64 [of p] have "4096 * k < 4096 * 2 ^ 52" by simp
  then have "k < 2 ^ 52" by simp
  with k show ?thesis by simp
qed

lemma unat_aligned_add: "pg_aligned p \<Longrightarrow> i < 4096 \<Longrightarrow> unat (p + of_nat i) = unat p + i"
  using pg_aligned_room [of p] by (simp add: unat_word_ariths)

lemma unat_page_of: "unat (page_of a) = unat a div 4096"
  by (simp add: page_of_def drop_bit_eq_div unat_div_distrib)

lemma page_of_add [simp]: "pg_aligned p \<Longrightarrow> i < 4096 \<Longrightarrow> page_of (p + of_nat i) = page_of p"
  by (auto simp: word_unat_eq_iff unat_page_of unat_aligned_add pg_aligned_unat)

lemma page_of_eq_iff: "pg_aligned p \<Longrightarrow> pg_aligned q \<Longrightarrow> page_of p = page_of q \<longleftrightarrow> p = q"
  by (auto simp: word_unat_eq_iff unat_page_of pg_aligned_unat)

lemma in_page_iff: "pg_aligned p \<Longrightarrow> unat (x - p) < 4096 \<longleftrightarrow> page_of x = page_of p"
proof
  assume p: "pg_aligned p" and "unat (x - p) < 4096"
  then have "page_of (p + of_nat (unat (x - p))) = page_of p" by (rule page_of_add)
  then show "page_of x = page_of p" by simp
next
  assume p: "pg_aligned p" and eq: "page_of x = page_of p"
  then have "unat x div 4096 = unat p div 4096" by (metis unat_page_of)
  moreover from p have "unat p mod 4096 = 0" by (simp add: pg_aligned_unat)
  ultimately have "unat p \<le> unat x" "unat x - unat p < 4096"
    using div_mult_mod_eq [of "unat x" 4096] div_mult_mod_eq [of "unat p" 4096]
      mod_less_divisor [of 4096 "unat x"] by linarith+
  then show "unat (x - p) < 4096" by (simp add: unat_sub word_le_nat_alt)
qed

lemma page_of_PGROUNDDOWN [simp]: "page_of (PGROUNDDOWN a) = page_of a"
  by (simp add: word_unat_eq_iff unat_page_of unat_PGROUNDDOWN)

lemma PGROUNDDOWN_offset: "unat (a - PGROUNDDOWN a) = unat a mod 4096"
proof -
  have "unat a div 4096 * 4096 \<le> unat a" by simp
  then have "PGROUNDDOWN a \<le> a" by (simp only: word_le_nat_alt unat_PGROUNDDOWN)
  then have "unat (a - PGROUNDDOWN a) = unat a - unat a div 4096 * 4096"
    by (simp add: unat_sub unat_PGROUNDDOWN)
  then show ?thesis by (simp add: minus_div_mult_eq_mod)
qed

lemma PGROUNDDOWN_aligned [simp]: "pg_aligned a \<Longrightarrow> PGROUNDDOWN a = a"
  by (auto simp: word_unat_eq_iff unat_PGROUNDDOWN pg_aligned_unat)

lemma pg_aligned_add [simp]: "pg_aligned a \<Longrightarrow> pg_aligned b \<Longrightarrow> pg_aligned (a + b)"
proof -
  assume "pg_aligned a" "pg_aligned b"
  then have "4096 dvd unat a + unat b" by (simp add: pg_aligned_unat mod_eq_0_iff_dvd)
  moreover have "(4096::nat) dvd 2 ^ 64" by simp
  ultimately show ?thesis
    by (simp only: pg_aligned_unat unat_word_ariths mod_mod_cancel mod_eq_0_iff_dvd len_num1 len_bit0) (simp add: dvd_mod)
qed

section \<open>Page-table entries and indices\<close>

lemma PTE_FLAGS_take: "PTE_FLAGS pte = take_bit 10 pte"
  by (simp add: PTE_FLAGS_def take_bit_eq_mask mask_eq_exp_minus_1)

lemma PX_take: "PX l va = take_bit 9 (drop_bit (12 + 9 * l) va)"
  by (simp add: PX_def PXMASK_def PXSHIFT_def take_bit_eq_mask mask_eq_exp_minus_1)

lemma word_less_bits: "unat (w::u64) < 2 ^ k \<Longrightarrow> k \<le> n \<Longrightarrow> \<not> bit w n"
proof
  assume "unat w < 2 ^ k" and "k \<le> n" and "bit w n"
  then have "take_bit k (unat w) = unat w" "bit (unat w) n"
    by (simp_all add: take_bit_nat_eq_self bit_unsigned_iff)
  with \<open>k \<le> n\<close> show False by (metis bit_take_bit_iff leD)
qed

lemma pg_aligned_bits: "pg_aligned a \<Longrightarrow> n < 12 \<Longrightarrow> \<not> bit a n"
proof -
  assume "pg_aligned a" and n: "n < 12"
  then have "PGROUNDDOWN a = a" by simp
  then have "bit a n = bit (push_bit 12 (drop_bit 12 a)) n" by (simp only: PGROUNDDOWN_bits)
  with n show ?thesis by (simp add: bit_simps)
qed

lemma PTE2PA_entry:
  assumes "pg_aligned pa" "unat pa < 2 ^ 56" "unat f < 2 ^ 10"
  shows "PTE2PA (PA2PTE pa OR f) = pa"
  unfolding PTE2PA_def PA2PTE_def
proof (rule bit_word_eqI)
  fix n
  show "bit (push_bit 12 (drop_bit 10 (push_bit 10 (drop_bit 12 pa) OR f))) n = bit pa n"
  proof (cases "n < 12")
    case True
    with pg_aligned_bits [OF assms(1)] show ?thesis by (simp add: bit_simps)
  next
    case False
    then obtain k where "n = 12 + k" by (metis le_Suc_ex not_less)
    with word_less_bits [OF assms(2), of n] word_less_bits [OF assms(3), of "10 + k"]
      bit_imp_le_length [of pa n] show ?thesis by (auto simp: bit_simps)
  qed
qed

lemma PTE_FLAGS_entry:
  assumes "unat f < 2 ^ 10"
  shows "PTE_FLAGS (PA2PTE pa OR f) = f"
  unfolding PTE_FLAGS_take PA2PTE_def
proof (rule bit_word_eqI)
  fix n
  show "bit (take_bit 10 (push_bit 10 (drop_bit 12 pa) OR f)) n = bit f n"
    using word_less_bits [OF assms, of n] by (auto simp: bit_simps)
qed

text \<open>The valid bit of an entry is the valid bit of its flags.\<close>

lemma PTE_V_entry [simp]: "(PA2PTE pa OR f OR PTE_V) AND PTE_V \<noteq> 0"
proof -
  have "bit ((PA2PTE pa OR f OR PTE_V) AND PTE_V) 0" by (simp add: bit_simps PTE_V_def)
  then show ?thesis by (metis bit_0_eq bot_apply bot_bool_def)
qed

lemma bit_PX: "bit (PX l va) n \<longleftrightarrow> n < 9 \<and> bit va (12 + 9 * l + n)"
  using bit_imp_le_length [of va "12 + 9 * l + n"] by (auto simp: PX_take bit_simps add.assoc)

lemma PX_less: "unat (PX l va) < 512"
proof -
  have "unat (PX l va) = take_bit 9 (unat (drop_bit (12 + 9 * l) va))"
    by (simp only: PX_take unsigned_take_bit_eq)
  also have "\<dots> < 512" using take_bit_nat_less_exp [of 9] by simp
  finally show ?thesis .
qed

lemma MAXVA_num: "MAXVA = 0x4000000000" "unat MAXVA = 2 ^ 38"
  by (simp_all add: MAXVA_def)

text \<open>The three indices determine the page of an address below \<open>MAXVA\<close>.\<close>

lemma PX_determine_page:
  assumes "va < MAXVA" "vb < MAXVA" "\<And>l. l < 3 \<Longrightarrow> PX l va = PX l vb"
  shows "page_of va = page_of vb"
proof (rule bit_word_eqI)
  fix n
  have small: "\<not> bit va (n + 12)" "\<not> bit vb (n + 12)" if "27 \<le> n"
    using that assms(1,2) word_less_bits [of _ 38 "n + 12"]
    by (auto simp: word_less_nat_alt MAXVA_num)
  have "bit va (n + 12) = bit vb (n + 12)" if "n < 27"
  proof -
    from that have l: "n div 9 < 3" by simp
    have "bit (PX (n div 9) va) (n mod 9) = bit (PX (n div 9) vb) (n mod 9)"
      using assms(3) [OF l] by simp
    moreover have "12 + 9 * (n div 9) + n mod 9 = n + 12" by simp
    ultimately show ?thesis by (simp add: bit_PX)
  qed
  with small show "bit (page_of va) n = bit (page_of vb) n"
    by (cases "n < 27") (auto simp: page_of_def bit_simps add.commute)
qed

section \<open>Kernel stacks\<close>

lemma unat_KSTACK: "p < NPROC \<Longrightarrow> unat (KSTACK p) = 2 ^ 38 - 4096 - (p + 1) * 8192"
proof -
  assume p: "p < NPROC"
  have "unat (of_nat (p + 1) * 2 * 4096 :: u64) = (p + 1) * 8192"
    using p unat_of_nat_64 [of "p + 1"] by (simp only: unat_word_ariths) (simp del: of_nat_add)
  moreover have "unat TRAMPOLINE = 2 ^ 38 - 4096" by (simp add: TRAMPOLINE_def MAXVA_num)
  ultimately show ?thesis
    using p by (simp only: KSTACK_def PGSIZE_def unat_sub_if_size) simp
qed

lemma KSTACK_aligned: "p < NPROC \<Longrightarrow> pg_aligned (KSTACK p)"
proof -
  assume p: "p < NPROC"
  then have "2 ^ 38 - 4096 - (p + 1) * 8192 = 4096 * (2 ^ 26 - 1 - (p + 1) * 2)" by simp
  with unat_KSTACK [OF p] show ?thesis by (simp add: pg_aligned_unat)
qed

end
