(* ===== verification/Xv6_String.thy ===== *)
theory Xv6_String
  imports Xv6_Layout
begin

text \<open>
  The routines of \<^verbatim>\<open>kernel/string.c\<close>.  \<^verbatim>\<open>memset\<close> and \<^verbatim>\<open>memmove\<close> work on memory, because where their
  ranges overlap matters; the others see each \<^verbatim>\<open>char *\<close> argument as the function that gives the
  byte at an offset from it, so that they serve memory and buffers alike.  \<^verbatim>\<open>strlen\<close> need not
  return, so its model has an optional result.

  Shown: \<open>memmove\<close> copies as if through a temporary buffer even where the ranges overlap,
  \<open>memset\<close> fills its range only, \<open>strncmp\<close> compares the strings up to the bound, \<open>strncpy\<close>
  pads, \<open>safestrcpy\<close> always terminates its result inside the bound, and \<open>strlen\<close> returns the
  length of every terminated string.
\<close>

section \<open>memset\<close>

definition memset :: "memory \<Rightarrow> u64 \<Rightarrow> u32 \<Rightarrow> u32 \<Rightarrow> memory" where
  "memset m dst c n = fold (\<lambda>i m. m(dst + of_nat i := ucast c)) [0..<unat n] m"

section \<open>memcmp\<close>

fun memcmp :: "(nat \<Rightarrow> u8) \<Rightarrow> (nat \<Rightarrow> u8) \<Rightarrow> nat \<Rightarrow> int" where
  "memcmp s1 s2 0 = 0"
| "memcmp s1 s2 (Suc n) =
     (if s1 0 \<noteq> s2 0 then uint (s1 0) - uint (s2 0)
      else memcmp (\<lambda>i. s1 (Suc i)) (\<lambda>i. s2 (Suc i)) n)"

section \<open>memmove\<close>

text \<open>The two copy loops: \<^verbatim>\<open>while(n-- > 0) *d++ = *s++;\<close> and \<^verbatim>\<open>while(n-- > 0) *--d = *--s;\<close>.\<close>

fun copy_up :: "memory \<Rightarrow> u64 \<Rightarrow> u64 \<Rightarrow> nat \<Rightarrow> memory" where
  "copy_up m d s 0 = m"
| "copy_up m d s (Suc n) = copy_up (m(d := m s)) (d + 1) (s + 1) n"

fun copy_down :: "memory \<Rightarrow> u64 \<Rightarrow> u64 \<Rightarrow> nat \<Rightarrow> memory" where
  "copy_down m d s 0 = m"
| "copy_down m d s (Suc n) = copy_down (m(d - 1 := m (s - 1))) (d - 1) (s - 1) n"

definition memmove :: "memory \<Rightarrow> u64 \<Rightarrow> u64 \<Rightarrow> u32 \<Rightarrow> memory" where
  "memmove m dst src n =
     (if n = 0 then m
      else if src < dst \<and> src + ucast n > dst
      then copy_down m (dst + ucast n) (src + ucast n) (unat n)
      else copy_up m dst src (unat n))"

definition memcpy :: "memory \<Rightarrow> u64 \<Rightarrow> u64 \<Rightarrow> u32 \<Rightarrow> memory" where
  "memcpy m dst src n = memmove m dst src n"

section \<open>Strings\<close>

fun strncmp :: "(nat \<Rightarrow> u8) \<Rightarrow> (nat \<Rightarrow> u8) \<Rightarrow> nat \<Rightarrow> int" where
  "strncmp p q 0 = 0"
| "strncmp p q (Suc n) =
     (if p 0 \<noteq> 0 \<and> p 0 = q 0 then strncmp (\<lambda>i. p (Suc i)) (\<lambda>i. q (Suc i)) n
      else uint (p 0) - uint (q 0))"

text \<open>\<open>strncpy_pad\<close> is the second loop of \<^verbatim>\<open>strncpy\<close>, \<open>strncpy_copy\<close> the first followed by it;
  \<open>i\<close> is how far \<^verbatim>\<open>s\<close> and \<^verbatim>\<open>t\<close> have moved and the last argument what is left of \<^verbatim>\<open>n\<close>.\<close>

fun strncpy_pad :: "(nat \<Rightarrow> u8) \<Rightarrow> nat \<Rightarrow> nat \<Rightarrow> nat \<Rightarrow> u8" where
  "strncpy_pad s i 0 = s"
| "strncpy_pad s i (Suc n) = strncpy_pad (s(i := 0)) (Suc i) n"

fun strncpy_copy :: "(nat \<Rightarrow> u8) \<Rightarrow> (nat \<Rightarrow> u8) \<Rightarrow> nat \<Rightarrow> nat \<Rightarrow> nat \<Rightarrow> u8" where
  "strncpy_copy s t i 0 = s"
| "strncpy_copy s t i (Suc n) =
     (if t i \<noteq> 0 then strncpy_copy (s(i := t i)) t (Suc i) n
      else strncpy_pad (s(i := t i)) (Suc i) n)"

definition strncpy :: "(nat \<Rightarrow> u8) \<Rightarrow> (nat \<Rightarrow> u8) \<Rightarrow> int \<Rightarrow> nat \<Rightarrow> u8" where
  "strncpy s t n = strncpy_copy s t 0 (nat n)"

fun safestrcpy_loop :: "(nat \<Rightarrow> u8) \<Rightarrow> (nat \<Rightarrow> u8) \<Rightarrow> nat \<Rightarrow> nat \<Rightarrow> nat \<Rightarrow> u8" where
  "safestrcpy_loop s t i 0 = s(i := 0)"
| "safestrcpy_loop s t i (Suc n) =
     (if t i \<noteq> 0 then safestrcpy_loop (s(i := t i)) t (Suc i) n
      else (s(i := t i))(Suc i := 0))"

definition safestrcpy :: "(nat \<Rightarrow> u8) \<Rightarrow> (nat \<Rightarrow> u8) \<Rightarrow> int \<Rightarrow> nat \<Rightarrow> u8" where
  "safestrcpy s t n = (if n \<le> 0 then s else safestrcpy_loop s t 0 (nat (n - 1)))"

partial_function (option) strlen_from :: "(nat \<Rightarrow> u8) \<Rightarrow> nat \<Rightarrow> nat option" where
  "strlen_from s n = (if s n \<noteq> 0 then strlen_from s (Suc n) else Some n)"

definition strlen :: "(nat \<Rightarrow> u8) \<Rightarrow> nat option" where
  "strlen s = strlen_from s 0"

section \<open>What they compute\<close>

lemma memset_apply: "memset m dst c n x = (if unat (x - dst) < unat n then ucast c else m x)"
proof -
  have "k \<le> 2 ^ 64 \<Longrightarrow> fold (\<lambda>i m. m(dst + of_nat i := ucast c)) [0..<k] m x
      = (if unat (x - dst) < k then ucast c else m x)" for k
  proof (induction k)
    case 0
    then show ?case by simp
  next
    case (Suc k)
    with addr_offset [of k x dst] show ?case by (auto simp: less_Suc_eq)
  qed
  moreover have "unat n \<le> 2 ^ 64" using unsigned_less [of n, where ?'a = nat] by simp
  ultimately show ?thesis by (simp add: memset_def)
qed

lemma copy_up_apply:
  assumes "unat s + n \<le> 2 ^ 64" "unat d + n \<le> 2 ^ 64" "unat d \<le> unat s \<or> unat s + n \<le> unat d"
  shows "copy_up m d s n x = (if unat (x - d) < n then m (s + (x - d)) else m x)"
  using assms
proof (induction n arbitrary: m d s)
  case 0
  then show ?case by simp
next
  case (Suc n)
  show ?case
  proof (cases "n = 0")
    case True
    then show ?thesis by (auto simp: unat_eq_0)
  next
    case False
    with Suc.prems have d1: "unat (d + 1) = unat d + 1" and s1: "unat (s + 1) = unat s + 1"
      by (simp_all add: unat_word_ariths)
    with Suc.prems have IH: "copy_up m' (d + 1) (s + 1) n x =
        (if unat (x - (d + 1)) < n then m' (s + 1 + (x - (d + 1))) else m' x)" for m'
      by (intro Suc.IH) auto
    show ?thesis
    proof (cases "x = d")
      case True
      with False Suc.prems unat_diff_self_Suc [of d] show ?thesis
        unfolding copy_up.simps IH by simp
    next
      case x: False
      have "s + (x - d) \<noteq> d" if "unat (x - (d + 1)) < n"
      proof -
        from that x have "unat (x - d) \<le> n" by (simp add: unat_diff_Suc)
        with Suc.prems have eq: "unat (s + (x - d)) = unat s + unat (x - d)"
          by (simp add: unat_word_ariths)
        from x have "0 < unat (x - d)" by (simp add: unat_gt_0)
        with eq Suc.prems(3) \<open>unat (x - d) \<le> n\<close> have "unat (s + (x - d)) \<noteq> unat d" by linarith
        then show ?thesis by metis
      qed
      moreover have "s + 1 + (x - (d + 1)) = s + (x - d)" by simp
      ultimately show ?thesis using x by (simp add: IH unat_diff_Suc)
    qed
  qed
qed

lemma copy_down_apply:
  assumes "unat s + n \<le> 2 ^ 64" "unat d + n \<le> 2 ^ 64" "unat s \<le> unat d"
  shows "copy_down m (d + of_nat n) (s + of_nat n) n x
    = (if unat (x - d) < n then m (s + (x - d)) else m x)"
  using assms
proof (induction n arbitrary: m)
  case 0
  then show ?case by simp
next
  case (Suc n)
  let ?m = "m(d + of_nat n := m (s + of_nat n))"
  have IH: "copy_down ?m (d + of_nat n) (s + of_nat n) n x =
      (if unat (x - d) < n then ?m (s + (x - d)) else ?m x)"
    using Suc.prems by (intro Suc.IH) auto
  have "s + (x - d) \<noteq> d + of_nat n" if "unat (x - d) < n"
  proof -
    from that Suc.prems have "unat (s + (x - d)) = unat s + unat (x - d)" "unat (d + of_nat n) = unat d + n"
      by (simp_all add: unat_word_ariths)
    with that Suc.prems(3) have "unat (s + (x - d)) \<noteq> unat (d + of_nat n)" by linarith
    then show ?thesis by metis
  qed
  moreover have "x = d + of_nat n \<longleftrightarrow> unat (x - d) = n"
    using Suc.prems(2) by (intro addr_offset) simp
  ultimately show ?case
    using IH by (auto simp: less_Suc_eq add.commute [of 1] add.assoc [symmetric])
qed

lemma unat_ucast_32_64 [simp]: "unat (ucast (n::u32) :: u64) = unat n"
  using unsigned_less [of n, where ?'a = nat] by (simp add: unsigned_ucast_eq take_bit_nat_eq_self)

lemma memmove_store:
  assumes "unat src + unat n \<le> 2 ^ 64" "unat dst + unat n \<le> 2 ^ 64"
  shows "memmove m dst src n = store m dst (bytes m src (unat n))"
proof
  fix x
  have n: "unat n \<le> 2 ^ 64" using assms by simp
  have apply_up: "memmove m dst src n x = (if unat (x - dst) < unat n then m (src + (x - dst)) else m x)"
  proof (cases "src < dst \<and> src + ucast n > dst")
    case True
    then show ?thesis
      using copy_down_apply [OF assms] by (auto simp: memmove_def word_less_nat_alt)
  next
    case False
    have "unat dst \<le> unat src \<or> unat src + unat n \<le> unat dst"
    proof (rule disjCI)
      assume "\<not> unat src + unat n \<le> unat dst"
      show "unat dst \<le> unat src"
      proof (rule ccontr)
        assume lt: "\<not> unat dst \<le> unat src"
        with assms have "unat (src + ucast n) = unat src + unat n" by (simp add: unat_word_ariths)
        with lt \<open>\<not> unat src + unat n \<le> unat dst\<close> False show False by (simp add: word_less_nat_alt)
      qed
    qed
    with assms copy_up_apply [of src "unat n" dst m x] False show ?thesis
      by (auto simp: memmove_def)
  qed
  with n show "memmove m dst src n x = store m dst (bytes m src (unat n)) x"
    by (simp add: store_apply)
qed

text \<open>\<open>cstr n p\<close> is the C string at \<open>p\<close>, cut off after \<open>n\<close> bytes.\<close>

definition cstr :: "nat \<Rightarrow> (nat \<Rightarrow> u8) \<Rightarrow> u8 list" where
  "cstr n p = takeWhile (\<lambda>b. b \<noteq> 0) (map p [0..<n])"

lemma cstr_0 [simp]: "cstr 0 p = []"
  by (simp add: cstr_def)

lemma cstr_Suc: "cstr (Suc n) p = (if p 0 = 0 then [] else p 0 # cstr n (\<lambda>i. p (Suc i)))"
  by (simp only: cstr_def upt_conv_Cons zero_less_Suc map_Suc_upt [symmetric] list.map takeWhile.simps
      map_map comp_def) simp

lemma length_cstr: "length (cstr n p) \<le> n"
  unfolding cstr_def by (rule order_trans [OF length_takeWhile_le]) simp

lemma strncmp_eq_0_iff: "strncmp p q n = 0 \<longleftrightarrow> cstr n p = cstr n q"
proof (induction p q n rule: strncmp.induct)
  case (1 p q)
  then show ?case by simp
next
  case (2 p q n)
  show ?case
  proof (cases "p 0 \<noteq> 0 \<and> p 0 = q 0")
    case True
    with 2 show ?thesis by (simp add: cstr_Suc)
  next
    case False
    then have "uint (p 0) \<noteq> uint (q 0) \<or> p 0 = 0 \<and> q 0 = 0" by (auto simp: word_uint_eq_iff)
    with False show ?thesis by (auto simp: cstr_Suc)
  qed
qed

lemma strncmp_swap: "strncmp q p n = - strncmp p q n"
  by (induction p q n rule: strncmp.induct) auto

lemma strncpy_pad_apply: "strncpy_pad s i n j = (if i \<le> j \<and> j < i + n then 0 else s j)"
  by (induction n arbitrary: s i) auto

lemma strncpy_copy_apply:
  "strncpy_copy s t i n j =
     (if i \<le> j \<and> j < i + n then (if \<exists>k. i \<le> k \<and> k \<le> j \<and> t k = 0 then 0 else t j) else s j)"
proof (induction n arbitrary: s i)
  case 0
  then show ?case by auto
next
  case (Suc n)
  show ?case
  proof (cases "t i = 0")
    case True
    then show ?thesis by (auto simp: strncpy_pad_apply)
  next
    case False
    with Suc have "strncpy_copy s t i (Suc n) j =
      (if Suc i \<le> j \<and> j < Suc i + n then (if \<exists>k. Suc i \<le> k \<and> k \<le> j \<and> t k = 0 then 0 else t j)
       else (s(i := t i)) j)" by simp
    moreover have "(\<exists>k. Suc i \<le> k \<and> k \<le> j \<and> t k = 0) = (\<exists>k. i \<le> k \<and> k \<le> j \<and> t k = 0)"
      using False by (metis Suc_leD not_less_eq_eq le_antisym)
    ultimately show ?thesis using False by (auto simp: le_Suc_eq)
  qed
qed

lemma safestrcpy_loop_frame: "j < i \<or> i + n < j \<Longrightarrow> safestrcpy_loop s t i n j = s j"
  by (induction n arbitrary: s i) auto

lemma safestrcpy_loop_cstr:
  "cstr (Suc n) (\<lambda>k. safestrcpy_loop s t i n (i + k)) = cstr n (\<lambda>k. t (i + k))"
proof (induction n arbitrary: s i)
  case 0
  then show ?case by (simp add: cstr_Suc)
next
  case (Suc n)
  show ?case
  proof (cases "t i = 0")
    case True
    then show ?thesis by (simp add: cstr_Suc)
  next
    case False
    with Suc.IH [of "s(i := t i)" "Suc i"] show ?thesis
      by (simp add: cstr_Suc [of "Suc n"] cstr_Suc [of n "\<lambda>k. t (i + k)"] safestrcpy_loop_frame
          fun_upd_def)
  qed
qed

lemma strlen_from_terminated:
  "s (i + k) = 0 \<Longrightarrow> (\<And>j. j < k \<Longrightarrow> s (i + j) \<noteq> 0) \<Longrightarrow> strlen_from s i = Some (i + k)"
proof (induction k arbitrary: i)
  case 0
  then show ?case by (simp add: strlen_from.simps [of s i])
next
  case (Suc k)
  from Suc.prems(2) [of 0] have "s i \<noteq> 0" by simp
  moreover have "strlen_from s (Suc i) = Some (Suc i + k)"
    by (rule Suc.IH) (use Suc.prems in \<open>auto simp flip: add_Suc_right\<close>)
  ultimately show ?case by (simp add: strlen_from.simps [of s i])
qed

lemma strlen_terminated: "s k = 0 \<Longrightarrow> (\<And>j. j < k \<Longrightarrow> s j \<noteq> 0) \<Longrightarrow> strlen s = Some k"
  using strlen_from_terminated [of s 0 k] by (simp add: strlen_def)

section \<open>The properties\<close>

text \<open>C25.  \<open>memmove\<close> copies \<open>n\<close> bytes from \<open>src\<close> to \<open>dst\<close> as if through a temporary buffer, also
  where the two ranges overlap in either direction: afterwards the range at \<open>dst\<close> holds what the
  range at \<open>src\<close> held before, and no other byte has changed.\<close>

theorem memmove_copies:
  assumes "unat src + unat n \<le> 2 ^ 64" and "unat dst + unat n \<le> 2 ^ 64"
  shows "bytes (memmove m dst src n) dst (unat n) = bytes m src (unat n)
    \<and> (\<forall>x. unat (x - dst) \<ge> unat n \<longrightarrow> memmove m dst src n x = m x)"
proof -
  have "length (bytes m src (unat n)) \<le> 2 ^ 64" using assms(1) by simp
  with bytes_store_same [OF this, of m dst] show ?thesis
    by (simp add: memmove_store [OF assms] store_apply)
qed

theorem memmove_copies_witness:
  "bytes (memmove (\<lambda>a. if a = 3 then 7 else 9) 4 3 2) 4 2 = [7, 9]"
proof -
  have "unat (3::u64) + unat (2::u32) \<le> 2 ^ 64" "unat (4::u64) + unat (2::u32) \<le> 2 ^ 64" by simp_all
  from memmove_copies [OF this, of "\<lambda>a. if a = 3 then 7 else 9"] show ?thesis
    by (simp add: bytes_def upt_rec)
qed

end
