(* ===== verification/Xv6_Machine.thy ===== *)
theory Xv6_Machine
  imports Xv6_String
begin

text \<open>
  The machine a kernel function runs on: the control and status registers of each hart with the
  accessors of \<^verbatim>\<open>kernel/riscv.h\<close>, the per-CPU structures of \<^verbatim>\<open>kernel/proc.h\<close>, and the spin locks of
  \<^verbatim>\<open>kernel/spinlock.c\<close>.  A lock variable of the sources is named by a value of \<open>lock\<close>, a sleep
  channel (an address that is only compared) by a value of \<open>chan\<close>.  The field \<open>cur\<close> is the hart
  on which the code runs.

  The state of every component above extends this record, so its operations are written over
  any extension of it.  \<^verbatim>\<open>acquire\<close> and \<^verbatim>\<open>release\<close> are composed from the accesses that are atomic
  on the hardware; the theory \<open>Xv6_Spinlock\<close> interleaves these accesses over several harts.
\<close>

section \<open>Names of locks and channels\<close>

datatype sleeplk = Sl_buf nat | Sl_inode nat

datatype lock =
    L_kmem | L_pid | L_wait | L_proc nat | L_bcache | L_log | L_itable | L_ftable
  | L_cons | L_uart_tx | L_pr | L_ticks | L_vdisk | L_pipe u64 | L_sleep sleeplk

datatype chan =
    Ch_proc nat | Ch_log | Ch_ticks | Ch_nread u64 | Ch_nwrite u64 | Ch_cons_r | Ch_uart_tx_r
  | Ch_sleeplock sleeplk | Ch_disk_free | Ch_buf nat

type_synonym ('s, 'a) kprog = "'s \<Rightarrow> (chan, 's, 'a) outcome"

section \<open>State\<close>

record hart =
  h_mhartid :: u64
  h_mstatus :: u64
  h_mepc :: u64
  h_sstatus :: u64
  h_sip :: u64
  h_sie :: u64
  h_mie :: u64
  h_sepc :: u64
  h_medeleg :: u64
  h_mideleg :: u64
  h_stvec :: u64
  h_mtvec :: u64
  h_pmpcfg0 :: u64
  h_pmpaddr0 :: u64
  h_satp :: u64
  h_mscratch :: u64
  h_scause :: u64
  h_stval :: u64
  h_tp :: u64

record spinlock =
  lk_locked :: u32
  lk_name :: string
  lk_cpu :: "nat option"

record cpu =
  c_proc :: "nat option"
  c_noff :: int
  c_intena :: bool

record kbase =
  harts :: "nat \<Rightarrow> hart"
  cur :: nat
  cpus :: "nat \<Rightarrow> cpu"
  locks :: "lock \<Rightarrow> spinlock"

section \<open>Control and status registers\<close>

definition SSTATUS_SPP :: u64 where "SSTATUS_SPP = push_bit 8 1"
definition SSTATUS_SPIE :: u64 where "SSTATUS_SPIE = push_bit 5 1"
definition SSTATUS_SIE :: u64 where "SSTATUS_SIE = push_bit 1 1"
definition MSTATUS_MPP_MASK :: u64 where "MSTATUS_MPP_MASK = push_bit 11 3"
definition MSTATUS_MPP_S :: u64 where "MSTATUS_MPP_S = push_bit 11 1"
definition MSTATUS_MIE :: u64 where "MSTATUS_MIE = push_bit 3 1"
definition SIE_SEIE :: u64 where "SIE_SEIE = push_bit 9 1"
definition SIE_STIE :: u64 where "SIE_STIE = push_bit 5 1"
definition SIE_SSIE :: u64 where "SIE_SSIE = push_bit 1 1"
definition MIE_MTIE :: u64 where "MIE_MTIE = push_bit 7 1"

text \<open>Each accessor reads or writes a register of the hart that executes it.\<close>

definition upd_hart :: "(hart \<Rightarrow> hart) \<Rightarrow> 'r kbase_scheme \<Rightarrow> 'r kbase_scheme" where
  "upd_hart f s = s\<lparr>harts := (harts s)(cur s := f (harts s (cur s)))\<rparr>"

definition r_mhartid :: "'r kbase_scheme \<Rightarrow> u64" where "r_mhartid s = h_mhartid (harts s (cur s))"
definition r_mstatus :: "'r kbase_scheme \<Rightarrow> u64" where "r_mstatus s = h_mstatus (harts s (cur s))"
definition r_sstatus :: "'r kbase_scheme \<Rightarrow> u64" where "r_sstatus s = h_sstatus (harts s (cur s))"
definition r_sip :: "'r kbase_scheme \<Rightarrow> u64" where "r_sip s = h_sip (harts s (cur s))"
definition r_sie :: "'r kbase_scheme \<Rightarrow> u64" where "r_sie s = h_sie (harts s (cur s))"
definition r_mie :: "'r kbase_scheme \<Rightarrow> u64" where "r_mie s = h_mie (harts s (cur s))"
definition r_sepc :: "'r kbase_scheme \<Rightarrow> u64" where "r_sepc s = h_sepc (harts s (cur s))"
definition r_satp :: "'r kbase_scheme \<Rightarrow> u64" where "r_satp s = h_satp (harts s (cur s))"
definition r_scause :: "'r kbase_scheme \<Rightarrow> u64" where "r_scause s = h_scause (harts s (cur s))"
definition r_stval :: "'r kbase_scheme \<Rightarrow> u64" where "r_stval s = h_stval (harts s (cur s))"
definition r_tp :: "'r kbase_scheme \<Rightarrow> u64" where "r_tp s = h_tp (harts s (cur s))"

definition w_mstatus :: "u64 \<Rightarrow> ('r kbase_scheme, unit) kprog" where
  "w_mstatus x = modify (upd_hart (h_mstatus_update (\<lambda>_. x)))"
definition w_mepc :: "u64 \<Rightarrow> ('r kbase_scheme, unit) kprog" where
  "w_mepc x = modify (upd_hart (h_mepc_update (\<lambda>_. x)))"
definition w_sstatus :: "u64 \<Rightarrow> ('r kbase_scheme, unit) kprog" where
  "w_sstatus x = modify (upd_hart (h_sstatus_update (\<lambda>_. x)))"
definition w_sip :: "u64 \<Rightarrow> ('r kbase_scheme, unit) kprog" where
  "w_sip x = modify (upd_hart (h_sip_update (\<lambda>_. x)))"
definition w_sie :: "u64 \<Rightarrow> ('r kbase_scheme, unit) kprog" where
  "w_sie x = modify (upd_hart (h_sie_update (\<lambda>_. x)))"
definition w_mie :: "u64 \<Rightarrow> ('r kbase_scheme, unit) kprog" where
  "w_mie x = modify (upd_hart (h_mie_update (\<lambda>_. x)))"
definition w_sepc :: "u64 \<Rightarrow> ('r kbase_scheme, unit) kprog" where
  "w_sepc x = modify (upd_hart (h_sepc_update (\<lambda>_. x)))"
definition w_medeleg :: "u64 \<Rightarrow> ('r kbase_scheme, unit) kprog" where
  "w_medeleg x = modify (upd_hart (h_medeleg_update (\<lambda>_. x)))"
definition w_mideleg :: "u64 \<Rightarrow> ('r kbase_scheme, unit) kprog" where
  "w_mideleg x = modify (upd_hart (h_mideleg_update (\<lambda>_. x)))"
definition w_stvec :: "u64 \<Rightarrow> ('r kbase_scheme, unit) kprog" where
  "w_stvec x = modify (upd_hart (h_stvec_update (\<lambda>_. x)))"
definition w_mtvec :: "u64 \<Rightarrow> ('r kbase_scheme, unit) kprog" where
  "w_mtvec x = modify (upd_hart (h_mtvec_update (\<lambda>_. x)))"
definition w_pmpcfg0 :: "u64 \<Rightarrow> ('r kbase_scheme, unit) kprog" where
  "w_pmpcfg0 x = modify (upd_hart (h_pmpcfg0_update (\<lambda>_. x)))"
definition w_pmpaddr0 :: "u64 \<Rightarrow> ('r kbase_scheme, unit) kprog" where
  "w_pmpaddr0 x = modify (upd_hart (h_pmpaddr0_update (\<lambda>_. x)))"
definition w_satp :: "u64 \<Rightarrow> ('r kbase_scheme, unit) kprog" where
  "w_satp x = modify (upd_hart (h_satp_update (\<lambda>_. x)))"
definition w_mscratch :: "u64 \<Rightarrow> ('r kbase_scheme, unit) kprog" where
  "w_mscratch x = modify (upd_hart (h_mscratch_update (\<lambda>_. x)))"
definition w_tp :: "u64 \<Rightarrow> ('r kbase_scheme, unit) kprog" where
  "w_tp x = modify (upd_hart (h_tp_update (\<lambda>_. x)))"

definition intr_on :: "('r kbase_scheme, unit) kprog" where
  "intr_on = bind (gets r_sstatus) (\<lambda>x. w_sstatus (x OR SSTATUS_SIE))"

definition intr_off :: "('r kbase_scheme, unit) kprog" where
  "intr_off = bind (gets r_sstatus) (\<lambda>x. w_sstatus (x AND NOT SSTATUS_SIE))"

definition intr_get :: "'r kbase_scheme \<Rightarrow> bool" where
  "intr_get s \<longleftrightarrow> r_sstatus s AND SSTATUS_SIE \<noteq> 0"

section \<open>The current CPU\<close>

definition cpuid :: "'r kbase_scheme \<Rightarrow> nat" where
  "cpuid s = unat (r_tp s)"

definition mycpu :: "'r kbase_scheme \<Rightarrow> cpu" where
  "mycpu s = cpus s (cpuid s)"

definition upd_mycpu :: "(cpu \<Rightarrow> cpu) \<Rightarrow> 'r kbase_scheme \<Rightarrow> 'r kbase_scheme" where
  "upd_mycpu f s = s\<lparr>cpus := (cpus s)(cpuid s := f (cpus s (cpuid s)))\<rparr>"

section \<open>Spin locks (spinlock.c)\<close>

definition upd_lock :: "lock \<Rightarrow> (spinlock \<Rightarrow> spinlock) \<Rightarrow> 'r kbase_scheme \<Rightarrow> 'r kbase_scheme" where
  "upd_lock l f s = s\<lparr>locks := (locks s)(l := f (locks s l))\<rparr>"

definition initlock :: "lock \<Rightarrow> string \<Rightarrow> ('r kbase_scheme, unit) kprog" where
  "initlock l nm = modify (upd_lock l (\<lambda>_. \<lparr>lk_locked = 0, lk_name = nm, lk_cpu = None\<rparr>))"

definition holding :: "lock \<Rightarrow> 'r kbase_scheme \<Rightarrow> bool" where
  "holding l s \<longleftrightarrow> lk_locked (locks s l) \<noteq> 0 \<and> lk_cpu (locks s l) = Some (cpuid s)"

definition push_off :: "('r kbase_scheme, unit) kprog" where
  "push_off =
     bind (gets intr_get) (\<lambda>old. block [
       intr_off,
       whenS (\<lambda>s. c_noff (mycpu s) = 0) (modify (upd_mycpu (c_intena_update (\<lambda>_. old)))),
       modify (upd_mycpu (c_noff_update (\<lambda>n. n + 1)))])"

definition pop_off :: "('r kbase_scheme, unit) kprog" where
  "pop_off = block [
     panic_if intr_get ''pop_off - interruptible'',
     panic_if (\<lambda>s. c_noff (mycpu s) < 1) ''pop_off'',
     modify (upd_mycpu (c_noff_update (\<lambda>n. n - 1))),
     whenS (\<lambda>s. c_noff (mycpu s) = 0 \<and> c_intena (mycpu s)) intr_on]"

text \<open>The atomic swap \<^verbatim>\<open>__sync_lock_test_and_set(&lk->locked, 1)\<close>: it stores 1 and has the old
  value.\<close>

definition test_and_set :: "lock \<Rightarrow> ('r kbase_scheme, u32) kprog" where
  "test_and_set l = bind (gets (\<lambda>s. lk_locked (locks s l))) (\<lambda>old.
     seqK [modify (upd_lock l (lk_locked_update (\<lambda>_. 1)))] (ret old))"

text \<open>\<^verbatim>\<open>acquire\<close> up to its loop, and after it.  In a run of one hart alone nobody else can release
  a lock that is held, so the loop either ends at once or spins for ever.\<close>

definition acquire_begin :: "lock \<Rightarrow> ('r kbase_scheme, unit) kprog" where
  "acquire_begin l = block [push_off, panic_if (holding l) ''acquire'']"

definition acquire_end :: "lock \<Rightarrow> ('r kbase_scheme, unit) kprog" where
  "acquire_end l = (\<lambda>s. modify (upd_lock l (lk_cpu_update (\<lambda>_. Some (cpuid s)))) s)"

definition acquire :: "lock \<Rightarrow> ('r kbase_scheme, unit) kprog" where
  "acquire l = block [
     acquire_begin l,
     bind (test_and_set l) (\<lambda>old. if old \<noteq> 0 then (\<lambda>s. Hang) else skip),
     acquire_end l]"

definition release_begin :: "lock \<Rightarrow> ('r kbase_scheme, unit) kprog" where
  "release_begin l = block [
     panic_if (\<lambda>s. \<not> holding l s) ''release'',
     modify (upd_lock l (lk_cpu_update (\<lambda>_. None)))]"

definition release_end :: "lock \<Rightarrow> ('r kbase_scheme, unit) kprog" where
  "release_end l = block [modify (upd_lock l (lk_locked_update (\<lambda>_. 0))), pop_off]"

definition release :: "lock \<Rightarrow> ('r kbase_scheme, unit) kprog" where
  "release l = block [release_begin l, release_end l]"

section \<open>Interrupt nesting\<close>

lemmas upd_defs = upd_hart_def upd_mycpu_def upd_lock_def

text \<open>The effect of each operation as a function on the state.\<close>

definition sie_off :: "'r kbase_scheme \<Rightarrow> 'r kbase_scheme" where
  "sie_off = upd_hart (\<lambda>h. h\<lparr>h_sstatus := unset_bit 1 (h_sstatus h)\<rparr>)"

definition sie_on :: "'r kbase_scheme \<Rightarrow> 'r kbase_scheme" where
  "sie_on = upd_hart (\<lambda>h. h\<lparr>h_sstatus := Bit_Operations.set_bit 1 (h_sstatus h)\<rparr>)"

lemma SIE_bit:
  "x OR SSTATUS_SIE = Bit_Operations.set_bit 1 x"
  "x AND NOT SSTATUS_SIE = unset_bit 1 x"
  "x AND SSTATUS_SIE \<noteq> 0 \<longleftrightarrow> bit x 1"
  by (simp_all only: SSTATUS_SIE_def set_bit_eq_or unset_bit_eq_and_not push_bit_of_1
      and_exp_eq_0_iff_not_bit not_not)

lemma intr_get_bit: "intr_get s \<longleftrightarrow> bit (h_sstatus (harts s (cur s))) 1"
  by (simp only: intr_get_def SIE_bit r_sstatus_def)

lemma run_intr_off [run_simps]: "intr_off s = Ok () (sie_off s)"
  by (simp only: intr_off_def run_simps w_sstatus_def sie_off_def upd_hart_def r_sstatus_def SIE_bit obind.simps)

lemma run_intr_on [run_simps]: "intr_on s = Ok () (sie_on s)"
  by (simp only: intr_on_def run_simps w_sstatus_def sie_on_def upd_hart_def r_sstatus_def SIE_bit obind.simps)

lemma cpuid_upd [simp]:
  "cpuid (sie_off s) = cpuid s" "cpuid (sie_on s) = cpuid s"
  "cpuid (upd_mycpu g s) = cpuid s" "cpuid (upd_lock l k s) = cpuid s"
  by (simp_all add: cpuid_def r_tp_def upd_defs sie_off_def sie_on_def)

lemma intr_get_upd [simp]:
  "\<not> intr_get (sie_off s)" "intr_get (sie_on s)"
  "intr_get (upd_mycpu g s) = intr_get s" "intr_get (upd_lock l k s) = intr_get s"
  by (simp_all add: intr_get_bit upd_defs sie_off_def sie_on_def bit_simps)

lemma mycpu_upd [simp]:
  "mycpu (sie_off s) = mycpu s" "mycpu (sie_on s) = mycpu s"
  "mycpu (upd_mycpu g s) = g (mycpu s)" "mycpu (upd_lock l k s) = mycpu s"
  by (simp_all add: mycpu_def) (simp_all add: upd_defs sie_off_def sie_on_def)

lemma locks_upd [simp]:
  "locks (sie_off s) = locks s" "locks (sie_on s) = locks s" "locks (upd_mycpu g s) = locks s"
  "locks (upd_lock l k s) = (locks s)(l := k (locks s l))"
  by (simp_all add: upd_defs sie_off_def sie_on_def)

lemma sie_on_off: "intr_get s \<Longrightarrow> sie_on (sie_off s) = s"
proof -
  assume "intr_get s"
  then have "Bit_Operations.set_bit 1 (unset_bit 1 (h_sstatus (harts s (cur s)))) = h_sstatus (harts s (cur s))"
    by (intro bit_eqI) (auto simp: intr_get_bit bit_simps)
  then show ?thesis by (simp add: sie_on_def sie_off_def upd_hart_def)
qed

lemma sie_off_idem: "\<not> intr_get s \<Longrightarrow> sie_off s = s"
proof -
  assume "\<not> intr_get s"
  then have "unset_bit 1 (h_sstatus (harts s (cur s))) = h_sstatus (harts s (cur s))"
    by (intro bit_eqI) (auto simp: intr_get_bit bit_simps)
  then show ?thesis by (simp add: sie_off_def upd_hart_def)
qed

definition pushed :: "'r kbase_scheme \<Rightarrow> 'r kbase_scheme" where
  "pushed s = upd_mycpu (\<lambda>c. c\<lparr>c_noff := c_noff c + 1,
     c_intena := (if c_noff c = 0 then intr_get s else c_intena c)\<rparr>) (sie_off s)"

definition popped :: "'r kbase_scheme \<Rightarrow> 'r kbase_scheme" where
  "popped s = (if c_noff (mycpu s) = 1 \<and> c_intena (mycpu s) then sie_on else id)
     (upd_mycpu (\<lambda>c. c\<lparr>c_noff := c_noff c - 1\<rparr>) s)"

lemma upd_mycpu_twice [simp]: "upd_mycpu f (upd_mycpu g s) = upd_mycpu (\<lambda>c. f (g c)) s"
  by (simp add: upd_mycpu_def cpuid_def r_tp_def)

lemma upd_mycpu_eqI: "f (mycpu s) = g (mycpu s) \<Longrightarrow> upd_mycpu f s = upd_mycpu g s"
  by (simp add: upd_mycpu_def mycpu_def)

lemma upd_mycpu_id: "f (mycpu s) = mycpu s \<Longrightarrow> upd_mycpu f s = s"
  by (simp add: upd_mycpu_def mycpu_def)

lemma push_off_run [run_simps]: "push_off s = Ok () (pushed s)"
  by (cases "mycpu s") (auto simp: push_off_def run_simps pushed_def intro!: upd_mycpu_eqI)

lemma pop_off_run [run_simps]:
  "pop_off s =
    (if intr_get s then Panic ''pop_off - interruptible''
     else if c_noff (mycpu s) < 1 then Panic ''pop_off'' else Ok () (popped s))"
  by (cases "mycpu s")
    (auto simp: pop_off_def run_simps popped_def intro!: upd_mycpu_eqI arg_cong [where f = sie_on])

text \<open>Nested critical sections are entered with interrupts off.\<close>

definition intr_sane :: "'r kbase_scheme \<Rightarrow> bool" where
  "intr_sane s \<longleftrightarrow> 0 \<le> c_noff (mycpu s) \<and> (0 < c_noff (mycpu s) \<longrightarrow> \<not> intr_get s)"

lemma pushed_simps [simp]:
  "cpuid (pushed s) = cpuid s" "\<not> intr_get (pushed s)" "c_noff (mycpu (pushed s)) = c_noff (mycpu s) + 1"
  "c_intena (mycpu (pushed s)) = (if c_noff (mycpu s) = 0 then intr_get s else c_intena (mycpu s))"
  "c_proc (mycpu (pushed s)) = c_proc (mycpu s)" "locks (pushed s) = locks s"
  by (simp_all add: pushed_def)

lemma popped_simps [simp]:
  "cpuid (popped s) = cpuid s" "c_noff (mycpu (popped s)) = c_noff (mycpu s) - 1"
  "c_intena (mycpu (popped s)) = c_intena (mycpu s)"
  "c_proc (mycpu (popped s)) = c_proc (mycpu s)" "locks (popped s) = locks s"
  by (simp_all add: popped_def)

lemma intr_sane_pushed [simp]: "intr_sane s \<Longrightarrow> intr_sane (pushed s)"
  by (simp add: intr_sane_def)

lemma sie_upd_mycpu: "sie_on (upd_mycpu f s) = upd_mycpu f (sie_on s)" "sie_off (upd_mycpu f s) = upd_mycpu f (sie_off s)"
  by (simp_all add: upd_defs sie_on_def sie_off_def cpuid_def r_tp_def)

text \<open>A matched pair changes nothing but the saved flag \<^verbatim>\<open>intena\<close>, which it sets at the outermost
  level only.\<close>

lemma popped_pushed:
  "intr_sane s \<Longrightarrow>
    popped (pushed s) = upd_mycpu (\<lambda>c. c\<lparr>c_intena := (if c_noff c = 0 then intr_get s else c_intena c)\<rparr>) s"
  by (cases "intr_get s")
    (auto simp: popped_def pushed_def intr_sane_def sie_upd_mycpu sie_on_off sie_off_idem intro!: upd_mycpu_eqI)

text \<open>What is left of a matched pair: the flag that the outermost \<^verbatim>\<open>push_off\<close> has saved.\<close>

definition cycled :: "'r kbase_scheme \<Rightarrow> 'r kbase_scheme" where
  "cycled s = upd_mycpu (\<lambda>c. c\<lparr>c_intena := (if c_noff c = 0 then intr_get s else c_intena c)\<rparr>) s"

lemma popped_pushed_cycled: "intr_sane s \<Longrightarrow> popped (pushed s) = cycled s"
  by (simp add: popped_pushed cycled_def)

lemma cycled_simps [simp]:
  "cpuid (cycled s) = cpuid s" "intr_get (cycled s) = intr_get s" "locks (cycled s) = locks s"
  "c_noff (mycpu (cycled s)) = c_noff (mycpu s)" "c_proc (mycpu (cycled s)) = c_proc (mycpu s)"
  "intr_sane (cycled s) = intr_sane s" "cycled (cycled s) = cycled s" "harts (cycled s) = harts s" "cur (cycled s) = cur s"
  by (auto simp: cycled_def intr_sane_def intro!: upd_mycpu_eqI) (simp_all add: upd_mycpu_def)

section \<open>Acquiring and releasing\<close>

definition unlocked :: "lock \<Rightarrow> 'r kbase_scheme \<Rightarrow> bool" where
  "unlocked l s \<longleftrightarrow> lk_locked (locks s l) = 0 \<and> lk_cpu (locks s l) = None"

definition acquired :: "lock \<Rightarrow> 'r kbase_scheme \<Rightarrow> 'r kbase_scheme" where
  "acquired l s = upd_lock l (\<lambda>k. k\<lparr>lk_locked := 1, lk_cpu := Some (cpuid s)\<rparr>) (pushed s)"

definition released :: "lock \<Rightarrow> 'r kbase_scheme \<Rightarrow> 'r kbase_scheme" where
  "released l s = popped (upd_lock l (\<lambda>k. k\<lparr>lk_locked := 0, lk_cpu := None\<rparr>) s)"

lemma upd_lock_twice [simp]: "upd_lock l f (upd_lock l g s) = upd_lock l (\<lambda>k. f (g k)) s"
  by (simp add: upd_lock_def)

lemma upd_lock_id: "f (locks s l) = locks s l \<Longrightarrow> upd_lock l f s = s"
  by (simp add: upd_lock_def)

lemma upd_lock_eqI: "f (locks s l) = g (locks s l) \<Longrightarrow> upd_lock l f s = upd_lock l g s"
  by (simp add: upd_lock_def)

lemma upd_lock_popped: "upd_lock l f (popped s) = popped (upd_lock l f s)"
  by (simp add: popped_def upd_defs sie_on_def cpuid_def r_tp_def mycpu_def)

lemma acquire_run [run_simps]:
  "acquire l s = (if holding l s then Panic ''acquire''
     else if lk_locked (locks s l) \<noteq> 0 then Hang else Ok () (acquired l s))"
proof -
  have "holding l (pushed s) = holding l s" by (simp add: holding_def)
  then show ?thesis
    by (auto simp: acquire_def acquire_begin_def acquire_end_def test_and_set_def run_simps acquired_def
        intro!: upd_lock_eqI)
qed

lemma release_run [run_simps]:
  "release l s = (if \<not> holding l s then Panic ''release''
     else if intr_get s then Panic ''pop_off - interruptible''
     else if c_noff (mycpu s) < 1 then Panic ''pop_off'' else Ok () (released l s))"
  by (auto simp: release_def release_begin_def release_end_def run_simps released_def
      intro!: upd_lock_eqI arg_cong [where f = popped])

lemma unlocked_not_holding [simp]: "unlocked l s \<Longrightarrow> \<not> holding l s"
  by (simp add: unlocked_def holding_def)

lemma wp_acquire [wp_simps]: "wp (acquire l) Q s \<longleftrightarrow> lk_locked (locks s l) = 0 \<and> Q () (acquired l s)"
  by (auto simp: wp_def acquire_run holding_def)

lemma wlp_acquire [wp_simps]: "wlp (acquire l) Q s \<longleftrightarrow> (lk_locked (locks s l) = 0 \<longrightarrow> Q () (acquired l s))"
  by (auto simp: wlp_def acquire_run holding_def)

lemma wp_release [wp_simps]:
  "wp (release l) Q s \<longleftrightarrow>
    holding l s \<and> \<not> intr_get s \<and> 1 \<le> c_noff (mycpu s) \<and> Q () (released l s)"
  by (auto simp: wp_def release_run)

lemma wlp_release [wp_simps]:
  "wlp (release l) Q s \<longleftrightarrow>
    (holding l s \<and> \<not> intr_get s \<and> 1 \<le> c_noff (mycpu s) \<longrightarrow> Q () (released l s))"
  by (auto simp: wlp_def release_run)

lemma acquired_simps [simp]:
  "cpuid (acquired l s) = cpuid s" "\<not> intr_get (acquired l s)" "holding l (acquired l s)"
  "c_noff (mycpu (acquired l s)) = c_noff (mycpu s) + 1" "c_proc (mycpu (acquired l s)) = c_proc (mycpu s)"
  "k \<noteq> l \<Longrightarrow> locks (acquired l s) k = locks s k"
  "k \<noteq> l \<Longrightarrow> unlocked k (acquired l s) = unlocked k s"
  "k \<noteq> l \<Longrightarrow> holding k (acquired l s) = holding k s"
  "intr_sane s \<Longrightarrow> intr_sane (acquired l s)"
  by (auto simp: acquired_def holding_def unlocked_def intr_sane_def)

lemma released_simps [simp]:
  "cpuid (released l s) = cpuid s" "unlocked l (released l s)"
  "c_noff (mycpu (released l s)) = c_noff (mycpu s) - 1" "c_proc (mycpu (released l s)) = c_proc (mycpu s)"
  "k \<noteq> l \<Longrightarrow> locks (released l s) k = locks s k"
  "k \<noteq> l \<Longrightarrow> unlocked k (released l s) = unlocked k s"
  "k \<noteq> l \<Longrightarrow> holding k (released l s) = holding k s"
  by (auto simp: released_def holding_def unlocked_def)

lemma unlocked_cycled [simp]: "unlocked l (cycled s) = unlocked l s" "holding l (cycled s) = holding l s"
  by (simp_all add: unlocked_def holding_def)

lemma released_acquired [simp]:
  assumes "unlocked l s" "intr_sane s"
  shows "released l (acquired l s) = cycled s"
proof -
  have "upd_lock l (\<lambda>k. k\<lparr>lk_locked := 0, lk_cpu := None\<rparr>) (acquired l s) = pushed s"
    using assms(1) by (auto simp: acquired_def unlocked_def intro!: upd_lock_id)
  then show ?thesis using assms(2) by (simp add: released_def popped_pushed_cycled)
qed

lemma cycled_nested: "c_noff (mycpu s) \<noteq> 0 \<Longrightarrow> cycled s = s"
  by (simp add: cycled_def upd_mycpu_id)

lemma cycled_acquired [simp]: "intr_sane s \<Longrightarrow> cycled (acquired l s) = acquired l s"
  by (simp add: cycled_nested intr_sane_def)

lemmas base_effects = acquired_def released_def pushed_def popped_def cycled_def upd_defs sie_on_def sie_off_def
  cpuid_def r_tp_def mycpu_def intr_get_bit

text \<open>A machine as it is after boot: interrupts on, no lock held.\<close>

definition boot_base :: kbase where
  "boot_base = \<lparr>
     harts = \<lambda>h. \<lparr>h_mhartid = of_nat h, h_mstatus = 0, h_mepc = 0, h_sstatus = 2, h_sip = 0, h_sie = 0, h_mie = 0,
       h_sepc = 0, h_medeleg = 0, h_mideleg = 0, h_stvec = 0, h_mtvec = 0, h_pmpcfg0 = 0, h_pmpaddr0 = 0,
       h_satp = 0, h_mscratch = 0, h_scause = 0, h_stval = 0, h_tp = of_nat h\<rparr>,
     cur = 0,
     cpus = \<lambda>_. \<lparr>c_proc = None, c_noff = 0, c_intena = False\<rparr>,
     locks = \<lambda>_. \<lparr>lk_locked = 0, lk_name = [], lk_cpu = None\<rparr>\<rparr>"

lemma boot_base_ok [simp]: "intr_sane boot_base" "intr_get boot_base" "unlocked l boot_base"
  by (simp_all add: boot_base_def intr_sane_def mycpu_def intr_get_bit unlocked_def bit_numeral_rec)

section \<open>The property\<close>

lemma seqK_append: "seqK (xs @ ys) f = seqK xs (seqK ys f)"
  by (induction xs) simp_all

definition raised :: "int \<Rightarrow> 'r kbase_scheme \<Rightarrow> 'r kbase_scheme" where
  "raised d s = upd_mycpu (\<lambda>c. c\<lparr>c_noff := c_noff c + d\<rparr>) s"

lemma raised_simps [simp]:
  "intr_get (raised d s) = intr_get s" "c_noff (mycpu (raised d s)) = c_noff (mycpu s) + d"
  "raised d (raised e s) = raised (d + e) s" "raised 0 s = s"
  by (auto simp: raised_def add.commute add.left_commute intro!: upd_mycpu_eqI upd_mycpu_id)

lemma pushed_inner: "\<not> intr_get s \<Longrightarrow> c_noff (mycpu s) \<noteq> 0 \<Longrightarrow> pushed s = raised 1 s"
  by (auto simp: pushed_def raised_def sie_off_idem intro!: upd_mycpu_eqI)

lemma popped_inner: "c_noff (mycpu s) \<noteq> 1 \<Longrightarrow> popped s = raised (- 1) s"
  by (auto simp: popped_def raised_def intro!: upd_mycpu_eqI)

lemma push_offs_run:
  "\<not> intr_get s \<Longrightarrow> 0 < c_noff (mycpu s) \<Longrightarrow> seqK (replicate n push_off) f s = f (raised (int n) s)"
  by (induction n arbitrary: s) (simp_all add: run_simps pushed_inner add.commute)

lemma pop_offs_run:
  "\<not> intr_get s \<Longrightarrow> int n < c_noff (mycpu s) \<Longrightarrow> seqK (replicate n pop_off) f s = f (raised (- int n) s)"
  by (induction n arbitrary: s) (simp_all add: run_simps popped_inner algebra_simps)



end
