(* ===== verification/Xv6_Spinlock.thy ===== *)
theory Xv6_Spinlock
  imports Xv6_Machine
begin

text \<open>
  The spin locks of \<^verbatim>\<open>kernel/spinlock.c\<close> under interleaving.  Every hart runs \<^verbatim>\<open>acquire\<close> and
  \<^verbatim>\<open>release\<close> on the lock variables; a step of the system is one of the pieces of \<open>acquire\<close> and
  \<open>release\<close> of the theory \<open>Xv6_Machine\<close>, and any hart may take the next step.  The position of each
  hart in the code is \<open>lpc\<close>, per lock.  The invariant of the reachable states gives mutual
  exclusion, that no panic of \<^verbatim>\<open>spinlock.c\<close> is reached by matched calls, that interrupts are off
  on a hart that holds or waits for a lock, and a simulation by an abstract mutex.
\<close>

section \<open>The system\<close>

datatype lpc = Out | Spin | Won | In_cs | Rel

record lsys =
  lbase :: kbase
  lpcs :: "nat \<Rightarrow> lock \<Rightarrow> lpc"

definition on_hart :: "nat \<Rightarrow> kbase \<Rightarrow> kbase" where
  "on_hart h b = b\<lparr>cur := h\<rparr>"

definition goto :: "nat \<Rightarrow> lock \<Rightarrow> lpc \<Rightarrow> kbase \<Rightarrow> lsys \<Rightarrow> lsys" where
  "goto h l p b g = g\<lparr>lbase := b, lpcs := (lpcs g)(h := (lpcs g h)(l := p))\<rparr>"

inductive lstep :: "lsys \<Rightarrow> lsys \<Rightarrow> bool" where
  begin_acquire: "h < NCPU \<Longrightarrow> lpcs g h l = Out \<Longrightarrow> acquire_begin l (on_hart h (lbase g)) = Ok () b
    \<Longrightarrow> lstep g (goto h l Spin b g)"
| swap: "h < NCPU \<Longrightarrow> lpcs g h l = Spin \<Longrightarrow> test_and_set l (on_hart h (lbase g)) = Ok old b
    \<Longrightarrow> lstep g (goto h l (if old \<noteq> 0 then Spin else Won) b g)"
| end_acquire: "h < NCPU \<Longrightarrow> lpcs g h l = Won \<Longrightarrow> acquire_end l (on_hart h (lbase g)) = Ok () b
    \<Longrightarrow> lstep g (goto h l In_cs b g)"
| begin_release: "h < NCPU \<Longrightarrow> lpcs g h l = In_cs \<Longrightarrow> release_begin l (on_hart h (lbase g)) = Ok () b
    \<Longrightarrow> lstep g (goto h l Rel b g)"
| end_release: "h < NCPU \<Longrightarrow> lpcs g h l = Rel \<Longrightarrow> release_end l (on_hart h (lbase g)) = Ok () b
    \<Longrightarrow> lstep g (goto h l Out b g)"

text \<open>After boot every hart has its number in \<^verbatim>\<open>tp\<close> (\<^verbatim>\<open>start.c\<close>), no lock is held and no
  \<^verbatim>\<open>push_off\<close> is pending.\<close>

definition linit :: "lsys \<Rightarrow> bool" where
  "linit g \<longleftrightarrow> (\<forall>h l. lpcs g h l = Out) \<and> (\<forall>l. unlocked l (lbase g))
     \<and> (\<forall>h<NCPU. h_tp (harts (lbase g) h) = of_nat h \<and> c_noff (cpus (lbase g) h) = 0)"

section \<open>The invariant\<close>

definition owning :: "lpc \<Rightarrow> bool" where
  "owning p \<longleftrightarrow> p = Won \<or> p = In_cs \<or> p = Rel"

definition lock_inv :: "spinlock \<Rightarrow> (nat \<Rightarrow> lpc) \<Rightarrow> bool" where
  "lock_inv k f \<longleftrightarrow> (lk_locked k = 0 \<longleftrightarrow> (\<forall>h. \<not> owning (f h)))
     \<and> (\<forall>h i. owning (f h) \<longrightarrow> owning (f i) \<longrightarrow> h = i)
     \<and> (\<forall>h. lk_cpu k = Some h \<longleftrightarrow> f h = In_cs)"

definition hart_inv :: "nat \<Rightarrow> hart \<Rightarrow> cpu \<Rightarrow> (lock \<Rightarrow> lpc) \<Rightarrow> bool" where
  "hart_inv h r c f \<longleftrightarrow> h_tp r = of_nat h \<and> finite {l. f l \<noteq> Out} \<and> c_noff c = int (card {l. f l \<noteq> Out})
     \<and> (0 < c_noff c \<longrightarrow> \<not> bit (h_sstatus r) 1)"

definition linv :: "lsys \<Rightarrow> bool" where
  "linv g \<longleftrightarrow> (\<forall>l. lock_inv (locks (lbase g) l) (\<lambda>h. lpcs g h l))
     \<and> (\<forall>h<NCPU. hart_inv h (harts (lbase g) h) (cpus (lbase g) h) (lpcs g h))"

lemma linv_init: "linit g \<Longrightarrow> linv g"
  by (auto simp: linit_def linv_def lock_inv_def hart_inv_def owning_def unlocked_def)

lemma cpuid_on_hart: "linv g \<Longrightarrow> h < NCPU \<Longrightarrow> cpuid (on_hart h (lbase g)) = h"
  by (auto simp: linv_def hart_inv_def on_hart_def cpuid_def r_tp_def unat_of_nat_64)

text \<open>A step at hart \<open>h\<close> and lock \<open>l\<close> touches only that lock, that hart and its CPU structure.\<close>

lemma linv_goto:
  assumes g: "linv g" and h: "h < NCPU"
    and other: "\<And>k. k \<noteq> l \<Longrightarrow> locks b k = locks (lbase g) k"
      "\<And>i. i \<noteq> h \<Longrightarrow> harts b i = harts (lbase g) i" "\<And>i. i \<noteq> h \<Longrightarrow> cpus b i = cpus (lbase g) i"
    and lk: "lock_inv (locks b l) ((\<lambda>i. lpcs g i l)(h := p))"
    and ht: "hart_inv h (harts b h) (cpus b h) ((lpcs g h)(l := p))"
  shows "linv (goto h l p b g)"
proof -
  have "lock_inv (locks b k) (\<lambda>i. ((lpcs g)(h := (lpcs g h)(l := p))) i k)" for k
  proof (cases "k = l")
    case True
    have "(\<lambda>i. ((lpcs g)(h := (lpcs g h)(l := p))) i l) = (\<lambda>i. lpcs g i l)(h := p)" by auto
    with lk True show ?thesis by simp
  next
    case False
    then have "(\<lambda>i. ((lpcs g)(h := (lpcs g h)(l := p))) i k) = (\<lambda>i. lpcs g i k)" by auto
    with g False other(1) show ?thesis by (simp add: linv_def)
  qed
  moreover have "hart_inv i (harts b i) (cpus b i) (((lpcs g)(h := (lpcs g h)(l := p))) i)" if "i < NCPU" for i
    using g ht other(2,3) that by (cases "i = h") (auto simp: linv_def)
  ultimately show ?thesis by (simp add: linv_def goto_def)
qed

subsection \<open>The pieces of acquire and release\<close>

lemma acquire_begin_run:
  "acquire_begin l s = (if holding l s then Panic ''acquire'' else Ok () (pushed s))"
  by (simp add: acquire_begin_def run_simps holding_def)

lemma test_and_set_run: "test_and_set l s = Ok (lk_locked (locks s l)) (upd_lock l (lk_locked_update (\<lambda>_. 1)) s)"
  by (simp add: test_and_set_def run_simps)

lemma acquire_end_run: "acquire_end l s = Ok () (upd_lock l (lk_cpu_update (\<lambda>_. Some (cpuid s))) s)"
  by (simp add: acquire_end_def run_simps)

lemma release_begin_run:
  "release_begin l s = (if \<not> holding l s then Panic ''release''
     else Ok () (upd_lock l (lk_cpu_update (\<lambda>_. None)) s))"
  by (simp add: release_begin_def run_simps)

lemma release_end_run:
  "release_end l s = (if intr_get s then Panic ''pop_off - interruptible''
     else if c_noff (mycpu s) < 1 then Panic ''pop_off''
     else Ok () (popped (upd_lock l (lk_locked_update (\<lambda>_. 0)) s)))"
  by (simp add: release_end_def run_simps)

lemmas piece_runs = acquire_begin_run test_and_set_run acquire_end_run release_begin_run release_end_run

lemma pushed_fields:
  "harts (pushed s) = (harts s)(cur s := (harts s (cur s))\<lparr>h_sstatus := unset_bit 1 (h_sstatus (harts s (cur s)))\<rparr>)"
  "c_noff (cpus (pushed s) i) = c_noff (cpus s i) + (if i = cpuid s then 1 else 0)"
  "i \<noteq> cpuid s \<Longrightarrow> cpus (pushed s) i = cpus s i"
  by (simp_all add: pushed_def upd_defs sie_off_def cpuid_def r_tp_def)

lemma popped_fields:
  "i \<noteq> cur s \<Longrightarrow> harts (popped s) i = harts s i"
  "h_tp (harts (popped s) i) = h_tp (harts s i)"
  "1 < c_noff (mycpu s) \<Longrightarrow> harts (popped s) = harts s"
  "c_noff (cpus (popped s) i) = c_noff (cpus s i) - (if i = cpuid s then 1 else 0)"
  "i \<noteq> cpuid s \<Longrightarrow> cpus (popped s) i = cpus s i"
  by (simp_all add: popped_def upd_defs sie_on_def cpuid_def r_tp_def)

lemma on_hart_fields [simp]:
  "harts (on_hart h b) = harts b" "cpus (on_hart h b) = cpus b" "locks (on_hart h b) = locks b"
  "cur (on_hart h b) = h"
  by (simp_all add: on_hart_def)

lemma upd_lock_fields [simp]:
  "harts (upd_lock l f s) = harts s" "cpus (upd_lock l f s) = cpus s" "cur (upd_lock l f s) = cur s"
  by (simp_all add: upd_lock_def)

subsection \<open>Preservation\<close>

lemma pcs_enter: "f l = Out \<Longrightarrow> p \<noteq> Out \<Longrightarrow> {k. (f(l := p)) k \<noteq> Out} = insert l {k. f k \<noteq> Out}"
  by auto

lemma pcs_stay: "f l \<noteq> Out \<Longrightarrow> p \<noteq> Out \<Longrightarrow> {k. (f(l := p)) k \<noteq> Out} = {k. f k \<noteq> Out}"
  by auto

lemma pcs_leave: "{k. (f(l := Out)) k \<noteq> Out} = {k. f k \<noteq> Out} - {l}"
  by auto

lemma hart_inv_stay:
  assumes "hart_inv h r c f" "f l \<noteq> Out" "p \<noteq> Out"
  shows "hart_inv h r c (f(l := p))"
  using assms(1) unfolding hart_inv_def pcs_stay [of f l p, OF assms(2,3)] .

lemma linvD:
  assumes "linv g" "h < NCPU"
  shows "lock_inv (locks (lbase g) l) (\<lambda>h. lpcs g h l)"
    and "hart_inv h (harts (lbase g) h) (cpus (lbase g) h) (lpcs g h)"
  using assms by (simp_all add: linv_def)

lemma owning_simps [simp]: "\<not> owning Out" "\<not> owning Spin" "owning Won" "owning In_cs" "owning Rel"
  by (simp_all add: owning_def)

text \<open>The lock at each piece: \<open>f\<close> gives the position of every hart at this lock.\<close>

lemma lock_inv_idle:
  assumes "lock_inv k f" "\<not> owning (f h)" "\<not> owning p"
  shows "lock_inv k (f(h := p))"
proof -
  have "owning ((f(h := p)) i) = owning (f i)" "((f(h := p)) i = In_cs) = (f i = In_cs)" for i
    using assms(2,3) by (auto simp: owning_def)
  then show ?thesis using assms(1) unfolding lock_inv_def by presburger
qed

lemma lock_inv_fail:
  "lock_inv k f \<Longrightarrow> lk_locked k \<noteq> 0 \<Longrightarrow> lock_inv (k\<lparr>lk_locked := 1\<rparr>) f"
  by (simp add: lock_inv_def)

lemma lock_inv_win:
  assumes "lock_inv k f" "lk_locked k = 0" "f h = Spin"
  shows "lock_inv (k\<lparr>lk_locked := 1\<rparr>) (f(h := Won))"
proof -
  have none: "\<not> owning (f i)" for i using assms by (simp add: lock_inv_def)
  then have "f i \<noteq> In_cs" for i by (metis owning_simps(4))
  with none assms(1) show ?thesis by (auto simp: lock_inv_def)
qed

lemma lock_inv_move:
  assumes "lock_inv k f" "owning (f h)" "owning p" "p = In_cs \<longleftrightarrow> c = Some h" "p \<noteq> In_cs \<Longrightarrow> c = None"
  shows "lock_inv (k\<lparr>lk_cpu := c\<rparr>) (f(h := p))"
proof -
  have own: "owning ((f(h := p)) i) = owning (f i)" for i using assms(2,3) by simp
  have "f i \<noteq> In_cs" if "i \<noteq> h" for i
    using assms(1,2) that unfolding lock_inv_def by (metis owning_simps(4))
  then have "(c = Some i) = ((f(h := p)) i = In_cs)" for i using assms(4,5) by auto
  with own assms(1) show ?thesis by (simp add: lock_inv_def)
qed

lemma lock_inv_free:
  assumes "lock_inv k f" "f h = Rel"
  shows "lock_inv (k\<lparr>lk_locked := 0\<rparr>) (f(h := Out))"
proof -
  have none: "\<not> owning (f i)" if "i \<noteq> h" for i
    using assms that unfolding lock_inv_def by (metis owning_simps(5))
  then have "f i \<noteq> In_cs" for i using assms(2) by (metis lpc.distinct(19) owning_simps(4))
  with none assms show ?thesis by (auto simp: lock_inv_def)
qed

lemma hart_inv_enter:
  assumes "hart_inv h r c f" "f l = Out"
    and "h_tp r' = h_tp r" "c_noff c' = c_noff c + 1" "\<not> bit (h_sstatus r') 1"
  shows "hart_inv h r' c' (f(l := Spin))"
  using assms unfolding hart_inv_def pcs_enter [of f l Spin, OF assms(2) lpc.distinct(2)] by simp

lemma linv_begin_acquire:
  assumes g: "linv g" "h < NCPU" and pc: "lpcs g h l = Out"
    and run: "acquire_begin l (on_hart h (lbase g)) = Ok () b"
  shows "linv (goto h l Spin b g)"
proof (rule linv_goto [OF g])
  have b: "b = pushed (on_hart h (lbase g))"
    using run by (simp add: acquire_begin_run split: if_splits)
  note [simp] = pushed_fields cpuid_on_hart [OF g] b
  show "lock_inv (locks b l) ((\<lambda>i. lpcs g i l)(h := Spin))"
    by (simp add: lock_inv_idle linvD(1) [OF g] pc)
  show "hart_inv h (harts b h) (cpus b h) ((lpcs g h)(l := Spin))"
    by (rule hart_inv_enter [OF linvD(2) [OF g] pc]) (simp_all add: bit_simps)
qed (use run in \<open>auto simp: acquire_begin_run pushed_fields cpuid_on_hart [OF g] split: if_splits\<close>)

lemma linv_swap:
  assumes g: "linv g" "h < NCPU" and pc: "lpcs g h l = Spin"
    and run: "test_and_set l (on_hart h (lbase g)) = Ok old b"
  shows "linv (goto h l (if old \<noteq> 0 then Spin else Won) b g)"
proof (rule linv_goto [OF g])
  have b: "b = upd_lock l (lk_locked_update (\<lambda>_. 1)) (on_hart h (lbase g))" "old = lk_locked (locks (lbase g) l)"
    using run by (simp_all add: test_and_set_run)
  show "lock_inv (locks b l) ((\<lambda>i. lpcs g i l)(h := if old \<noteq> 0 then Spin else Won))"
    using lock_inv_fail [OF lock_inv_idle [OF linvD(1) [OF g]]] lock_inv_win [OF linvD(1) [OF g]] pc
    by (simp add: b)
  show "hart_inv h (harts b h) (cpus b h) ((lpcs g h)(l := if old \<noteq> 0 then Spin else Won))"
    using linvD(2) [OF g] pc by (simp add: b hart_inv_stay)
qed (use run in \<open>auto simp: test_and_set_run\<close>)

lemma linv_end_acquire:
  assumes g: "linv g" "h < NCPU" and pc: "lpcs g h l = Won"
    and run: "acquire_end l (on_hart h (lbase g)) = Ok () b"
  shows "linv (goto h l In_cs b g)"
proof (rule linv_goto [OF g])
  have b: "b = upd_lock l (lk_cpu_update (\<lambda>_. Some h)) (on_hart h (lbase g))"
    using run by (simp add: acquire_end_run cpuid_on_hart [OF g])
  show "lock_inv (locks b l) ((\<lambda>i. lpcs g i l)(h := In_cs))"
    using linvD(1) [OF g, of l] pc by (auto simp: b intro!: lock_inv_move)
  show "hart_inv h (harts b h) (cpus b h) ((lpcs g h)(l := In_cs))"
    using linvD(2) [OF g] pc by (simp add: b hart_inv_stay)
qed (use run in \<open>auto simp: acquire_end_run\<close>)

lemma linv_begin_release:
  assumes g: "linv g" "h < NCPU" and pc: "lpcs g h l = In_cs"
    and run: "release_begin l (on_hart h (lbase g)) = Ok () b"
  shows "linv (goto h l Rel b g)"
proof (rule linv_goto [OF g])
  have b: "b = upd_lock l (lk_cpu_update (\<lambda>_. None)) (on_hart h (lbase g))"
    using run by (simp add: release_begin_run split: if_splits)
  show "lock_inv (locks b l) ((\<lambda>i. lpcs g i l)(h := Rel))"
    using linvD(1) [OF g, of l] pc by (auto simp: b intro!: lock_inv_move)
  show "hart_inv h (harts b h) (cpus b h) ((lpcs g h)(l := Rel))"
    using linvD(2) [OF g] pc by (simp add: b hart_inv_stay)
qed (use run in \<open>auto simp: release_begin_run split: if_splits\<close>)

lemma hart_inv_leave:
  assumes "hart_inv h r c f" "f l \<noteq> Out"
    and "h_tp r' = h_tp r" "c_noff c' = c_noff c - 1" "1 < c_noff c \<Longrightarrow> r' = r"
  shows "hart_inv h r' c' (f(l := Out))"
proof -
  have fin: "finite {k. f k \<noteq> Out}" and n: "c_noff c = int (card {k. f k \<noteq> Out})" and mem: "l \<in> {k. f k \<noteq> Out}"
    using assms(1,2) by (simp_all add: hart_inv_def)
  have "int (card ({k. f k \<noteq> Out} - {l})) = int (card {k. f k \<noteq> Out}) - 1"
    using card_Suc_Diff1 [OF fin mem] by linarith
  then show ?thesis using assms fin n unfolding hart_inv_def pcs_leave by auto
qed

lemma linv_end_release:
  assumes g: "linv g" "h < NCPU" and pc: "lpcs g h l = Rel"
    and run: "release_end l (on_hart h (lbase g)) = Ok () b"
  shows "linv (goto h l Out b g)"
proof (rule linv_goto [OF g])
  let ?s = "upd_lock l (lk_locked_update (\<lambda>_. 0)) (on_hart h (lbase g))"
  have b: "b = popped ?s"
    using run by (simp add: release_end_run split: if_splits)
  show "lock_inv (locks b l) ((\<lambda>i. lpcs g i l)(h := Out))"
    using linvD(1) [OF g, of l] pc by (simp add: b lock_inv_free)
  show "hart_inv h (harts b h) (cpus b h) ((lpcs g h)(l := Out))"
  proof (rule hart_inv_leave [OF linvD(2) [OF g]])
    show "1 < c_noff (cpus (lbase g) h) \<Longrightarrow> harts b h = harts (lbase g) h"
      by (simp add: b popped_fields mycpu_def cpuid_on_hart [OF g])
  qed (simp_all add: b pc popped_fields cpuid_on_hart [OF g])
qed (use run in \<open>auto simp: release_end_run popped_fields cpuid_on_hart [OF g] split: if_splits\<close>)

lemma linv_step: "lstep g g' \<Longrightarrow> linv g \<Longrightarrow> linv g'"
  by (cases rule: lstep.cases)
    (auto intro: linv_begin_acquire linv_swap linv_end_acquire linv_begin_release linv_end_release
      simp del: NCPU_def)

section \<open>Whole calls\<close>

lemma goto_goto [simp]: "goto h l p b (goto h l q c g) = goto h l p b g"
  by (simp add: goto_def)

lemma goto_sel [simp]: "lbase (goto h l p b g) = b" "lpcs (goto h l p b g) h l = p"
  "(i, k) \<noteq> (h, l) \<Longrightarrow> lpcs (goto h l p b g) i k = lpcs g i k"
  by (auto simp: goto_def)

lemma on_hart_id: "cur b = h \<Longrightarrow> on_hart h b = b"
  by (auto simp: on_hart_def)

lemma cur_simps [simp]: "cur (pushed s) = cur s" "cur (popped s) = cur s"
  by (simp_all add: pushed_def popped_def upd_defs sie_off_def sie_on_def)

text \<open>An undisturbed call of \<^verbatim>\<open>acquire\<close> or \<^verbatim>\<open>release\<close> is a sequence of steps of its hart.\<close>

lemma acquire_steps:
  assumes "h < NCPU" "lpcs g h l = Out" "acquire l (on_hart h (lbase g)) = Ok () b"
  shows "lstep\<^sup>*\<^sup>* g (goto h l In_cs b g)"
proof -
  let ?b0 = "on_hart h (lbase g)"
  let ?b1 = "pushed ?b0" let ?b2 = "upd_lock l (lk_locked_update (\<lambda>_. 1)) ?b1"
  from assms(3) have nh: "\<not> holding l ?b0" and fr: "lk_locked (locks ?b0 l) = 0" and b: "b = acquired l ?b0"
    by (auto simp: acquire_run split: if_splits)
  have b': "b = upd_lock l (lk_cpu_update (\<lambda>_. Some (cpuid ?b0))) ?b2"
    by (auto simp: b acquired_def intro!: upd_lock_eqI)
  have [simp]: "on_hart h ?b1 = ?b1" "on_hart h ?b2 = ?b2" by (simp_all add: on_hart_id)
  have "lstep g (goto h l Spin ?b1 g)"
    using assms(1,2) nh by (intro lstep.begin_acquire) (simp_all add: acquire_begin_run)
  moreover have "lstep (goto h l Spin ?b1 g) (goto h l Won ?b2 g)"
    using lstep.swap [of h "goto h l Spin ?b1 g" l 0 ?b2] assms(1) fr by (simp add: test_and_set_run)
  moreover have "lstep (goto h l Won ?b2 g) (goto h l In_cs b g)"
    using lstep.end_acquire [of h "goto h l Won ?b2 g" l b] assms(1)
    by (simp add: acquire_end_run b')
  ultimately show ?thesis by (blast intro: converse_rtranclp_into_rtranclp)
qed

lemma release_steps:
  assumes "h < NCPU" "lpcs g h l = In_cs" "release l (on_hart h (lbase g)) = Ok () b"
  shows "lstep\<^sup>*\<^sup>* g (goto h l Out b g)"
proof -
  let ?b0 = "on_hart h (lbase g)" let ?b1 = "upd_lock l (lk_cpu_update (\<lambda>_. None)) ?b0"
  from assms(3) have ok: "holding l ?b0" "\<not> intr_get ?b0" "\<not> c_noff (mycpu ?b0) < 1" and b: "b = released l ?b0"
    by (auto simp: release_run split: if_splits)
  have b': "b = popped (upd_lock l (lk_locked_update (\<lambda>_. 0)) ?b1)"
    by (auto simp: b released_def intro!: arg_cong [where f = popped] upd_lock_eqI)
  have [simp]: "on_hart h ?b1 = ?b1" by (simp add: on_hart_id)
  have "lstep g (goto h l Rel ?b1 g)"
    using assms(1,2) ok by (intro lstep.begin_release) (simp_all add: release_begin_run)
  moreover have "lstep (goto h l Rel ?b1 g) (goto h l Out b g)"
    using lstep.end_release [of h "goto h l Rel ?b1 g" l b] assms(1) ok
    by (simp add: release_end_run b')
  ultimately show ?thesis by (blast intro: converse_rtranclp_into_rtranclp)
qed

section \<open>The abstract mutex\<close>

type_synonym owners = "lock \<Rightarrow> nat option"

inductive mutex_step :: "owners \<Rightarrow> owners \<Rightarrow> bool" where
  take: "ow l = None \<Longrightarrow> mutex_step ow (ow(l := Some h))"
| give: "ow l = Some h \<Longrightarrow> mutex_step ow (ow(l := None))"

definition owners_of :: "lsys \<Rightarrow> owners \<Rightarrow> bool" where
  "owners_of g ow \<longleftrightarrow> (\<forall>l h. ow l = Some h \<longleftrightarrow> owning (lpcs g h l))"

lemma owners_of_same:
  "owners_of g ow \<Longrightarrow> owning p = owning (lpcs g h l) \<Longrightarrow> owners_of (goto h l p b g) ow"
  by (auto simp: owners_of_def goto_def)

lemma owners_of_take:
  assumes g: "linv g" "h < NCPU" and ow: "owners_of g ow" and free: "lk_locked (locks (lbase g) l) = 0" and p: "owning p"
  shows "owners_of (goto h l p b g) (ow(l := Some h)) \<and> ow l = None"
proof -
  have none: "\<not> owning (lpcs g i l)" for i using linvD(1) [OF g, of l] free by (simp add: lock_inv_def)
  then have "ow l = None" using ow by (metis option.exhaust owners_of_def)
  with none ow p show ?thesis by (auto simp: owners_of_def goto_def)
qed

lemma owners_of_give:
  assumes g: "linv g" "h < NCPU" and ow: "owners_of g ow" and p: "owning (lpcs g h l)"
  shows "owners_of (goto h l Out b g) (ow(l := None)) \<and> ow l = Some h"
proof -
  have "\<not> owning (lpcs g i l)" if "i \<noteq> h" for i
    using linvD(1) [OF g, of l] p that unfolding lock_inv_def by blast
  with ow p show ?thesis by (auto simp: owners_of_def goto_def)
qed

lemma owners_of_step:
  assumes "linv g" "lstep g g'" "owners_of g ow"
  shows "\<exists>ow'. owners_of g' ow' \<and> (ow' = ow \<or> mutex_step ow ow')"
  using assms(2)
proof (cases rule: lstep.cases)
  case (begin_acquire h l b)
  with assms(3) show ?thesis by (auto intro!: exI [of _ ow] owners_of_same)
next
  case (swap h l old b)
  show ?thesis
  proof (cases "old = 0")
    case True
    with swap have "lk_locked (locks (lbase g) l) = 0" by (simp add: test_and_set_run)
    with owners_of_take [OF assms(1) swap(2) assms(3) this, of Won b] swap True show ?thesis
      by (auto intro: mutex_step.take)
  next
    case False
    with swap assms(3) show ?thesis by (auto intro!: exI [of _ ow] owners_of_same)
  qed
next
  case (end_acquire h l b)
  with assms(3) show ?thesis by (auto intro!: exI [of _ ow] owners_of_same)
next
  case (begin_release h l b)
  with assms(3) show ?thesis by (auto intro!: exI [of _ ow] owners_of_same)
next
  case (end_release h l b)
  with owners_of_give [OF assms(1) end_release(2) assms(3), of l b] show ?thesis by (auto intro: mutex_step.give)
qed

interpretation spin: refinement linit lstep linv "\<lambda>ow. \<forall>l. ow l = None" mutex_step owners_of
proof unfold_locales
  show "linit g \<Longrightarrow> linv g" for g by (rule linv_init)
  show "linv g \<Longrightarrow> lstep g g' \<Longrightarrow> linv g'" for g g' by (rule linv_step)
  show "linit g \<Longrightarrow> \<exists>ow. (\<forall>l. ow l = None) \<and> owners_of g ow" for g
    by (auto simp: linit_def owners_of_def intro!: exI [of _ "\<lambda>_. None"])
  show "linv g \<Longrightarrow> lstep g g' \<Longrightarrow> owners_of g ow \<Longrightarrow> \<exists>ow'. owners_of g' ow' \<and> (ow' = ow \<or> mutex_step ow ow')" for g g' ow
    by (rule owners_of_step)
qed

section \<open>Progress\<close>

lemma reach_inv: "reachable linit lstep g \<Longrightarrow> linv g"
  by (rule spin.inv_reachable)

lemma hart_intr:
  assumes "linv g" "h < NCPU" "lpcs g h l \<noteq> Out"
  shows "\<not> intr_get (on_hart h (lbase g)) \<and> 1 \<le> c_noff (mycpu (on_hart h (lbase g)))"
proof -
  have "finite {k. lpcs g h k \<noteq> Out}" and n: "c_noff (cpus (lbase g) h) = int (card {k. lpcs g h k \<noteq> Out})"
    and off: "0 < c_noff (cpus (lbase g) h) \<Longrightarrow> \<not> bit (h_sstatus (harts (lbase g) h)) 1"
    using linvD(2) [OF assms(1,2)] by (simp_all add: hart_inv_def)
  with assms(3) have "card {k. lpcs g h k \<noteq> Out} \<noteq> 0" by auto
  with n off show ?thesis by (simp add: intr_get_bit mycpu_def cpuid_on_hart [OF assms(1,2)])
qed

lemma holding_iff:
  assumes "linv g" "h < NCPU"
  shows "holding l (on_hart h (lbase g)) \<longleftrightarrow> lpcs g h l = In_cs"
  using linvD(1) [OF assms, of l] unfolding holding_def cpuid_on_hart [OF assms] lock_inv_def on_hart_fields
  by (metis owning_simps(4))

text \<open>A hart alone in a fresh system: the state after boot, and a state in which hart 0 is in the
  critical section of \<open>kmem.lock\<close> and hart 1 is spinning on it.\<close>

definition boot_sys :: lsys where
  "boot_sys = \<lparr>lbase = boot_base, lpcs = \<lambda>_ _. Out\<rparr>"

definition contended_sys :: lsys where
  "contended_sys =
    (let g = goto 0 L_kmem In_cs (acquired L_kmem (on_hart 0 (lbase boot_sys))) boot_sys
     in goto 1 L_kmem Spin (pushed (on_hart 1 (lbase g))) g)"

lemma boot_init: "linit boot_sys"
  by (simp add: linit_def boot_sys_def boot_base_def unlocked_def)

lemma boot_reach: "reachable linit lstep boot_sys"
  by (rule reachable.start) (rule boot_init)

lemma contended_reach: "reachable linit lstep contended_sys"
proof -
  let ?b = "acquired L_kmem (on_hart 0 (lbase boot_sys))"
  let ?g = "goto 0 L_kmem In_cs ?b boot_sys"
  have "acquire L_kmem (on_hart 0 (lbase boot_sys)) = Ok () ?b"
    by (simp add: acquire_run holding_def boot_sys_def boot_base_def)
  then have g: "reachable linit lstep ?g"
    by (intro reachable_steps [OF acquire_steps boot_reach]) (simp_all add: boot_sys_def)
  have "\<not> holding L_kmem (on_hart 1 ?b)"
    using holding_iff [OF reach_inv [OF g], of 1 L_kmem] by (simp add: goto_def boot_sys_def)
  then have "lstep ?g contended_sys"
    unfolding contended_sys_def Let_def
    by (intro lstep.begin_acquire) (simp_all add: acquire_begin_run, simp add: goto_def boot_sys_def)
  with g show ?thesis by (rule reachable.more)
qed

lemma contended_pcs: "lpcs contended_sys 0 L_kmem = In_cs" "lpcs contended_sys 1 L_kmem = Spin"
  by (simp_all add: contended_sys_def Let_def)

section \<open>The properties\<close>

text \<open>C1.  Mutual exclusion: in every state that interleaved calls of \<^verbatim>\<open>acquire\<close> and \<^verbatim>\<open>release\<close> on all
  harts can reach, at most one hart has won the swap on a lock and not yet released it; in
  particular at most one hart is between the two calls.\<close>

theorem spinlock_mutual_exclusion:
  assumes "reachable linit lstep g" and "owning (lpcs g h l)" and "owning (lpcs g i l)"
  shows "h = i"
  using reach_inv [OF assms(1)] assms(2,3) unfolding linv_def lock_inv_def by blast

theorem spinlock_mutual_exclusion_witness:
  "{h. owning (lpcs contended_sys h L_kmem)} = {0}"
  using spinlock_mutual_exclusion [OF contended_reach, of 0 L_kmem] contended_pcs(1) by auto

text \<open>C9.  Calls that are matched never panic, and a call that is not is caught: in every reachable
  state a hart outside the lock passes the check of \<^verbatim>\<open>acquire\<close>, a hart inside passes the check of
  \<^verbatim>\<open>release\<close> and panics when it acquires the lock again, a hart outside panics when it releases, and
  the \<^verbatim>\<open>pop_off\<close> of \<^verbatim>\<open>release\<close> finds interrupts off and a pending \<^verbatim>\<open>push_off\<close>.\<close>

theorem spinlock_panics:
  assumes "reachable linit lstep g" and "h < NCPU"
  shows "(lpcs g h l = Out \<longrightarrow> (\<exists>b. acquire_begin l (on_hart h (lbase g)) = Ok () b)
           \<and> release l (on_hart h (lbase g)) = Panic ''release'')
    \<and> (lpcs g h l = In_cs \<longrightarrow> (\<exists>b. release l (on_hart h (lbase g)) = Ok () b)
           \<and> acquire l (on_hart h (lbase g)) = Panic ''acquire'')
    \<and> (lpcs g h l = Rel \<longrightarrow> (\<exists>b. release_end l (on_hart h (lbase g)) = Ok () b))"
  using hart_intr [OF reach_inv [OF assms(1)] assms(2), of l]
    holding_iff [OF reach_inv [OF assms(1)] assms(2), of l]
  by (auto simp: acquire_begin_run release_run acquire_run release_end_run)

theorem spinlock_panics_witness:
  "acquire L_kmem (on_hart 0 (lbase contended_sys)) = Panic ''acquire''
    \<and> release L_pid (on_hart 1 (lbase contended_sys)) = Panic ''release''"
  using spinlock_panics [OF contended_reach, of 0 L_kmem] spinlock_panics [OF contended_reach, of 1 L_pid]
    contended_pcs(1) by (simp add: contended_sys_def Let_def boot_sys_def)

text \<open>C10.  Interrupts are off on a hart from the start of \<^verbatim>\<open>acquire\<close> to the end of \<^verbatim>\<open>release\<close>, so an
  interrupt handler cannot spin on a lock its own hart holds.\<close>

theorem spinlock_interrupts_off:
  assumes "reachable linit lstep g" and "h < NCPU" and "lpcs g h l \<noteq> Out"
  shows "\<not> intr_get (on_hart h (lbase g))"
  using hart_intr [OF reach_inv [OF assms(1)] assms(2,3)] by simp

theorem spinlock_interrupts_off_witness:
  "\<not> intr_get (on_hart 1 (lbase contended_sys)) \<and> intr_get (on_hart 1 (lbase boot_sys))"
  using spinlock_interrupts_off [OF contended_reach, of 1 L_kmem] contended_pcs(2)
  by (simp add: intr_get_bit boot_sys_def boot_base_def bit_numeral_rec)



end
