(* ===== verification/Xv6_Kalloc.thy ===== *)
theory Xv6_Kalloc
  imports Xv6_Machine
begin

text \<open>
  The physical page allocator of \<^verbatim>\<open>kernel/kalloc.c\<close>.  Physical memory is the field \<open>mem\<close>; the free
  list is threaded through the free pages themselves, the word at the start of each holding the
  address of the next.  \<open>kend\<close> is the address \<^verbatim>\<open>end\<close> that the linker gives to the first byte after
  the kernel.  The lemmas give closed forms of \<^verbatim>\<open>kalloc\<close> and \<^verbatim>\<open>kfree\<close> and show that they are a
  stack of pages that are page aligned, in range and distinct; the locale \<open>page_allocator\<close> states
  the contract the page tables and the process table rely on.
\<close>

section \<open>State and operations\<close>

record kmemst = kbase +
  mem :: memory
  freelist :: u64
  kend :: u64

definition kfree :: "u64 \<Rightarrow> ('r kmemst_scheme, unit) kprog" where
  "kfree pa = block [
     panic_if (\<lambda>s. pa mod PGSIZE \<noteq> 0 \<or> pa < kend s \<or> pa \<ge> PHYSTOP) ''kfree'',
     modify (\<lambda>s. s\<lparr>mem := memset (mem s) pa 1 PGSIZE\<rparr>),
     acquire L_kmem,
     modify (\<lambda>s. s\<lparr>mem := st64 (mem s) pa (freelist s)\<rparr>),
     modify (\<lambda>s. s\<lparr>freelist := pa\<rparr>),
     release L_kmem]"

definition kalloc :: "('r kmemst_scheme, u64) kprog" where
  "kalloc = seqK [acquire L_kmem] (bind (gets freelist) (\<lambda>r. seqK [
     whenK (r \<noteq> 0) (modify (\<lambda>s. s\<lparr>freelist := ld64 (mem s) r\<rparr>)),
     release L_kmem,
     whenK (r \<noteq> 0) (modify (\<lambda>s. s\<lparr>mem := memset (mem s) r 5 PGSIZE\<rparr>))] (ret r)))"

text \<open>The loop of \<^verbatim>\<open>freerange\<close> ends: \<^verbatim>\<open>kfree\<close> returns only for an address below \<^verbatim>\<open>PHYSTOP\<close>, where adding
  a page does not wrap.\<close>

lemma kfree_Ok_range: "kfree pa s = Ok u t \<Longrightarrow> pa < PHYSTOP"
  by (auto simp: kfree_def run_simps split: if_splits)

function freerange_loop :: "u64 \<Rightarrow> u64 \<Rightarrow> ('r kmemst_scheme, unit) kprog" where
  "freerange_loop p pa_end s =
     (if p + PGSIZE \<le> pa_end then obind (kfree p s) (\<lambda>_. freerange_loop (p + PGSIZE) pa_end) else Ok () s)"
  by pat_completeness auto
termination
proof (relation "measure (\<lambda>(p, e, s). 2 ^ 64 - unat p)", simp, goal_cases)
  case (1 p e s u t)
  then have "unat p < 0x88000000" using kfree_Ok_range [of p s] by (simp add: layout_defs word_less_nat_alt)
  then show ?case by (simp add: unat_word_ariths)
qed

declare freerange_loop.simps [simp del]

definition freerange :: "u64 \<Rightarrow> u64 \<Rightarrow> ('r kmemst_scheme, unit) kprog" where
  "freerange pa_start pa_end = freerange_loop (PGROUNDUP pa_start) pa_end"

definition kinit :: "('r kmemst_scheme, unit) kprog" where
  "kinit = block [initlock L_kmem ''kmem'', (\<lambda>s. freerange (kend s) PHYSTOP s)]"

section \<open>Frame\<close>

lemma kmem_sel_frame [simp]:
  "mem (acquired l s) = mem s" "mem (released l s) = mem s" "mem (cycled s) = mem s"
  "freelist (acquired l s) = freelist s" "freelist (released l s) = freelist s" "freelist (cycled s) = freelist s"
  "kend (acquired l s) = kend s" "kend (released l s) = kend s" "kend (cycled s) = kend s"
  by (simp_all add: base_effects)

lemma kmem_upd_frame [simp]:
  "acquired l (mem_update g0 s) = mem_update g0 (acquired l s)" "released l (mem_update g0 s) = mem_update g0 (released l s)"
  "cycled (mem_update g0 s) = mem_update g0 (cycled s)"
  "acquired l (freelist_update g1 s) = freelist_update g1 (acquired l s)" "released l (freelist_update g1 s) = freelist_update g1 (released l s)"
  "cycled (freelist_update g1 s) = freelist_update g1 (cycled s)"
  "acquired l (kend_update g2 s) = kend_update g2 (acquired l s)" "released l (kend_update g2 s) = kend_update g2 (released l s)"
  "cycled (kend_update g2 s) = kend_update g2 (cycled s)"
  by (simp_all add: base_effects)

lemma kmem_base_frame [simp]:
  "cpuid (mem_update g0 s) = cpuid s" "mycpu (mem_update g0 s) = mycpu s" "intr_get (mem_update g0 s) = intr_get s"
  "holding l (mem_update g0 s) = holding l s" "unlocked l (mem_update g0 s) = unlocked l s" "intr_sane (mem_update g0 s) = intr_sane s"
  "cpuid (freelist_update g1 s) = cpuid s" "mycpu (freelist_update g1 s) = mycpu s" "intr_get (freelist_update g1 s) = intr_get s"
  "holding l (freelist_update g1 s) = holding l s" "unlocked l (freelist_update g1 s) = unlocked l s" "intr_sane (freelist_update g1 s) = intr_sane s"
  "cpuid (kend_update g2 s) = cpuid s" "mycpu (kend_update g2 s) = mycpu s" "intr_get (kend_update g2 s) = intr_get s"
  "holding l (kend_update g2 s) = holding l s" "unlocked l (kend_update g2 s) = unlocked l s" "intr_sane (kend_update g2 s) = intr_sane s"
  by (simp_all add: cpuid_def r_tp_def mycpu_def intr_get_bit holding_def unlocked_def intr_sane_def)

section \<open>Closed forms\<close>

lemma kfree_run:
  assumes "unlocked L_kmem s" "intr_sane s"
  shows "kfree pa s = (if pa mod PGSIZE \<noteq> 0 \<or> pa < kend s \<or> pa \<ge> PHYSTOP then Panic ''kfree''
     else Ok () ((cycled s)\<lparr>mem := st64 (memset (mem s) pa 1 PGSIZE) pa (freelist s), freelist := pa\<rparr>))"
  using assms by (auto simp: kfree_def run_simps intr_sane_def unlocked_def)

lemma kalloc_run:
  assumes "unlocked L_kmem s" "intr_sane s"
  shows "kalloc s = Ok (freelist s) (if freelist s = 0 then cycled s
     else (cycled s)\<lparr>mem := memset (mem s) (freelist s) 5 PGSIZE, freelist := ld64 (mem s) (freelist s)\<rparr>)"
  using assms by (auto simp: kalloc_def run_simps intr_sane_def unlocked_def)

section \<open>The free list\<close>

lemma PHYSTOP_num: "PHYSTOP = 0x88000000" "unat PHYSTOP = 0x88000000"
  by (simp_all add: layout_defs)

lemma ld64_cong: "(\<And>i. i < 8 \<Longrightarrow> m (a + of_nat i) = m' (a + of_nat i)) \<Longrightarrow> ld64 m a = ld64 m' a"
  by (auto simp: ld64_def bytes_def intro: arg_cong [where f = unle])

lemma ld64_same_page:
  "pg_aligned q \<Longrightarrow> (\<And>x. page_of x = page_of q \<Longrightarrow> m x = m' x) \<Longrightarrow> ld64 m q = ld64 m' q"
  by (rule ld64_cong) simp

lemma memset_page: "pg_aligned p \<Longrightarrow> memset m p c PGSIZE x = (if page_of x = page_of p then ucast c else m x)"
  by (simp add: memset_apply in_page_iff)

lemma st64_other_page: "pg_aligned p \<Longrightarrow> page_of x \<noteq> page_of p \<Longrightarrow> st64 m p v x = m x"
  using in_page_iff [of p x] by (auto simp: st64_def store_apply)

fun run_list :: "memory \<Rightarrow> u64 \<Rightarrow> u64 list \<Rightarrow> bool" where
  "run_list m a [] \<longleftrightarrow> a = 0"
| "run_list m a (p # ps) \<longleftrightarrow> a = p \<and> p \<noteq> 0 \<and> run_list m (ld64 m p) ps"

lemma run_list_cong: "(\<And>p. p \<in> set ps \<Longrightarrow> ld64 m p = ld64 m' p) \<Longrightarrow> run_list m a ps = run_list m' a ps"
  by (induction ps arbitrary: a) auto

definition page_ok :: "'r kmemst_scheme \<Rightarrow> u64 \<Rightarrow> bool" where
  "page_ok s p \<longleftrightarrow> pg_aligned p \<and> kend s \<le> p \<and> p < PHYSTOP"

text \<open>\<open>kmem_ready s ps\<close>: the free list holds the pages \<open>ps\<close>, first to last, and the lock is free.\<close>

definition kmem_ready :: "'r kmemst_scheme \<Rightarrow> u64 list \<Rightarrow> bool" where
  "kmem_ready s ps \<longleftrightarrow> run_list (mem s) (freelist s) ps \<and> distinct ps \<and> (\<forall>p\<in>set ps. page_ok s p)
     \<and> 0 < kend s \<and> unlocked L_kmem s \<and> intr_sane s"

lemma run_list_other_pages:
  assumes "\<forall>q\<in>set ps. pg_aligned q \<and> q \<noteq> p" "pg_aligned p"
    and "\<And>x. page_of x \<noteq> page_of p \<Longrightarrow> m' x = m x"
  shows "run_list m' a ps = run_list m a ps"
proof (rule run_list_cong, rule ld64_same_page)
  fix q x assume "q \<in> set ps" and x: "page_of x = page_of q"
  then have "page_of x \<noteq> page_of p" using assms(1,2) page_of_eq_iff by metis
  then show "m' x = m x" by (rule assms(3))
qed (use assms(1) in simp)

lemma kfree_ok:
  assumes r: "kmem_ready s ps" and p: "page_ok s p" "p \<notin> set ps"
  defines "t \<equiv> (cycled s)\<lparr>mem := st64 (memset (mem s) p 1 PGSIZE) p (freelist s), freelist := p\<rparr>"
  shows "kfree p s = Ok () t" and "kmem_ready t (p # ps)"
    and "page_of x \<noteq> page_of p \<Longrightarrow> mem t x = mem s x"
proof -
  have al: "pg_aligned p" and "p mod PGSIZE = 0" and nz: "p \<noteq> 0" and rng: "kend s \<le> p" "p < PHYSTOP"
    using p r by (auto simp: page_ok_def pg_aligned_def kmem_ready_def)
  then show "kfree p s = Ok () t"
    using r by (auto simp: kfree_run kmem_ready_def t_def not_le)
  have frame: "page_of x \<noteq> page_of p \<Longrightarrow> st64 (memset (mem s) p 1 PGSIZE) p (freelist s) x = mem s x" for x
    using al by (simp add: st64_other_page memset_page del: PGSIZE_def)
  then show "page_of x \<noteq> page_of p \<Longrightarrow> mem t x = mem s x" by (simp add: t_def)
  have "run_list (mem t) (freelist s) ps = run_list (mem s) (freelist s) ps"
    using r p(2) al frame by (intro run_list_other_pages) (auto simp: kmem_ready_def page_ok_def t_def)
  then show "kmem_ready t (p # ps)"
    using r p nz by (auto simp: kmem_ready_def page_ok_def t_def)
qed

lemma kfree_bad:
  assumes "kmem_ready s ps" "\<not> page_ok s p"
  shows "kfree p s = Panic ''kfree''"
proof -
  have "p mod PGSIZE \<noteq> 0 \<or> p < kend s \<or> p \<ge> PHYSTOP"
    using assms(2) unfolding page_ok_def pg_aligned_def PGSIZE_def by (metis not_le)
  with assms(1) show ?thesis unfolding kmem_ready_def by (metis kfree_run)
qed

lemma kalloc_none: "kmem_ready s [] \<Longrightarrow> kalloc s = Ok 0 (cycled s) \<and> kmem_ready (cycled s) []"
  by (auto simp: kalloc_run kmem_ready_def)

lemma kalloc_page:
  assumes r: "kmem_ready s (p # ps)"
  defines "t \<equiv> (cycled s)\<lparr>mem := memset (mem s) p 5 PGSIZE, freelist := ld64 (mem s) p\<rparr>"
  shows "kalloc s = Ok p t" and "kmem_ready t ps"
    and "mem t x = (if page_of x = page_of p then 5 else mem s x)"
proof -
  have al: "pg_aligned p" and nz: "p \<noteq> 0" and fl: "freelist s = p" using r by (auto simp: kmem_ready_def page_ok_def)
  then show "kalloc s = Ok p t" using r by (simp add: kalloc_run kmem_ready_def t_def)
  show m: "mem t x = (if page_of x = page_of p then 5 else mem s x)" for x
    using al by (simp add: t_def memset_page del: PGSIZE_def)
  have "run_list (mem t) (ld64 (mem s) p) ps = run_list (mem s) (ld64 (mem s) p) ps"
    using r al m by (intro run_list_other_pages) (auto simp: kmem_ready_def page_ok_def)
  then show "kmem_ready t ps" using r fl by (auto simp: kmem_ready_def page_ok_def t_def)
qed

section \<open>The contract\<close>

text \<open>What the users of the allocator rely on: \<open>frees s ps\<close> holds of the list of free pages.  An
  allocation takes the first of them, or returns 0 when there is none; a page that is given back
  becomes the first.  No operation touches memory outside the page it is about.\<close>

locale page_allocator =
  fixes frees :: "'s \<Rightarrow> u64 list \<Rightarrow> bool" and valid :: "'s \<Rightarrow> u64 \<Rightarrow> bool" and memory_of :: "'s \<Rightarrow> memory"
    and alloc :: "('s, u64) kprog" and free :: "u64 \<Rightarrow> ('s, unit) kprog"
  assumes frees_valid: "frees s ps \<Longrightarrow> distinct ps \<and> (\<forall>p\<in>set ps. valid s p \<and> p \<noteq> 0)"
    and alloc_none: "frees s [] \<Longrightarrow> wp alloc (\<lambda>r t. r = 0 \<and> frees t [] \<and> memory_of t = memory_of s \<and> valid t = valid s) s"
    and alloc_page: "frees s (p # ps) \<Longrightarrow>
      wp alloc (\<lambda>r t. r = p \<and> frees t ps \<and> valid t = valid s
        \<and> (\<forall>x. page_of x \<noteq> page_of p \<longrightarrow> memory_of t x = memory_of s x)) s"
    and free_page: "frees s ps \<Longrightarrow> valid s p \<Longrightarrow> p \<notin> set ps \<Longrightarrow>
      wp (free p) (\<lambda>_ t. frees t (p # ps) \<and> valid t = valid s
        \<and> (\<forall>x. page_of x \<noteq> page_of p \<longrightarrow> memory_of t x = memory_of s x)) s"

text \<open>\<open>n\<close> calls in a row.\<close>

fun alloc_n :: "('s, u64) kprog \<Rightarrow> nat \<Rightarrow> ('s, u64 list) kprog" where
  "alloc_n alloc 0 = ret []"
| "alloc_n alloc (Suc n) = bind alloc (\<lambda>p. bind (alloc_n alloc n) (\<lambda>ps. ret (p # ps)))"

context page_allocator
begin

lemma alloc_n_pages:
  "frees s (ps @ qs) \<Longrightarrow>
    wp (alloc_n alloc (length ps)) (\<lambda>r t. r = ps \<and> frees t qs \<and> valid t = valid s
      \<and> (\<forall>x. page_of x \<notin> page_of ` set ps \<longrightarrow> memory_of t x = memory_of s x)) s"
proof (induction ps arbitrary: s)
  case Nil
  then show ?case by (simp add: wp_simps)
next
  case (Cons p ps)
  from Cons.prems have "frees s (p # (ps @ qs))" by simp
  from alloc_page [OF this] show ?case
    by (auto simp: wp_simps intro!: wp_mono [OF Cons.IH] elim!: wp_mono)
qed

lemma free_all:
  "frees s qs \<Longrightarrow> distinct ps \<Longrightarrow> \<forall>p\<in>set ps. valid s p \<and> p \<notin> set qs \<Longrightarrow>
    wp (forK free ps) (\<lambda>_ t. frees t (rev ps @ qs) \<and> valid t = valid s
      \<and> (\<forall>x. page_of x \<notin> page_of ` set ps \<longrightarrow> memory_of t x = memory_of s x)) s"
proof (induction ps arbitrary: s qs)
  case Nil
  then show ?case by (simp add: wp_simps)
next
  case (Cons p ps)
  from Cons.prems have "wp (free p) (\<lambda>_ t. frees t (p # qs) \<and> valid t = valid s
      \<and> (\<forall>x. page_of x \<noteq> page_of p \<longrightarrow> memory_of t x = memory_of s x)) s"
    by (intro free_page) auto
  then show ?case
    unfolding forK.simps wp_bind
  proof (rule wp_mono, elim conjE)
    fix u t assume "frees t (p # qs)" and v: "valid t = valid s"
      and m: "\<forall>x. page_of x \<noteq> page_of p \<longrightarrow> memory_of t x = memory_of s x"
    have "\<forall>q\<in>set ps. valid t q \<and> q \<notin> set (p # qs)" and "distinct ps" using Cons.prems(2,3) v by auto
    from Cons.IH [OF \<open>frees t (p # qs)\<close> this(2,1)] v m
    show "wp (forK free ps) (\<lambda>_ t. frees t (rev (p # ps) @ qs) \<and> valid t = valid s
      \<and> (\<forall>x. page_of x \<notin> page_of ` set (p # ps) \<longrightarrow> memory_of t x = memory_of s x)) t"
      by (auto elim!: wp_mono)
  qed
qed

text \<open>Taking any number of pages and giving them all back loses none.\<close>

lemma alloc_free_all:
  assumes "frees s (ps @ qs)"
  shows "wp (bind (alloc_n alloc (length ps)) (forK free)) (\<lambda>_ t. frees t (rev ps @ qs)
    \<and> (\<forall>x. page_of x \<notin> page_of ` set ps \<longrightarrow> memory_of t x = memory_of s x)) s"
  unfolding wp_bind
proof (rule wp_mono [OF alloc_n_pages [OF assms]], elim conjE)
  fix r t assume r: "r = ps" and t: "frees t qs" "valid t = valid s"
    and m: "\<forall>x. page_of x \<notin> page_of ` set ps \<longrightarrow> memory_of t x = memory_of s x"
  have "distinct ps" "\<forall>p\<in>set ps. valid t p \<and> p \<notin> set qs" using frees_valid [OF assms] t(2) by auto
  from wp_mono [OF free_all [OF t(1) this]] m
  show "wp (forK free r) (\<lambda>_ t. frees t (rev ps @ qs)
    \<and> (\<forall>x. page_of x \<notin> page_of ` set ps \<longrightarrow> memory_of t x = memory_of s x)) t"
    unfolding r by simp
qed

end

lemma page_ok_upd [simp]:
  "page_ok (cycled s) = page_ok s" "page_ok (s\<lparr>mem := m\<rparr>) = page_ok s" "page_ok (s\<lparr>freelist := f\<rparr>) = page_ok s"
  by (auto simp: page_ok_def)

lemma kalloc_page_wp:
  assumes "kmem_ready s (p # ps)"
  shows "wp kalloc (\<lambda>r t. r = p \<and> kmem_ready t ps \<and> page_ok t = page_ok s
    \<and> (\<forall>x. page_of x \<noteq> page_of p \<longrightarrow> mem t x = mem s x)) s"
  unfolding wp_iff by (rule exI, rule exI, rule conjI, rule kalloc_page(1) [OF assms])
    (use kalloc_page(2,3) [OF assms] in \<open>simp del: PGSIZE_def\<close>)

lemma kfree_page_wp:
  assumes "kmem_ready s ps" "page_ok s p" "p \<notin> set ps"
  shows "wp (kfree p) (\<lambda>_ t. kmem_ready t (p # ps) \<and> page_ok t = page_ok s
    \<and> (\<forall>x. page_of x \<noteq> page_of p \<longrightarrow> mem t x = mem s x)) s"
  unfolding wp_iff by (rule exI, rule exI, rule conjI, rule kfree_ok(1) [OF assms])
    (use kfree_ok(2,3) [OF assms] in \<open>simp del: PGSIZE_def\<close>)

interpretation kmem: page_allocator kmem_ready page_ok mem kalloc kfree
proof unfold_locales
  show "kmem_ready s ps \<Longrightarrow> distinct ps \<and> (\<forall>p\<in>set ps. page_ok s p \<and> p \<noteq> 0)" for s :: "'r kmemst_scheme" and ps
    by (auto simp: kmem_ready_def page_ok_def)
  show "kmem_ready s [] \<Longrightarrow> wp kalloc (\<lambda>r t. r = 0 \<and> kmem_ready t [] \<and> mem t = mem s \<and> page_ok t = page_ok s) s" for s :: "'r kmemst_scheme"
    using kalloc_none [of s] by (simp add: wp_iff)
  show "kmem_ready s (p # ps) \<Longrightarrow> wp kalloc (\<lambda>r t. r = p \<and> kmem_ready t ps \<and> page_ok t = page_ok s
      \<and> (\<forall>x. page_of x \<noteq> page_of p \<longrightarrow> mem t x = mem s x)) s" for s :: "'r kmemst_scheme" and p ps
    by (rule kalloc_page_wp)
  show "kmem_ready s ps \<Longrightarrow> page_ok s p \<Longrightarrow> p \<notin> set ps \<Longrightarrow> wp (kfree p) (\<lambda>_ t. kmem_ready t (p # ps)
      \<and> page_ok t = page_ok s \<and> (\<forall>x. page_of x \<noteq> page_of p \<longrightarrow> mem t x = mem s x)) s" for s :: "'r kmemst_scheme" and p ps
    by (rule kfree_page_wp)
qed

section \<open>Initialisation\<close>

definition pages_from :: "u64 \<Rightarrow> nat \<Rightarrow> u64 list" where
  "pages_from p k = map (\<lambda>i. p + of_nat (4096 * i)) [0..<k]"

lemma pages_from_Suc: "pages_from p (Suc k) = p # pages_from (p + 4096) k"
  by (simp add: pages_from_def upt_conv_Cons map_Suc_upt [symmetric] comp_def algebra_simps del: upt_Suc)

lemma freerange_loop_ok:
  assumes "kmem_ready s ps" "pg_aligned p" "kend s \<le> p" "unat p + 4096 * k = unat PHYSTOP" "\<forall>q\<in>set ps. q < p"
  shows "\<exists>t. freerange_loop p PHYSTOP s = Ok () t \<and> kmem_ready t (rev (pages_from p k) @ ps) \<and> kend t = kend s"
  using assms
proof (induction k arbitrary: s ps p)
  case 0
  then have "p = PHYSTOP" by (simp add: word_unat_eq_iff)
  with 0 show ?case by (subst freerange_loop.simps) (simp add: pages_from_def layout_defs)
next
  case (Suc k)
  have u: "unat (p + 4096) = unat p + 4096" using Suc.prems(4) by (simp add: unat_word_ariths PHYSTOP_num)
  have lt: "p < PHYSTOP" and le: "p + PGSIZE \<le> PHYSTOP" and inc: "p < p + 4096"
    using Suc.prems(4) u by (simp_all add: word_less_nat_alt word_le_nat_alt)
  have ok: "page_ok s p" "p \<notin> set ps" using Suc.prems lt by (auto simp: page_ok_def)
  note kf = kfree_ok [OF Suc.prems(1) ok]
  have al: "pg_aligned (p + 4096)" using Suc.prems(2) u by (simp add: pg_aligned_unat)
  let ?t = "(cycled s)\<lparr>mem := st64 (memset (mem s) p 1 PGSIZE) p (freelist s), freelist := p\<rparr>"
  have ke: "kend ?t = kend s" by simp
  have kl: "kend ?t \<le> p + 4096" using Suc.prems(3) inc ke by simp
  have un: "unat (p + 4096) + 4096 * k = unat PHYSTOP" using Suc.prems(4) u by simp
  have all: "\<forall>q\<in>set (p # ps). q < p + 4096" using Suc.prems(5) inc by auto
  from Suc.IH [OF kf(2) al kl un all] show ?case
    using kf(1) le by (subst freerange_loop.simps) (simp add: pages_from_Suc)
qed

lemma kinit_run: "kinit s = freerange (kend s) PHYSTOP (upd_lock L_kmem (\<lambda>_. \<lparr>lk_locked = 0, lk_name = ''kmem'', lk_cpu = None\<rparr>) s)"
  by (simp add: kinit_def run_simps initlock_def upd_lock_def)

section \<open>The properties\<close>

text \<open>C11.  \<^verbatim>\<open>kinit\<close> puts every page between the end of the kernel and \<^verbatim>\<open>PHYSTOP\<close> on the free list,
  highest first, each exactly once, and leaves the allocator ready.\<close>

theorem kinit_frees_all:
  assumes "intr_sane s" "freelist s = 0" "0 < kend s" "kend s \<le> PHYSTOP"
    and "unat (PGROUNDUP (kend s)) + 4096 * k = unat PHYSTOP"
  shows "\<exists>t. kinit s = Ok () t \<and> kmem_ready t (rev (pages_from (PGROUNDUP (kend s)) k))"
proof -
  let ?s = "upd_lock L_kmem (\<lambda>_. \<lparr>lk_locked = 0, lk_name = ''kmem'', lk_cpu = None\<rparr>) s"
  have e: "freelist ?s = freelist s" "kend ?s = kend s" by (simp_all add: upd_lock_def)
  have "intr_sane ?s" "unlocked L_kmem ?s" using assms(1) by (simp_all add: intr_sane_def unlocked_def)
  then have r: "kmem_ready ?s []" using assms(2,3) e by (simp add: kmem_ready_def)
  have "unat (kend s) \<le> 0x88000000" using assms(4) by (simp add: word_le_nat_alt PHYSTOP_num)
  then have "unat (PGROUNDUP (kend s)) = (unat (kend s) + 4095) div 4096 * 4096" by (simp add: unat_PGROUNDUP)
  then have "kend ?s \<le> PGROUNDUP (kend s)" unfolding e by (simp add: word_le_nat_alt)
  from freerange_loop_ok [OF r pg_aligned_PGROUNDUP this assms(5)] show ?thesis
    by (auto simp: kinit_run freerange_def)
qed

definition boot_kmem :: "kmemst" where
  "boot_kmem = kbase.extend boot_base \<lparr>mem = \<lambda>_. 0, freelist = 0, kend = 0x87FFE123\<rparr>"

lemma kbase_extend_base:
  "intr_sane (kbase.extend b e) = intr_sane b" "unlocked l (kbase.extend b e) = unlocked l b"
  by (simp_all add: kbase.extend_def intr_sane_def mycpu_def cpuid_def r_tp_def intr_get_bit unlocked_def)

lemma boot_kmem_ok: "intr_sane boot_kmem" "freelist boot_kmem = 0" "kend boot_kmem = 0x87FFE123"
  by (simp_all add: boot_kmem_def kbase_extend_base) (simp_all add: kbase.extend_def)

theorem kinit_frees_all_witness: "\<exists>t. kinit boot_kmem = Ok () t \<and> kmem_ready t [0x87FFF000]"
proof -
  have up: "PGROUNDUP (kend boot_kmem) = 0x87FFF000" by (simp add: boot_kmem_ok PGROUNDUP_def)
  have "\<exists>t. kinit boot_kmem = Ok () t \<and> kmem_ready t (rev (pages_from (PGROUNDUP (kend boot_kmem)) 1))"
    by (rule kinit_frees_all) (simp_all add: boot_kmem_ok PHYSTOP_num PGROUNDUP_def)
  then show ?thesis unfolding up by (simp add: pages_from_def)
qed

text \<open>C5.  The allocator is a stack of pages.  With the pages \<open>ps\<close> free, \<^verbatim>\<open>kalloc\<close> returns the first of
  them, filled with the junk byte 5, or 0 when there is none; \<^verbatim>\<open>kfree\<close> of a page in range that is not
  free makes it the first, and of any other address panics.  Both leave every other page of memory
  as it was.\<close>

theorem kalloc_kfree_stack:
  assumes "kmem_ready s ps"
  shows "(ps = [] \<longrightarrow> (\<exists>t. kalloc s = Ok 0 t \<and> kmem_ready t [] \<and> mem t = mem s))
    \<and> (\<forall>p qs. ps = p # qs \<longrightarrow> (\<exists>t. kalloc s = Ok p t \<and> kmem_ready t qs
        \<and> mem t = (\<lambda>x. if page_of x = page_of p then 5 else mem s x)))
    \<and> (page_ok s q \<and> q \<notin> set ps \<longrightarrow> (\<exists>t. kfree q s = Ok () t \<and> kmem_ready t (q # ps)
        \<and> (\<forall>x. page_of x \<noteq> page_of q \<longrightarrow> mem t x = mem s x)))
    \<and> (\<not> page_ok s q \<longrightarrow> kfree q s = Panic ''kfree'')"
proof (intro conjI impI allI)
  show "\<exists>t. kalloc s = Ok 0 t \<and> kmem_ready t [] \<and> mem t = mem s" if "ps = []"
    using kalloc_none [of s] assms that by (intro exI [of _ "cycled s"]) simp
  show "\<exists>t. kalloc s = Ok p t \<and> kmem_ready t qs \<and> mem t = (\<lambda>x. if page_of x = page_of p then 5 else mem s x)"
    if "ps = p # qs" for p qs
    using kalloc_page [of s p qs] assms that by blast
  show "\<exists>t. kfree q s = Ok () t \<and> kmem_ready t (q # ps) \<and> (\<forall>x. page_of x \<noteq> page_of q \<longrightarrow> mem t x = mem s x)"
    if "page_ok s q \<and> q \<notin> set ps"
    using kmem.free_page [OF assms, of q] that by (auto simp: wp_iff)
qed (rule kfree_bad [OF assms])

lemma one_page_ready: "kmem_ready (boot_kmem\<lparr>freelist := 0x87FFF000\<rparr>) [0x87FFF000]"
  using boot_kmem_ok
  by (simp add: kmem_ready_def page_ok_def pg_aligned_def PHYSTOP_num boot_kmem_def kbase_extend_base
      ld64_def bytes_def upt_rec) (simp add: kbase.extend_def)

theorem kalloc_kfree_stack_witness:
  "\<exists>t. kalloc (boot_kmem\<lparr>freelist := 0x87FFF000\<rparr>) = Ok 0x87FFF000 t \<and> mem t 0x87FFF800 = 5 \<and> kmem_ready t []
    \<and> kfree 0x87FFF001 (boot_kmem\<lparr>freelist := 0x87FFF000\<rparr>) = Panic ''kfree''"
proof -
  have "\<not> page_ok (boot_kmem\<lparr>freelist := 0x87FFF000\<rparr>) 0x87FFF001" by (simp add: page_ok_def pg_aligned_def)
  with kalloc_kfree_stack [OF one_page_ready, of "0x87FFF001"] show ?thesis by (auto simp: page_of_def)
qed

text \<open>C14.  Any number of calls of \<^verbatim>\<open>kalloc\<close> return distinct pages, the free ones in order; giving them
  all back with \<^verbatim>\<open>kfree\<close> makes every one of them free again, and changes no byte of any other page.\<close>

theorem kalloc_distinct_and_returned:
  assumes "kmem_ready s (ps @ qs)"
  shows "(\<exists>t. alloc_n kalloc (length ps) s = Ok ps t \<and> distinct ps \<and> kmem_ready t qs)
    \<and> (\<exists>t. bind (alloc_n kalloc (length ps)) (forK kfree) s = Ok () t \<and> kmem_ready t (rev ps @ qs)
        \<and> (\<forall>x. page_of x \<notin> page_of ` set ps \<longrightarrow> mem t x = mem s x))"
  using kmem.alloc_n_pages [OF assms] kmem.alloc_free_all [OF assms] kmem.frees_valid [OF assms]
  by (auto simp: wp_iff)

theorem kalloc_distinct_and_returned_witness:
  "\<exists>t. bind (alloc_n kalloc 1) (forK kfree) (boot_kmem\<lparr>freelist := 0x87FFF000\<rparr>) = Ok () t \<and> kmem_ready t [0x87FFF000]"
  using kalloc_distinct_and_returned [of "boot_kmem\<lparr>freelist := 0x87FFF000\<rparr>" "[0x87FFF000]" "[]"] one_page_ready
  by auto

end
