(* ===== verification/Xv6_Vm.thy ===== *)
theory Xv6_Vm
  imports Xv6_Kalloc
begin

text \<open>
  The page tables of \<^verbatim>\<open>kernel/vm.c\<close>, over the byte memory of the page allocator.  Every function of
  the file is here.  A kernel object that is copied to user memory is given by its bytes, and what
  \<^verbatim>\<open>copyin\<close> and \<^verbatim>\<open>copyinstr\<close> write to their kernel destination is part of their result.  The TLB is
  not modelled, so \<^verbatim>\<open>sfence_vma\<close> has no effect.  \<open>etext\<close> and \<open>trampoline\<close> are the addresses the
  linker gives to these symbols.
\<close>

record vmst = kmemst +
  kernel_pagetable :: u64
  etext :: u64
  trampoline :: u64

abbreviation upd_mem :: "(memory \<Rightarrow> memory) \<Rightarrow> ('r kmemst_scheme, unit) kprog" where
  "upd_mem f \<equiv> modify (\<lambda>s. s\<lparr>mem := f (mem s)\<rparr>)"

section \<open>Walking and mapping\<close>

definition pte_addr :: "u64 \<Rightarrow> nat \<Rightarrow> u64 \<Rightarrow> u64" where
  "pte_addr pagetable level va = pagetable + 8 * PX level va"

fun walk_loop :: "nat \<Rightarrow> u64 \<Rightarrow> u64 \<Rightarrow> bool \<Rightarrow> ('r kmemst_scheme, u64) kprog" where
  "walk_loop 0 pagetable va alloc = ret (pte_addr pagetable 0 va)"
| "walk_loop (Suc l) pagetable va alloc =
     bind (gets (\<lambda>s. ld64 (mem s) (pte_addr pagetable (Suc l) va))) (\<lambda>pte.
       if pte AND PTE_V \<noteq> 0 then walk_loop l (PTE2PA pte) va alloc
       else if \<not> alloc then ret 0
       else bind kalloc (\<lambda>pg.
         if pg = 0 then ret 0
         else seqK [
           upd_mem (\<lambda>m. memset m pg 0 PGSIZE),
           upd_mem (\<lambda>m. st64 m (pte_addr pagetable (Suc l) va) (PA2PTE pg OR PTE_V))]
           (walk_loop l pg va alloc)))"

definition walk :: "u64 \<Rightarrow> u64 \<Rightarrow> bool \<Rightarrow> ('r kmemst_scheme, u64) kprog" where
  "walk pagetable va alloc = (if va \<ge> MAXVA then panicK ''walk'' else walk_loop 2 pagetable va alloc)"

definition walkaddr :: "u64 \<Rightarrow> u64 \<Rightarrow> ('r kmemst_scheme, u64) kprog" where
  "walkaddr pagetable va =
     (if va \<ge> MAXVA then ret 0
      else bind (walk pagetable va False) (\<lambda>pte.
        if pte = 0 then ret 0
        else bind (gets (\<lambda>s. ld64 (mem s) pte)) (\<lambda>e.
          if e AND PTE_V = 0 then ret 0
          else if e AND PTE_U = 0 then ret 0
          else ret (PTE2PA e))))"

text \<open>The loops below end because \<^verbatim>\<open>walk\<close> returns only for an address below \<^verbatim>\<open>MAXVA\<close>.\<close>

lemma walk_Ok_MAXVA: "walk pt va alloc s = Ok p t \<Longrightarrow> va < MAXVA"
  by (auto simp: walk_def run_simps split: if_splits)

lemma next_page_measure: "a < MAXVA \<Longrightarrow> 2 ^ 64 - unat (a + 4096) < 2 ^ 64 - unat a" for a :: u64
  by (simp add: word_less_nat_alt MAXVA_num unat_word_ariths)

function mappages_loop :: "u64 \<Rightarrow> u64 \<Rightarrow> u64 \<Rightarrow> u64 \<Rightarrow> u64 \<Rightarrow> ('r kmemst_scheme, int) kprog" where
  "mappages_loop pagetable a alast pa perm s =
     obind (walk pagetable a True s) (\<lambda>pte s.
       if pte = 0 then Ok (- 1) s
       else if ld64 (mem s) pte AND PTE_V \<noteq> 0 then Panic ''mappages: remap''
       else obind (upd_mem (\<lambda>m. st64 m pte (PA2PTE pa OR perm OR PTE_V)) s) (\<lambda>_ s.
         if a = alast then Ok 0 s
         else mappages_loop pagetable (a + PGSIZE) alast (pa + PGSIZE) perm s))"
  by pat_completeness auto
termination
  by (relation "measure (\<lambda>(pt, a, l, pa, perm, s). 2 ^ 64 - unat a)")
    (auto dest!: walk_Ok_MAXVA next_page_measure)

declare mappages_loop.simps [simp del]

definition mappages :: "u64 \<Rightarrow> u64 \<Rightarrow> u64 \<Rightarrow> u64 \<Rightarrow> u64 \<Rightarrow> ('r kmemst_scheme, int) kprog" where
  "mappages pagetable va sz pa perm =
     (if sz = 0 then panicK ''mappages: size''
      else mappages_loop pagetable (PGROUNDDOWN va) (PGROUNDDOWN (va + sz - 1)) pa perm)"

definition kvmmap :: "u64 \<Rightarrow> u64 \<Rightarrow> u64 \<Rightarrow> u64 \<Rightarrow> u64 \<Rightarrow> ('r kmemst_scheme, unit) kprog" where
  "kvmmap kpgtbl va pa sz perm =
     bind (mappages kpgtbl va sz pa perm) (\<lambda>r. if r \<noteq> 0 then panicK ''kvmmap'' else skip)"

definition proc_mapstacks :: "u64 \<Rightarrow> ('r kmemst_scheme, unit) kprog" where
  "proc_mapstacks kpgtbl = forK (\<lambda>p. bind kalloc (\<lambda>pa.
     if pa = 0 then panicK ''kalloc'' else kvmmap kpgtbl (KSTACK p) pa PGSIZE (PTE_R OR PTE_W))) [0..<NPROC]"

definition kvmmake :: "('r vmst_scheme, u64) kprog" where
  "kvmmake = bind kalloc (\<lambda>kpgtbl. seqK [
     upd_mem (\<lambda>m. memset m kpgtbl 0 PGSIZE),
     kvmmap kpgtbl UART0 UART0 PGSIZE (PTE_R OR PTE_W),
     kvmmap kpgtbl VIRTIO0 VIRTIO0 PGSIZE (PTE_R OR PTE_W),
     kvmmap kpgtbl PLIC PLIC 0x400000 (PTE_R OR PTE_W),
     (\<lambda>s. kvmmap kpgtbl KERNBASE KERNBASE (etext s - KERNBASE) (PTE_R OR PTE_X) s),
     (\<lambda>s. kvmmap kpgtbl (etext s) (etext s) (PHYSTOP - etext s) (PTE_R OR PTE_W) s),
     (\<lambda>s. kvmmap kpgtbl TRAMPOLINE (trampoline s) PGSIZE (PTE_R OR PTE_X) s),
     proc_mapstacks kpgtbl] (ret kpgtbl))"

definition kvminit :: "('r vmst_scheme, unit) kprog" where
  "kvminit = bind kvmmake (\<lambda>p. modify (\<lambda>s. s\<lparr>kernel_pagetable := p\<rparr>))"

definition kvminithart :: "('r vmst_scheme, unit) kprog" where
  "kvminithart = (\<lambda>s. w_satp (MAKE_SATP (kernel_pagetable s)) s)"

section \<open>User address spaces\<close>

function uvmunmap_loop :: "u64 \<Rightarrow> u64 \<Rightarrow> u64 \<Rightarrow> bool \<Rightarrow> ('r kmemst_scheme, unit) kprog" where
  "uvmunmap_loop pagetable a alast do_free s =
     (if a < alast then
        obind (walk pagetable a False s) (\<lambda>pte s.
          if pte = 0 then Panic ''uvmunmap: walk''
          else if ld64 (mem s) pte AND PTE_V = 0 then Panic ''uvmunmap: not mapped''
          else if PTE_FLAGS (ld64 (mem s) pte) = PTE_V then Panic ''uvmunmap: not a leaf''
          else obind (whenK do_free (kfree (PTE2PA (ld64 (mem s) pte))) s) (\<lambda>_ s.
            obind (upd_mem (\<lambda>m. st64 m pte 0) s) (\<lambda>_ s.
              uvmunmap_loop pagetable (a + PGSIZE) alast do_free s)))
      else Ok () s)"
  by pat_completeness auto
termination
  by (relation "measure (\<lambda>(pt, a, l, f, s). 2 ^ 64 - unat a)")
    (auto dest!: walk_Ok_MAXVA next_page_measure)

declare uvmunmap_loop.simps [simp del]

definition uvmunmap :: "u64 \<Rightarrow> u64 \<Rightarrow> u64 \<Rightarrow> bool \<Rightarrow> ('r kmemst_scheme, unit) kprog" where
  "uvmunmap pagetable va npages do_free =
     (if va mod PGSIZE \<noteq> 0 then panicK ''uvmunmap: not aligned''
      else uvmunmap_loop pagetable va (va + npages * PGSIZE) do_free)"

definition uvmcreate :: "('r kmemst_scheme, u64) kprog" where
  "uvmcreate = bind kalloc (\<lambda>pagetable.
     if pagetable = 0 then ret 0
     else seqK [upd_mem (\<lambda>m. memset m pagetable 0 PGSIZE)] (ret pagetable))"

definition uvmfirst :: "u64 \<Rightarrow> u8 list \<Rightarrow> u32 \<Rightarrow> ('r kmemst_scheme, unit) kprog" where
  "uvmfirst pagetable src sz =
     (if sz \<ge> PGSIZE then panicK ''uvmfirst: more than a page''
      else bind kalloc (\<lambda>pg. block [
        upd_mem (\<lambda>m. memset m pg 0 PGSIZE),
        bind (mappages pagetable 0 PGSIZE pg (PTE_W OR PTE_R OR PTE_X OR PTE_U)) (\<lambda>_. skip),
        upd_mem (\<lambda>m. store m pg (take (unat sz) src))]))"

text \<open>The C variable \<^verbatim>\<open>int npages\<close> keeps 32 bits of the quotient.\<close>

definition uvmdealloc :: "u64 \<Rightarrow> u64 \<Rightarrow> u64 \<Rightarrow> ('r kmemst_scheme, u64) kprog" where
  "uvmdealloc pagetable oldsz newsz =
     (if newsz \<ge> oldsz then ret oldsz
      else seqK [
        whenK (PGROUNDUP newsz < PGROUNDUP oldsz)
          (let npages = (ucast ((PGROUNDUP oldsz - PGROUNDUP newsz) div PGSIZE) :: u32)
           in uvmunmap pagetable (PGROUNDUP newsz) (scast npages) True)]
        (ret newsz))"

lemma mappages_loop_Ok_MAXVA: "mappages_loop pt a l pa perm s = Ok r t \<Longrightarrow> a < MAXVA"
  by (subst (asm) mappages_loop.simps) (auto simp: obind_Ok_iff dest: walk_Ok_MAXVA)

lemma mappages_Ok_MAXVA: "mappages pt a sz pa perm s = Ok r t \<Longrightarrow> PGROUNDDOWN a < MAXVA"
  by (auto simp: mappages_def run_simps dest: mappages_loop_Ok_MAXVA split: if_splits)

text \<open>In the loop of \<^verbatim>\<open>uvmalloc\<close> the address \<open>a\<close> is a multiple of the page size.\<close>

function uvmalloc_loop :: "u64 \<Rightarrow> u64 \<Rightarrow> u64 \<Rightarrow> u64 \<Rightarrow> u64 \<Rightarrow> ('r kmemst_scheme, u64) kprog" where
  "uvmalloc_loop pagetable oldsz a newsz xperm s =
     (if a < newsz then
        obind (kalloc s) (\<lambda>pg s.
          if pg = 0 then seqK [bind (uvmdealloc pagetable a oldsz) (\<lambda>_. skip)] (ret 0) s
          else obind (upd_mem (\<lambda>m. memset m pg 0 PGSIZE) s) (\<lambda>_ s.
            obind (mappages pagetable a PGSIZE pg (PTE_R OR PTE_U OR xperm) s) (\<lambda>r s.
              if r \<noteq> 0 then seqK [kfree pg, bind (uvmdealloc pagetable a oldsz) (\<lambda>_. skip)] (ret 0) s
              else uvmalloc_loop pagetable oldsz (a + PGSIZE) newsz xperm s)))
      else Ok newsz s)"
  by pat_completeness auto
termination
proof (relation "measure (\<lambda>(pt, ol, a, n, x, s). 2 ^ 64 - unat a)", simp, goal_cases)
  case (1 pt oldsz a n x s pg t u v r w)
  then have "PGROUNDDOWN a < MAXVA" by (auto dest: mappages_Ok_MAXVA)
  then have "unat a < 2 ^ 38 + 4096"
    by (simp add: word_less_nat_alt MAXVA_num unat_PGROUNDDOWN)
  then show ?case by (simp add: unat_word_ariths)
qed

declare uvmalloc_loop.simps [simp del]

definition uvmalloc :: "u64 \<Rightarrow> u64 \<Rightarrow> u64 \<Rightarrow> u64 \<Rightarrow> ('r kmemst_scheme, u64) kprog" where
  "uvmalloc pagetable oldsz newsz xperm =
     (if newsz < oldsz then ret oldsz
      else uvmalloc_loop pagetable (PGROUNDUP oldsz) (PGROUNDUP oldsz) newsz xperm)"

text \<open>\<^verbatim>\<open>freewalk\<close> calls itself once per level of the table.  The first argument bounds the depth of
  the calls; a table that \<^verbatim>\<open>walk\<close> has made has three levels, so \<^verbatim>\<open>uvmfree\<close> starts with 3.  A cyclic
  table would make the code recurse for ever, which is the outcome at depth 0.\<close>

fun freewalk :: "nat \<Rightarrow> u64 \<Rightarrow> ('r kmemst_scheme, unit) kprog" where
  "freewalk 0 pagetable = (\<lambda>s. Hang)"
| "freewalk (Suc d) pagetable = block [
     forK (\<lambda>i. bind (gets (\<lambda>s. ld64 (mem s) (pagetable + 8 * of_nat i))) (\<lambda>pte.
       if pte AND PTE_V \<noteq> 0 \<and> pte AND (PTE_R OR PTE_W OR PTE_X) = 0 then block [
         freewalk d (PTE2PA pte),
         upd_mem (\<lambda>m. st64 m (pagetable + 8 * of_nat i) 0)]
       else if pte AND PTE_V \<noteq> 0 then panicK ''freewalk: leaf''
       else skip)) [0..<512],
     kfree pagetable]"

definition uvmfree :: "u64 \<Rightarrow> u64 \<Rightarrow> ('r kmemst_scheme, unit) kprog" where
  "uvmfree pagetable sz = block [
     whenK (sz > 0) (uvmunmap pagetable 0 (PGROUNDUP sz div PGSIZE) True),
     freewalk 3 pagetable]"

function uvmcopy_loop :: "u64 \<Rightarrow> u64 \<Rightarrow> u64 \<Rightarrow> u64 \<Rightarrow> ('r kmemst_scheme, int) kprog" where
  "uvmcopy_loop old new i sz s =
     (if i < sz then
        obind (walk old i False s) (\<lambda>pte s.
          if pte = 0 then Panic ''uvmcopy: pte should exist''
          else if ld64 (mem s) pte AND PTE_V = 0 then Panic ''uvmcopy: page not present''
          else let pa = PTE2PA (ld64 (mem s) pte); flags = PTE_FLAGS (ld64 (mem s) pte) in
            obind (kalloc s) (\<lambda>pg s.
              if pg = 0 then seqK [uvmunmap new 0 (i div PGSIZE) True] (ret (- 1)) s
              else obind (upd_mem (\<lambda>m. memmove m pg pa PGSIZE) s) (\<lambda>_ s.
                obind (mappages new i PGSIZE pg flags s) (\<lambda>r s.
                  if r \<noteq> 0 then seqK [kfree pg, uvmunmap new 0 (i div PGSIZE) True] (ret (- 1)) s
                  else uvmcopy_loop old new (i + PGSIZE) sz s))))
      else Ok 0 s)"
  by pat_completeness auto
termination
  by (relation "measure (\<lambda>(old, new, i, sz, s). 2 ^ 64 - unat i)")
    (auto dest!: walk_Ok_MAXVA next_page_measure)

declare uvmcopy_loop.simps [simp del]

definition uvmcopy :: "u64 \<Rightarrow> u64 \<Rightarrow> u64 \<Rightarrow> ('r kmemst_scheme, int) kprog" where
  "uvmcopy old new sz = uvmcopy_loop old new 0 sz"

definition uvmclear :: "u64 \<Rightarrow> u64 \<Rightarrow> ('r kmemst_scheme, unit) kprog" where
  "uvmclear pagetable va = bind (walk pagetable va False) (\<lambda>pte.
     if pte = 0 then panicK ''uvmclear''
     else upd_mem (\<lambda>m. st64 m pte (ld64 m pte AND NOT PTE_U)))"

section \<open>Copying between kernel and user memory\<close>

text \<open>The number of bytes from \<open>va\<close> to the end of its page, at most \<open>k\<close>: \<^verbatim>\<open>n = PGSIZE - (va - va0)\<close>,
  then \<^verbatim>\<open>if(n > len) n = len\<close>.\<close>

definition chunk :: "u64 \<Rightarrow> nat \<Rightarrow> nat" where
  "chunk va k = min (unat (PGSIZE - (va - PGROUNDDOWN va))) k"

lemma chunk_eq: "chunk va k = min (4096 - unat va mod 4096) k"
proof -
  have "unat (va - PGROUNDDOWN va) < 4096" by (simp add: PGROUNDDOWN_offset)
  then have "va - PGROUNDDOWN va \<le> 4096" by (simp add: word_le_nat_alt)
  then have "unat (4096 - (va - PGROUNDDOWN va)) = 4096 - unat (va - PGROUNDDOWN va)"
    by (simp add: unat_sub)
  then show ?thesis by (simp add: chunk_def PGROUNDDOWN_offset)
qed

lemma chunk_bounds: "chunk va k \<le> k" "0 < k \<Longrightarrow> 0 < chunk va k" "chunk va k \<le> 4096 - unat va mod 4096"
  by (simp_all add: chunk_eq)

function copyout :: "u64 \<Rightarrow> u64 \<Rightarrow> u8 list \<Rightarrow> ('r kmemst_scheme, int) kprog" where
  "copyout pagetable dstva src s =
     (if src = [] then Ok 0 s
      else obind (walkaddr pagetable (PGROUNDDOWN dstva) s) (\<lambda>pa0 s.
        if pa0 = 0 then Ok (- 1) s
        else let n = chunk dstva (length src) in
          obind (upd_mem (\<lambda>m. store m (pa0 + (dstva - PGROUNDDOWN dstva)) (take n src)) s) (\<lambda>_ s.
            copyout pagetable (PGROUNDDOWN dstva + PGSIZE) (drop n src) s)))"
  by pat_completeness auto
termination
  by (relation "measure (\<lambda>(pt, va, src, s). length src)") (simp_all add: chunk_bounds)

declare copyout.simps [simp del]

text \<open>The result holds the value returned and the bytes written at \<^verbatim>\<open>dst\<close>, which are fewer than
  \<open>k\<close> when it fails.\<close>

function copyin :: "u64 \<Rightarrow> u64 \<Rightarrow> nat \<Rightarrow> ('r kmemst_scheme, int \<times> u8 list) kprog" where
  "copyin pagetable srcva k s =
     (if k = 0 then Ok (0, []) s
      else obind (walkaddr pagetable (PGROUNDDOWN srcva) s) (\<lambda>pa0 s.
        if pa0 = 0 then Ok (- 1, []) s
        else let n = chunk srcva k in
          obind (copyin pagetable (PGROUNDDOWN srcva + PGSIZE) (k - n) s) (\<lambda>(r, bs).
            Ok (r, bytes (mem s) (pa0 + (srcva - PGROUNDDOWN srcva)) n @ bs))))"
  by pat_completeness auto
termination
  by (relation "measure (\<lambda>(pt, va, k, s). k)") (simp_all add: chunk_bounds)

declare copyin.simps [simp del]

text \<open>The inner loop of \<^verbatim>\<open>copyinstr\<close> over one page: the bytes copied, and whether a nul was met.\<close>

fun copystr_page :: "u8 list \<Rightarrow> u8 list \<times> bool" where
  "copystr_page [] = ([], False)"
| "copystr_page (c # cs) = (if c = 0 then ([0], True) else (let (r, z) = copystr_page cs in (c # r, z)))"

function copyinstr :: "u64 \<Rightarrow> u64 \<Rightarrow> nat \<Rightarrow> ('r kmemst_scheme, int \<times> u8 list) kprog" where
  "copyinstr pagetable srcva k s =
     (if k = 0 then Ok (- 1, []) s
      else obind (walkaddr pagetable (PGROUNDDOWN srcva) s) (\<lambda>pa0 s.
        if pa0 = 0 then Ok (- 1, []) s
        else let n = chunk srcva k;
            (bs, got_null) = copystr_page (bytes (mem s) (pa0 + (srcva - PGROUNDDOWN srcva)) n) in
          if got_null then Ok (0, bs) s
          else obind (copyinstr pagetable (PGROUNDDOWN srcva + PGSIZE) (k - n) s) (\<lambda>(r, cs). Ok (r, bs @ cs))))"
  by pat_completeness auto
termination
  by (relation "measure (\<lambda>(pt, va, k, s). k)") (simp_all add: chunk_bounds)

declare copyinstr.simps [simp del]

end
