(* ===== verification/Xv6_Pagetable.thy ===== *)
theory Xv6_Pagetable
  imports Xv6_Vm
begin

text \<open>
  What the page tables of \<open>Xv6_Vm\<close> mean.  A table is a tree of pages; \<open>tbl\<close> is the table page that
  a virtual address reaches at each depth, and \<open>pte_of\<close> its leaf entry, 0 when there is none.  A
  tree whose pages are reached by one path only is \<open>no_alias\<close>.  The lemmas show that \<^verbatim>\<open>walk\<close> finds
  the leaf entry, that adding a table page or writing a leaf entry changes no other translation, and
  from this the effect of \<^verbatim>\<open>mappages\<close>, \<^verbatim>\<open>uvmunmap\<close>, \<^verbatim>\<open>copyout\<close> and \<^verbatim>\<open>copyin\<close>.
\<close>

section \<open>Entries\<close>

definition ent :: "memory \<Rightarrow> u64 \<Rightarrow> nat \<Rightarrow> u64" where
  "ent m p i = ld64 m (p + 8 * of_nat i)"

definition px :: "nat \<Rightarrow> u64 \<Rightarrow> nat" where
  "px d va = unat (PX (2 - d) va)"

lemma px_less [simp]: "px d va < 512"
  by (simp add: px_def PX_less)

lemma ent_pte_addr: "ld64 m (pte_addr p (2 - d) va) = ent m p (px d va)"
  by (simp add: ent_def pte_addr_def px_def)

lemma unat_entry_byte:
  "pg_aligned p \<Longrightarrow> i < 512 \<Longrightarrow> a < 8 \<Longrightarrow> unat (p + 8 * of_nat i + of_nat a) = unat p + 8 * i + a"
proof -
  assume p: "pg_aligned p" and "i < 512" "a < 8"
  then have "8 * i + a < 4096" by simp
  from unat_aligned_add [OF p this] show ?thesis by (simp add: algebra_simps)
qed

lemma entry_byte_inj:
  assumes "pg_aligned p" "pg_aligned q" "i < 512" "j < 512" "a < 8" "b < 8"
    and "p + 8 * of_nat i + of_nat a = q + 8 * of_nat j + of_nat b"
  shows "p = q \<and> i = j"
proof -
  have eq: "unat p + (8 * i + a) = unat q + (8 * j + b)"
    using arg_cong [OF assms(7), of unat] unat_entry_byte assms(1-6) by simp
  have "unat p mod 4096 = 0" "unat q mod 4096 = 0" using assms(1,2) by (simp_all add: pg_aligned_unat)
  then obtain c d where cd: "unat p = 4096 * c" "unat q = 4096 * d" by (metis mod_0_imp_dvd dvdE)
  have "8 * i + a < 4096" "8 * j + b < 4096" using assms(3-6) by simp_all
  with eq cd have "c = d" by linarith
  with eq cd assms(5,6) have "i = j" by linarith
  with \<open>c = d\<close> cd show ?thesis by (simp add: word_unat_eq_iff)
qed

lemma ent_st64:
  assumes "pg_aligned p" "pg_aligned q" "i < 512" "j < 512"
  shows "ent (st64 m (p + 8 * of_nat i) v) q j = (if q = p \<and> j = i then v else ent m q j)"
proof (cases "q = p \<and> j = i")
  case True
  then show ?thesis by (simp add: ent_def)
next
  case False
  then have "disjoint_ranges (p + 8 * of_nat i) 8 (q + 8 * of_nat j) 8"
    unfolding disjoint_ranges_def using entry_byte_inj [OF assms] by blast
  from ld64_st64_disjoint [OF this] show ?thesis unfolding ent_def if_not_P [OF False] .
qed

lemma page_of_entry [simp]:
  "pg_aligned p \<Longrightarrow> i < 512 \<Longrightarrow> a < 8 \<Longrightarrow> page_of (p + 8 * of_nat i + of_nat a) = page_of p"
  using page_of_add [of p "8 * i + a"] by (simp add: algebra_simps)

lemma ent_cong:
  "pg_aligned p \<Longrightarrow> i < 512 \<Longrightarrow> (\<And>x. page_of x = page_of p \<Longrightarrow> m x = m' x) \<Longrightarrow> ent m p i = ent m' p i"
  unfolding ent_def by (rule ld64_cong) simp

lemma st64_entry_other:
  assumes "pg_aligned p" "i < 512" "page_of x \<noteq> page_of p"
  shows "st64 m (p + 8 * of_nat i) v x = m x"
proof -
  have "\<not> unat (x - (p + 8 * of_nat i)) < 8"
  proof
    assume lt: "unat (x - (p + 8 * of_nat i)) < 8"
    have "x = p + 8 * of_nat i + of_nat (unat (x - (p + 8 * of_nat i)))" by simp
    then show False using page_of_entry [OF assms(1,2) lt] assms(3) by metis
  qed
  then show ?thesis by (simp add: st64_def store_apply)
qed

lemma unle_zeros: "unle (replicate n 0) = 0"
  by (induction n) simp_all

lemma ent_memset:
  assumes "pg_aligned p" "pg_aligned q" "i < 512"
  shows "ent (memset m p 0 PGSIZE) q i = (if q = p then 0 else ent m q i)"
proof (cases "q = p")
  case True
  have "bytes (memset m p 0 PGSIZE) (p + 8 * of_nat i) 8 = replicate 8 0"
    using assms by (intro nth_equalityI) (simp_all add: memset_page del: PGSIZE_def)
  with True show ?thesis by (simp add: ent_def ld64_def unle_zeros del: PGSIZE_def)
next
  case False
  then have "page_of q \<noteq> page_of p" using assms(1,2) page_of_eq_iff by blast
  with assms False show ?thesis by (auto simp: memset_page simp del: PGSIZE_def intro!: ent_cong)
qed

section \<open>Table pages and leaf entries\<close>

fun tbl :: "memory \<Rightarrow> u64 \<Rightarrow> nat \<Rightarrow> u64 \<Rightarrow> u64 option" where
  "tbl m root 0 va = Some root"
| "tbl m root (Suc d) va = (case tbl m root d va of None \<Rightarrow> None
     | Some p \<Rightarrow> (let e = ent m p (px d va) in if e AND PTE_V \<noteq> 0 then Some (PTE2PA e) else None))"

definition pte_of :: "memory \<Rightarrow> u64 \<Rightarrow> u64 \<Rightarrow> u64" where
  "pte_of m root va = (case tbl m root 2 va of None \<Rightarrow> 0 | Some p \<Rightarrow> ent m p (px 2 va))"

definition tables :: "memory \<Rightarrow> u64 \<Rightarrow> u64 set" where
  "tables m root = {p. \<exists>d va. d \<le> 2 \<and> tbl m root d va = Some p}"

definition same_path :: "nat \<Rightarrow> u64 \<Rightarrow> u64 \<Rightarrow> bool" where
  "same_path d va vb \<longleftrightarrow> (\<forall>j<d. px j va = px j vb)"

definition no_alias :: "memory \<Rightarrow> u64 \<Rightarrow> bool" where
  "no_alias m root \<longleftrightarrow> (\<forall>d e va vb p. d \<le> 2 \<longrightarrow> e \<le> 2 \<longrightarrow> tbl m root d va = Some p \<longrightarrow> tbl m root e vb = Some p
     \<longrightarrow> d = e \<and> same_path d va vb)"

lemma same_path_refl [simp]: "same_path d va va"
  by (simp add: same_path_def)

lemma same_path_Suc: "same_path (Suc d) va vb \<longleftrightarrow> same_path d va vb \<and> px d va = px d vb"
  by (auto simp: same_path_def less_Suc_eq)

lemma same_path_sym: "same_path d va vb = same_path d vb va"
  by (auto simp: same_path_def)

lemma same_path_trans: "same_path d va vb \<Longrightarrow> same_path d vb vc \<Longrightarrow> same_path d va vc"
  by (auto simp: same_path_def)

lemma tbl_cong: "same_path d va vb \<Longrightarrow> tbl m root d va = tbl m root d vb"
  by (induction d) (auto simp: same_path_Suc split: option.split)

lemma tables_I: "d \<le> 2 \<Longrightarrow> tbl m root d va = Some p \<Longrightarrow> p \<in> tables m root"
  by (auto simp: tables_def)

lemma root_in_tables [simp]: "root \<in> tables m root"
  by (rule tables_I [of 0]) simp_all

lemma no_aliasD:
  "no_alias m root \<Longrightarrow> d \<le> 2 \<Longrightarrow> e \<le> 2 \<Longrightarrow> tbl m root d va = Some p \<Longrightarrow> tbl m root e vb = Some p
    \<Longrightarrow> d = e \<and> same_path d va vb"
  unfolding no_alias_def by blast

lemma tbl_Suc_None: "tbl m root d va = None \<Longrightarrow> d \<le> e \<Longrightarrow> tbl m root e va = None"
  by (induction e) (auto simp: le_Suc_eq)

lemma same_path_page:
  assumes "va < MAXVA" "vb < MAXVA"
  shows "same_path 3 va vb \<longleftrightarrow> page_of va = page_of vb"
proof
  assume "same_path 3 va vb"
  then have "px 0 va = px 0 vb" "px 1 va = px 1 vb" "px 2 va = px 2 vb" by (simp_all add: same_path_def)
  then have "PX l va = PX l vb" if "l < 3" for l
    using that by (auto simp: px_def less_Suc_eq numeral_3_eq_3 word_unat_eq_iff numeral_2_eq_2)
  with PX_determine_page [OF assms] show "page_of va = page_of vb" by blast
next
  assume "page_of va = page_of vb"
  moreover have "PX l w = take_bit 9 (drop_bit (9 * l) (page_of w))" for l w
    by (simp add: PX_take page_of_def add.commute)
  ultimately have "PX l va = PX l vb" for l by simp
  then show "same_path 3 va vb" by (simp add: same_path_def px_def)
qed

section \<open>Writing a leaf entry\<close>

text \<open>Two memories with the same entries in the tables of \<open>m\<close>, up to the leaf level.\<close>

lemma tbl_same_upper:
  assumes "\<And>d va p. d < 2 \<Longrightarrow> tbl m root d va = Some p \<Longrightarrow> ent m' p (px d va) = ent m p (px d va)"
  shows "e \<le> 2 \<Longrightarrow> tbl m' root e va = tbl m root e va"
proof (induction e)
  case (Suc e)
  then show ?case using assms [of e va] by (auto simp: Let_def split: option.split)
qed simp

lemma tables_same:
  "(\<And>e va. e \<le> 2 \<Longrightarrow> tbl m' root e va = tbl m root e va) \<Longrightarrow> tables m' root = tables m root"
  unfolding tables_def by metis

lemma no_alias_same:
  assumes "\<And>e va. e \<le> 2 \<Longrightarrow> tbl m' root e va = tbl m root e va" "no_alias m root"
  shows "no_alias m' root"
  using assms(2) unfolding no_alias_def by (metis assms(1))

lemma write_leaf:
  fixes v :: u64
  assumes na: "no_alias m root" and al: "\<forall>q\<in>tables m root. pg_aligned q"
    and p: "tbl m root 2 va = Some p"
  defines "m' \<equiv> st64 m (p + 8 * of_nat (px 2 va)) v"
  shows "e \<le> 2 \<Longrightarrow> tbl m' root e vb = tbl m root e vb"
    and "pte_of m' root vb = (if same_path 3 va vb then v else pte_of m root vb)"
proof -
  have pa: "pg_aligned p" using al tables_I [OF _ p] by simp
  have ent: "ent m' q j = (if q = p \<and> j = px 2 va then v else ent m q j)" if "q \<in> tables m root" "j < 512" for q j
    unfolding m'_def using ent_st64 [OF pa _ px_less that(2)] al that(1) by blast
  have upper: "tbl m' root e vb = tbl m root e vb" if "e \<le> 2" for e vb
  proof (rule tbl_same_upper [OF _ that])
    fix d vc q assume d: "d < 2" and q: "tbl m root d vc = Some q"
    then have "q \<noteq> p" using no_aliasD [OF na, of d 2 vc q va] p by auto
    then show "ent m' q (px d vc) = ent m q (px d vc)" using ent [OF tables_I [OF _ q]] d by simp
  qed
  then show "e \<le> 2 \<Longrightarrow> tbl m' root e vb = tbl m root e vb" .
  show "pte_of m' root vb = (if same_path 3 va vb then v else pte_of m root vb)"
  proof (cases "tbl m root 2 vb")
    case None
    then have "\<not> same_path 3 va vb" using p tbl_cong [of 2 va vb m root]
      by (auto simp: same_path_Suc numeral_3_eq_3 numeral_2_eq_2)
    with None upper show ?thesis by (simp add: pte_of_def)
  next
    case (Some q)
    have "q = p \<longleftrightarrow> same_path 2 va vb" using no_aliasD [OF na, of 2 2 va p vb] p Some tbl_cong [of 2 va vb m root] by auto
    then have "(q = p \<and> px 2 vb = px 2 va) \<longleftrightarrow> same_path 3 va vb"
      using same_path_Suc [of 2 va vb] by (auto simp: numeral_3_eq_3)
    with Some upper ent [OF tables_I [OF _ Some] px_less] show ?thesis by (simp add: pte_of_def)
  qed
qed

section \<open>Adding a table page\<close>

lemma PTE_V_test: "x AND PTE_V \<noteq> 0 \<longleftrightarrow> bit x 0"
  by (simp only: PTE_V_def push_bit_of_1 and_exp_eq_0_iff_not_bit not_not)

lemma table_entry:
  assumes "pg_aligned pg" "unat pg < 2 ^ 56"
  shows "(PA2PTE pg OR PTE_V) AND PTE_V \<noteq> 0" "PTE2PA (PA2PTE pg OR PTE_V) = pg"
  using PTE2PA_entry [OF assms, of PTE_V] by (simp_all add: PTE_V_test bit_simps PTE_V_def)

lemma add_table:
  assumes na: "no_alias m root" and al: "\<forall>q\<in>tables m root. pg_aligned q"
    and p: "tbl m root d va = Some p" "d < 2" and inv: "ent m p (px d va) AND PTE_V = 0"
    and pg: "pg_aligned pg" "unat pg < 2 ^ 56" "pg \<notin> tables m root"
  defines "m' \<equiv> st64 (memset m pg 0 PGSIZE) (p + 8 * of_nat (px d va)) (PA2PTE pg OR PTE_V)"
  shows "e \<le> 2 \<Longrightarrow> tbl m' root e vb = (if d < e \<and> same_path (Suc d) va vb then (if e = Suc d then Some pg else None)
      else tbl m root e vb)"
    and "pte_of m' root vb = pte_of m root vb"
proof -
  have pa: "pg_aligned p" and pgp: "pg \<noteq> p" using al pg(3) tables_I [OF _ p(1)] p(2) by auto
  have ent: "ent m' q j = (if q = p \<and> j = px d va then PA2PTE pg OR PTE_V else ent m q j)"
    if "q \<in> tables m root" "j < 512" for q j
  proof -
    have "pg_aligned q" "q \<noteq> pg" using that(1) al pg(3) by auto
    then show ?thesis unfolding m'_def using ent_st64 [OF pa _ px_less that(2)] ent_memset [OF pg(1) _ that(2)]
      by (simp del: PGSIZE_def)
  qed
  have new: "ent m' pg j = 0" if "j < 512" for j
    unfolding m'_def using ent_st64 [OF pa pg(1) px_less that] ent_memset [OF pg(1) pg(1) that] pgp
    by (simp del: PGSIZE_def)
  show T: "tbl m' root e vb = (if d < e \<and> same_path (Suc d) va vb then (if e = Suc d then Some pg else None)
      else tbl m root e vb)" if "e \<le> 2" for e vb
    using that
  proof (induction e)
    case (Suc e)
    show ?case
    proof (cases "d < e \<and> same_path (Suc d) va vb")
      case True
      with Suc show ?thesis using new [OF px_less] by auto
    next
      case False
      then have IH: "tbl m' root e vb = tbl m root e vb" using Suc by auto
      show ?thesis
      proof (cases "tbl m root e vb")
        case None
        have "\<not> (d < Suc e \<and> same_path (Suc d) va vb)"
        proof
          assume "d < Suc e \<and> same_path (Suc d) va vb"
          with False have "d = e" "same_path d va vb" by (auto simp: same_path_Suc)
          with None p(1) tbl_cong show False by (metis option.distinct(1))
        qed
        with None IH show ?thesis by simp
      next
        case (Some q)
        have qt: "q \<in> tables m root" using tables_I [OF _ Some] Suc.prems by simp
        have "q = p \<longleftrightarrow> e = d \<and> same_path d va vb"
          using no_aliasD [OF na _ _ p(1), of e vb] p Some Suc.prems tbl_cong [of d va vb m root] by auto
        then have key: "q = p \<and> px e vb = px d va \<longleftrightarrow> e = d \<and> same_path (Suc d) va vb"
          by (auto simp: same_path_Suc)
        show ?thesis
        proof (cases "e = d \<and> same_path (Suc d) va vb")
          case True
          then have "tbl m' root (Suc e) vb = Some pg"
            using IH Some ent [OF qt px_less, of e vb] key table_entry [OF pg(1,2)] by simp
          with True show ?thesis by simp
        next
          case notnew: False
          then have "ent m' q (px e vb) = ent m q (px e vb)" using ent [OF qt px_less, of e vb] key by auto
          then have "tbl m' root (Suc e) vb = tbl m root (Suc e) vb" using IH Some by simp
          with notnew False show ?thesis by (auto simp: less_Suc_eq)
        qed
      qed
    qed
  qed simp
  show "pte_of m' root vb = pte_of m root vb"
  proof (cases "same_path (Suc d) va vb")
    case True
    have "tbl m root (Suc d) va = None" using p(1) inv by simp
    then have "tbl m root (Suc d) vb = None" using tbl_cong [OF True] by metis
    then have "tbl m root 2 vb = None" using p(2) tbl_Suc_None [of m root "Suc d" vb 2] by simp
    then show ?thesis using T [of 2 vb] True p(2) new [OF px_less] by (auto simp: pte_of_def)
  next
    case False
    then have same: "tbl m' root 2 vb = tbl m root 2 vb" using T [of 2 vb] by simp
    show ?thesis
    proof (cases "tbl m root 2 vb")
      case (Some q)
      then have "q \<noteq> p" using no_aliasD [OF na _ _ p(1), of 2 vb] p(2) by auto
      then show ?thesis using same Some ent [OF tables_I [OF _ Some] px_less] by (simp add: pte_of_def)
    qed (simp add: same pte_of_def)
  qed
qed

section \<open>walk\<close>

text \<open>Without allocation \<^verbatim>\<open>walk\<close> only reads.\<close>

lemma walk_loop_lookup:
  "l \<le> 2 \<Longrightarrow> tbl (mem s) root (2 - l) va = Some p \<Longrightarrow>
    walk_loop l p va False s = Ok (case tbl (mem s) root 2 va of None \<Rightarrow> 0 | Some q \<Rightarrow> pte_addr q 0 va) s"
proof (induction l arbitrary: p)
  case 0
  then show ?case by (simp add: run_simps)
next
  case (Suc l)
  define d where "d = 2 - Suc l"
  have d: "Suc d = 2 - l" "2 - d = Suc l" "d < 2" using Suc.prems(1) by (simp_all add: d_def)
  have t: "tbl (mem s) root d va = Some p" using Suc.prems(2) d_def by simp
  have e: "ld64 (mem s) (pte_addr p (Suc l) va) = ent (mem s) p (px d va)"
    using ent_pte_addr [of "mem s" p d va] by (simp only: d(2))
  show ?case
  proof (cases "ent (mem s) p (px d va) AND PTE_V = 0")
    case True
    then have "tbl (mem s) root (Suc d) va = None" using t by simp
    then have "tbl (mem s) root 2 va = None" using d tbl_Suc_None [of "mem s" root "Suc d" va 2] by simp
    with True show ?thesis by (simp add: run_simps e)
  next
    case False
    then have "tbl (mem s) root (2 - l) va = Some (PTE2PA (ent (mem s) p (px d va)))" using t d(1)
      by (simp flip: d(1))
    with Suc.IH [OF _ this] Suc.prems(1) False show ?thesis by (simp add: run_simps e)
  qed
qed

lemma walk_low: "va < MAXVA \<Longrightarrow> walk root va alloc = walk_loop 2 root va alloc"
  unfolding walk_def by (rule if_not_P) (simp add: not_le)

lemma walk_lookup:
  "va < MAXVA \<Longrightarrow> walk root va False s =
    Ok (case tbl (mem s) root 2 va of None \<Rightarrow> 0 | Some q \<Rightarrow> pte_addr q 0 va) s"
  using walk_loop_lookup [of 2 s root va root] by (simp add: walk_low)

lemma walkaddr_low:
  "va < MAXVA \<Longrightarrow> walkaddr root va = bind (walk root va False) (\<lambda>pte.
        if pte = 0 then ret 0
        else bind (gets (\<lambda>s. ld64 (mem s) pte)) (\<lambda>e.
          if e AND PTE_V = 0 then ret 0 else if e AND PTE_U = 0 then ret 0 else ret (PTE2PA e)))"
  unfolding walkaddr_def by (rule if_not_P) (simp add: not_le)

text \<open>A table of which every page is a page of RAM is not at address 0.\<close>

definition tables_ok :: "'r kmemst_scheme \<Rightarrow> u64 \<Rightarrow> bool" where
  "tables_ok s root \<longleftrightarrow> (\<forall>p\<in>tables (mem s) root. page_ok s p \<and> p \<noteq> 0)"

lemma pte_addr_nz: "pg_aligned p \<Longrightarrow> p \<noteq> 0 \<Longrightarrow> pte_addr p l va \<noteq> 0"
proof -
  assume p: "pg_aligned p" "p \<noteq> 0"
  then have "unat (p + 8 * of_nat (unat (PX l va)) + of_nat 0) = unat p + 8 * unat (PX l va) + 0"
    by (intro unat_entry_byte) (simp_all add: PX_less)
  moreover have "0 < unat p" using p(2) by (simp add: unat_gt_0)
  ultimately show ?thesis unfolding pte_addr_def by (metis add_gr_0 add.right_neutral of_nat_0 of_nat_unat ucast_id unat_0 less_numeral_extra(3))
qed

lemma walkaddr_lookup:
  assumes "tables_ok s root"
  shows "walkaddr root va s = Ok (if va < MAXVA \<and> pte_of (mem s) root va AND PTE_V \<noteq> 0
      \<and> pte_of (mem s) root va AND PTE_U \<noteq> 0 then PTE2PA (pte_of (mem s) root va) else 0) s"
proof (cases "va < MAXVA")
  case True
  show ?thesis
  proof (cases "tbl (mem s) root 2 va")
    case None
    with True show ?thesis by (simp add: walkaddr_low run_simps walk_lookup pte_of_def)
  next
    case (Some p)
    then have "pg_aligned p" "p \<noteq> 0" using assms tables_I [OF _ Some] by (auto simp: tables_ok_def page_ok_def)
    then have "pte_addr p 0 va \<noteq> 0" by (rule pte_addr_nz)
    with True Some ent_pte_addr [of "mem s" p 2 va] show ?thesis
      by (simp add: walkaddr_low run_simps walk_lookup pte_of_def)
  qed
qed (simp add: walkaddr_def run_simps flip: not_less)

text \<open>A page table beside an allocator: its tables are RAM pages that are not free.\<close>

definition vm_ok :: "'r kmemst_scheme \<Rightarrow> u64 list \<Rightarrow> u64 \<Rightarrow> bool" where
  "vm_ok s fs root \<longleftrightarrow> kmem_ready s fs \<and> no_alias (mem s) root \<and> tables_ok s root \<and> tables (mem s) root \<inter> set fs = {}"

text \<open>The state \<open>t\<close> has the table pages \<open>us\<close> more than \<open>s\<close>, taken from the front of the free list, and
  the same leaf entries.\<close>

definition grown :: "'r kmemst_scheme \<Rightarrow> u64 list \<Rightarrow> u64 \<Rightarrow> u64 list \<Rightarrow> 'r kmemst_scheme \<Rightarrow> bool" where
  "grown s fs root us t \<longleftrightarrow> (\<exists>fs'. fs = us @ fs' \<and> vm_ok t fs' root)
     \<and> tables (mem t) root = tables (mem s) root \<union> set us \<and> page_ok t = page_ok s
     \<and> (\<forall>vb. pte_of (mem t) root vb = pte_of (mem s) root vb)
     \<and> (\<forall>x. page_of x \<notin> page_of ` (tables (mem s) root \<union> set us) \<longrightarrow> mem t x = mem s x)"

lemma grown_refl: "vm_ok s fs root \<Longrightarrow> grown s fs root [] s"
  by (simp add: grown_def)

lemma page_ok_56: "page_ok s p \<Longrightarrow> pg_aligned p \<and> unat p < 2 ^ 56"
  by (auto simp: page_ok_def word_less_nat_alt PHYSTOP_num)

lemma kmem_ready_mem_cong:
  assumes "kmem_ready s fs" "\<And>x. page_of x \<in> page_of ` set fs \<Longrightarrow> m x = mem s x"
  shows "kmem_ready (s\<lparr>mem := m\<rparr>) fs"
proof -
  have "run_list m (freelist s) fs = run_list (mem s) (freelist s) fs"
    using assms by (intro run_list_cong ld64_same_page) (auto simp: kmem_ready_def page_ok_def)
  with assms(1) show ?thesis by (simp add: kmem_ready_def)
qed

lemma page_of_set: "\<forall>p\<in>insert q A. pg_aligned p \<Longrightarrow> page_of q \<in> page_of ` A \<longleftrightarrow> q \<in> A"
  by (auto simp: image_iff page_of_eq_iff)

text \<open>One step of \<^verbatim>\<open>walk\<close>: a fresh page becomes the table below \<open>p\<close>.\<close>

lemma grow_step:
  assumes ok: "vm_ok s (pg # fs) root" and p: "tbl (mem s) root d va = Some p" "d < 2"
    and inv: "ent (mem s) p (px d va) AND PTE_V = 0"
    and t: "kmem_ready t fs" "page_ok t = page_ok s" "\<And>x. page_of x \<noteq> page_of pg \<Longrightarrow> mem t x = mem s x"
  defines "u \<equiv> t\<lparr>mem := st64 (memset (mem t) pg 0 PGSIZE) (p + 8 * of_nat (px d va)) (PA2PTE pg OR PTE_V)\<rparr>"
  shows "grown s (pg # fs) root [pg] u" and "tbl (mem u) root (Suc d) va = Some pg"
proof -
  have al: "\<forall>q\<in>tables (mem s) root. pg_aligned q \<and> q \<noteq> 0" and na: "no_alias (mem s) root"
    and kr: "kmem_ready s (pg # fs)" and dj: "tables (mem s) root \<inter> set (pg # fs) = {}"
    using ok by (auto simp: vm_ok_def tables_ok_def page_ok_def)
  have pgok: "page_ok s pg" "pg \<noteq> 0" "pg \<notin> set fs" using kmem.frees_valid [OF kr] by auto
  have fsal: "\<forall>q\<in>set fs. pg_aligned q" using kmem.frees_valid [OF kr] by (auto simp: page_ok_def)
  have pgal: "pg_aligned pg" "unat pg < 2 ^ 56" using page_ok_56 [OF pgok(1)] by auto
  have pt: "p \<in> tables (mem s) root" and pal: "pg_aligned p" using tables_I [OF _ p(1)] p(2) al by auto
  have pgnt: "pg \<notin> tables (mem s) root" using dj by auto
  have base: "memset (mem t) pg 0 PGSIZE = memset (mem s) pg 0 PGSIZE"
    using t(3) pgal by (auto simp: fun_eq_iff memset_page simp del: PGSIZE_def)
  have mu: "mem u = st64 (memset (mem s) pg 0 PGSIZE) (p + 8 * of_nat (px d va)) (PA2PTE pg OR PTE_V)"
    by (simp add: u_def base del: PGSIZE_def)
  have al': "\<forall>q\<in>tables (mem s) root. pg_aligned q" using al by blast
  note A = add_table [OF na al' p inv pgal pgnt]
  note T = A(1) [folded mu]
  show new: "tbl (mem u) root (Suc d) va = Some pg" using T [of "Suc d" va] p(2) by simp
  have unch: "mem u x = mem s x" if "page_of x \<noteq> page_of pg" "page_of x \<noteq> page_of p" for x
    unfolding mu using that pal pgal by (simp add: st64_entry_other memset_page del: PGSIZE_def)
  have tabs: "tables (mem u) root = insert pg (tables (mem s) root)"
  proof (intro set_eqI iffI)
    fix q assume "q \<in> tables (mem u) root"
    then obtain e vb where "e \<le> 2" "tbl (mem u) root e vb = Some q" by (auto simp: tables_def)
    then show "q \<in> insert pg (tables (mem s) root)" using T [of e vb] tables_I by (auto split: if_splits)
  next
    fix q assume q: "q \<in> insert pg (tables (mem s) root)"
    show "q \<in> tables (mem u) root"
    proof (cases "q = pg")
      case True
      then show ?thesis using tables_I [OF _ new] p(2) by simp
    next
      case False
      then obtain e vb where e: "e \<le> 2" "tbl (mem s) root e vb = Some q" using q by (auto simp: tables_def)
      have "\<not> (d < e \<and> same_path (Suc d) va vb)"
      proof
        assume "d < e \<and> same_path (Suc d) va vb"
        moreover have "tbl (mem s) root (Suc d) va = None" using p(1) inv by simp
        ultimately show False using tbl_cong tbl_Suc_None e(2) by (metis Suc_leI option.distinct(1))
      qed
      then show ?thesis using T [OF e(1), of vb] e tables_I by auto
    qed
  qed
  have old: "tbl (mem s) root e vb = Some q" if "e \<le> 2" "tbl (mem u) root e vb = Some q" "q \<noteq> pg" for e vb q
    using T [OF that(1), of vb] that by (auto simp del: tbl.simps split: if_splits)
  have isnew: "e = Suc d \<and> same_path (Suc d) va vb" if "e \<le> 2" "tbl (mem u) root e vb = Some pg" for e vb
    using T [OF that(1), of vb] that tables_I [OF that(1), of "mem s" root vb pg] pgnt
    by (auto simp del: tbl.simps split: if_splits)
  have na': "no_alias (mem u) root"
    unfolding no_alias_def
  proof (intro allI impI)
    fix e f vb vc q assume e: "e \<le> 2" "f \<le> 2" "tbl (mem u) root e vb = Some q" "tbl (mem u) root f vc = Some q"
    show "e = f \<and> same_path e vb vc"
    proof (cases "q = pg")
      case True
      with isnew [of e vb] isnew [of f vc] e show ?thesis using same_path_sym same_path_trans by blast
    next
      case False
      with old [of e vb q] old [of f vc q] e show ?thesis using no_aliasD [OF na e(1,2)] by blast
    qed
  qed
  have "kmem_ready u fs"
    unfolding u_def
  proof (rule kmem_ready_mem_cong [OF t(1)])
    fix x assume x: "page_of x \<in> page_of ` set fs"
    have "page_of pg \<notin> page_of ` set fs" "page_of p \<notin> page_of ` set fs"
      using page_of_set [of pg "set fs"] page_of_set [of p "set fs"] fsal pgal pal pgok(3) dj pt by auto
    with x have "page_of x \<noteq> page_of pg" "page_of x \<noteq> page_of p" by auto
    then show "st64 (memset (mem t) pg 0 PGSIZE) (p + 8 * of_nat (px d va)) (PA2PTE pg OR PTE_V) x = mem t x"
      using pal pgal by (simp add: st64_entry_other memset_page del: PGSIZE_def)
  qed
  moreover have pu: "page_ok u = page_ok s" using t(2) by (simp add: u_def)
  moreover have "tables_ok u root" using ok pgok pu tabs by (auto simp: tables_ok_def vm_ok_def)
  ultimately have "vm_ok u fs root" using na' tabs dj pgok(3) by (auto simp: vm_ok_def)
  with tabs pu A(2) [folded mu] unch pt show "grown s (pg # fs) root [pg] u" by (auto simp: grown_def)
qed

lemma grown_trans:
  assumes "grown s (us @ fs) root us t" "grown t fs root vs u"
  shows "grown s (us @ fs) root (us @ vs) u"
proof -
  have tb: "tables (mem t) root = tables (mem s) root \<union> set us" using assms(1) by (simp add: grown_def)
  have "mem u x = mem s x" if x: "page_of x \<notin> page_of ` (tables (mem s) root \<union> set (us @ vs))" for x
  proof -
    have "page_of x \<notin> page_of ` (tables (mem t) root \<union> set vs)" using x tb by auto
    then have "mem u x = mem t x" using assms(2) by (simp add: grown_def)
    also have "\<dots> = mem s x" using assms(1) x unfolding grown_def by auto
    finally show ?thesis .
  qed
  with assms tb show ?thesis by (auto simp: grown_def)
qed

lemma grown_vm_ok: "grown s (us @ fs) root us t \<Longrightarrow> vm_ok t fs root"
  by (auto simp: grown_def)

lemma grown_prefix: "grown s fs root us t \<Longrightarrow> \<exists>fs'. fs = us @ fs'"
  by (auto simp: grown_def)

lemma walk_loop_alloc:
  assumes "l \<le> 2" "vm_ok s fs root" "tbl (mem s) root (2 - l) va = Some p"
  shows "\<exists>a us t. walk_loop l p va True s = Ok a t \<and> grown s fs root us t
    \<and> (a = 0 \<and> us = fs \<and> length us < l \<or> (\<exists>q. tbl (mem t) root 2 va = Some q \<and> a = pte_addr q 0 va) \<and> length us \<le> l)"
  using assms
proof (induction l arbitrary: p s fs)
  case 0
  then show ?case using grown_refl [OF 0(2)] by (auto simp: run_simps)
next
  case (Suc l)
  define d where "d = 2 - Suc l"
  have d: "Suc d = 2 - l" "2 - d = Suc l" "d < 2" "l \<le> 2" using Suc.prems(1) by (simp_all add: d_def)
  have tp: "tbl (mem s) root d va = Some p" using Suc.prems(3) d_def by simp
  have e: "ld64 (mem s) (pte_addr p (Suc l) va) = ent (mem s) p (px d va)"
    and a: "pte_addr p (Suc l) va = p + 8 * of_nat (px d va)"
    using ent_pte_addr [of "mem s" p d va] by (simp_all only: d(2)) (simp add: pte_addr_def px_def d(2))
  show ?case
  proof (cases "ent (mem s) p (px d va) AND PTE_V = 0")
    case False
    then have "tbl (mem s) root (2 - l) va = Some (PTE2PA (ent (mem s) p (px d va)))"
      using tp by (simp flip: d(1))
    from Suc.IH [OF d(4) Suc.prems(2) this] False show ?thesis by (simp add: run_simps e) (metis le_Suc_eq less_Suc_eq)
  next
    case inv: True
    have kr: "kmem_ready s fs" using Suc.prems(2) by (simp add: vm_ok_def)
    show ?thesis
    proof (cases fs)
      case Nil
      obtain t where t: "kalloc s = Ok 0 t" "kmem_ready t []" "mem t = mem s" "page_ok t = page_ok s"
        using kmem.alloc_none [of s] kr Nil by (auto simp: wp_iff)
      then have "vm_ok t [] root" using Suc.prems(2) Nil by (simp add: vm_ok_def tables_ok_def)
      then have "grown s fs root [] t" using t Nil by (simp add: grown_def)
      with inv t Nil show ?thesis by (auto simp: run_simps e)
    next
      case (Cons pg fs')
      have nz: "pg \<noteq> 0" using kmem.frees_valid [OF kr] Cons by simp
      obtain t where t: "kalloc s = Ok pg t" "kmem_ready t fs'" "page_ok t = page_ok s"
          "\<And>x. page_of x \<noteq> page_of pg \<Longrightarrow> mem t x = mem s x"
        using kmem.alloc_page [of s pg fs'] kr Cons by (auto simp: wp_iff)
      define u where "u = t\<lparr>mem := st64 (memset (mem t) pg 0 PGSIZE) (p + 8 * of_nat (px d va)) (PA2PTE pg OR PTE_V)\<rparr>"
      have g: "grown s fs root [pg] u" and n: "tbl (mem u) root (2 - l) va = Some pg"
        using grow_step [OF _ tp d(3) inv t(2,3,4)] Suc.prems(2) Cons unfolding u_def by (simp_all flip: d(1))
      have vu: "vm_ok u fs' root" using grown_vm_ok [of s "[pg]" fs' root u] g Cons by simp
      from Suc.IH [OF d(4) vu n] obtain b us w where
        w: "walk_loop l pg va True u = Ok b w" "grown u fs' root us w"
          "b = 0 \<and> us = fs' \<and> length us < l \<or> (\<exists>q. tbl (mem w) root 2 va = Some q \<and> b = pte_addr q 0 va) \<and> length us \<le> l"
        by blast
      have gw: "grown s fs root (pg # us) w" using grown_trans [of s "[pg]" fs' root u us w] g w(2) Cons by simp
      have "walk_loop (Suc l) p va True s = Ok b w"
        using inv nz t(1) w(1) by (simp add: run_simps e [unfolded a] a u_def)
      with gw w(3) Cons show ?thesis by (intro exI [of _ b] exI [of _ "pg # us"] exI [of _ w]) auto
    qed
  qed
qed

lemma walk_alloc:
  assumes "va < MAXVA" "vm_ok s fs root"
  shows "\<exists>a us t. walk root va True s = Ok a t \<and> grown s fs root us t
    \<and> (a = 0 \<and> us = fs \<and> length us < 2 \<or> (\<exists>q. tbl (mem t) root 2 va = Some q \<and> a = pte_addr q 0 va) \<and> length us \<le> 2)"
  using walk_loop_alloc [of 2 s fs root va root] assms by (simp add: walk_low)

section \<open>mappages\<close>

text \<open>As \<open>grown\<close>, with the leaf entries of \<open>t\<close> given by \<open>f\<close>.\<close>

definition remapped :: "'r kmemst_scheme \<Rightarrow> u64 list \<Rightarrow> u64 \<Rightarrow> u64 list \<Rightarrow> (u64 \<Rightarrow> u64) \<Rightarrow> 'r kmemst_scheme \<Rightarrow> bool" where
  "remapped s fs root us f t \<longleftrightarrow> (\<exists>fs'. fs = us @ fs' \<and> vm_ok t fs' root)
     \<and> tables (mem t) root = tables (mem s) root \<union> set us \<and> page_ok t = page_ok s
     \<and> (\<forall>vb<MAXVA. pte_of (mem t) root vb = f vb)
     \<and> (\<forall>x. page_of x \<notin> page_of ` (tables (mem s) root \<union> set us) \<longrightarrow> mem t x = mem s x)"

lemma grown_remapped: "grown s fs root us t \<Longrightarrow> remapped s fs root us (pte_of (mem s) root) t"
  by (auto simp: grown_def remapped_def)

lemma remapped_trans:
  assumes "remapped s (us @ fs) root us f t" "remapped t fs root vs g u"
  shows "remapped s (us @ fs) root (us @ vs) g u"
proof -
  have tb: "tables (mem t) root = tables (mem s) root \<union> set us" using assms(1) by (simp add: remapped_def)
  have "mem u x = mem s x" if x: "page_of x \<notin> page_of ` (tables (mem s) root \<union> set (us @ vs))" for x
  proof -
    have "page_of x \<notin> page_of ` (tables (mem t) root \<union> set vs)" using x tb by auto
    then have "mem u x = mem t x" using assms(2) by (simp add: remapped_def)
    also have "\<dots> = mem s x" using assms(1) x unfolding remapped_def by auto
    finally show ?thesis .
  qed
  with assms tb show ?thesis by (auto simp: remapped_def)
qed

lemma remapped_cong:
  "remapped s fs root us f t \<Longrightarrow> (\<And>vb. vb < MAXVA \<Longrightarrow> f vb = g vb) \<Longrightarrow> remapped s fs root us g t"
  by (simp add: remapped_def)

lemma leaf_step:
  fixes v :: u64
  assumes ok: "vm_ok s fs root" and va: "va < MAXVA" and q: "tbl (mem s) root 2 va = Some q"
  defines "u \<equiv> s\<lparr>mem := st64 (mem s) (pte_addr q 0 va) v\<rparr>"
  shows "remapped s fs root [] (\<lambda>vb. if page_of vb = page_of va then v else pte_of (mem s) root vb) u"
proof -
  have al: "\<forall>p\<in>tables (mem s) root. pg_aligned p" and na: "no_alias (mem s) root" and kr: "kmem_ready s fs"
    and dj: "tables (mem s) root \<inter> set fs = {}" using ok by (auto simp: vm_ok_def tables_ok_def page_ok_def)
  have qt: "q \<in> tables (mem s) root" using tables_I [OF _ q] by simp
  have mu: "mem u = st64 (mem s) (q + 8 * of_nat (px 2 va)) v" by (simp add: u_def pte_addr_def px_def)
  note W = write_leaf [OF na al q, where v = v, folded mu]
  have T: "e \<le> 2 \<Longrightarrow> tbl (mem u) root e vb = tbl (mem s) root e vb" for e vb using W(1) .
  have unch: "mem u x = mem s x" if "page_of x \<noteq> page_of q" for x
    unfolding mu using that al qt by (simp add: st64_entry_other)
  have "kmem_ready u fs" unfolding u_def
  proof (rule kmem_ready_mem_cong [OF kr])
    fix x assume x: "page_of x \<in> page_of ` set fs"
    have "\<forall>p\<in>set fs. pg_aligned p" using kmem.frees_valid [OF kr] by (auto simp: page_ok_def)
    then have "page_of q \<notin> page_of ` set fs" using page_of_set [of q "set fs"] al qt dj by auto
    with x have "page_of x \<noteq> page_of q" by auto
    with unch show "st64 (mem s) (pte_addr q 0 va) v x = mem s x" by (simp add: u_def)
  qed
  moreover have tabs: "tables (mem u) root = tables (mem s) root" by (rule tables_same [OF T])
  moreover have "no_alias (mem u) root" by (rule no_alias_same [OF T na])
  moreover have pu: "page_ok u = page_ok s" by (simp add: u_def)
  ultimately have "vm_ok u fs root" using ok by (simp add: vm_ok_def tables_ok_def)
  moreover have "pte_of (mem u) root vb = (if page_of vb = page_of va then v else pte_of (mem s) root vb)" if "vb < MAXVA" for vb
    using W(2) [of vb] same_path_page [OF va that] by auto
  ultimately show ?thesis using tabs pu unch qt by (auto simp: remapped_def)
qed

text \<open>The entries after \<open>j\<close> pages from \<open>a\<close> are mapped to the pages from \<open>pa\<close>.\<close>

definition mapping :: "(u64 \<Rightarrow> u64) \<Rightarrow> u64 \<Rightarrow> u64 \<Rightarrow> u64 \<Rightarrow> nat \<Rightarrow> u64 \<Rightarrow> u64" where
  "mapping old a pa perm j vb =
     (if unat a \<le> unat vb \<and> unat vb < unat a + 4096 * j
      then PA2PTE (pa + of_nat (4096 * ((unat vb - unat a) div 4096))) OR perm OR PTE_V else old vb)"

lemma mapping_0: "mapping old a pa perm 0 = old"
  by (rule ext) (auto simp: mapping_def)

lemma mapping_old: "old vb = old' vb \<Longrightarrow> mapping old a pa perm j vb = mapping old' a pa perm j vb"
  by (simp add: mapping_def)

lemma in_page_range: "pg_aligned a \<Longrightarrow> page_of vb = page_of a \<longleftrightarrow> unat a \<le> unat vb \<and> unat vb < unat a + 4096"
proof -
  assume "pg_aligned a"
  then obtain c where c: "unat a = 4096 * c" unfolding pg_aligned_unat by (metis mod_0_imp_dvd dvdE)
  have "page_of vb = page_of a \<longleftrightarrow> unat vb div 4096 = c" by (auto simp: word_unat_eq_iff unat_page_of c)
  also have "\<dots> \<longleftrightarrow> 4096 * c \<le> unat vb \<and> unat vb < 4096 * c + 4096" by auto
  finally show ?thesis by (simp add: c)
qed

lemma mapping_1:
  "pg_aligned a \<Longrightarrow> mapping old a pa perm 1 = (\<lambda>vb. if page_of vb = page_of a then PA2PTE pa OR perm OR PTE_V else old vb)"
  by (auto simp: mapping_def fun_eq_iff in_page_range)

lemma mapping_Suc:
  assumes "pg_aligned a" "unat (a + 4096) = unat a + 4096"
  shows "mapping (mapping old a pa perm 1) (a + 4096) (pa + 4096) perm j vb = mapping old a pa perm (Suc j) vb"
proof (cases "unat a + 4096 \<le> unat vb")
  case True
  then obtain k where k: "unat vb = unat a + 4096 + k" by (metis le_Suc_ex)
  have "(4096 + k) div 4096 = Suc (k div 4096)" by simp
  then have e: "pa + 4096 + of_nat (4096 * (k div 4096)) = pa + of_nat (4096 * ((4096 + k) div 4096))"
    by (simp add: algebra_simps)
  have d: "unat vb - unat a = 4096 + k" "unat vb - (unat a + 4096) = k" using k by simp_all
  show ?thesis unfolding mapping_def assms(2) d e using k by simp
next
  case False
  then show ?thesis using assms(2) by (auto simp: mapping_def)
qed

lemma map_step:
  fixes v :: u64
  assumes ok: "vm_ok s fs root" and a: "a < MAXVA" and inv: "pte_of (mem s) root a AND PTE_V = 0"
  shows "(\<exists>t. walk root a True s = Ok 0 t \<and> length fs < 2 \<and> remapped s fs root fs (pte_of (mem s) root) t)
    \<or> (\<exists>us p t. walk root a True s = Ok p t \<and> length us \<le> 2 \<and> p \<noteq> 0 \<and> ld64 (mem t) p AND PTE_V = 0
        \<and> remapped s fs root us (\<lambda>vb. if page_of vb = page_of a then v else pte_of (mem s) root vb)
            (t\<lparr>mem := st64 (mem t) p v\<rparr>))"
proof -
  obtain p us t where w: "walk root a True s = Ok p t" and g: "grown s fs root us t"
    and p: "p = 0 \<and> us = fs \<and> length us < 2 \<or> (\<exists>q. tbl (mem t) root 2 a = Some q \<and> p = pte_addr q 0 a) \<and> length us \<le> 2"
    using walk_alloc [OF a ok] by blast
  from p show ?thesis
  proof
    assume "p = 0 \<and> us = fs \<and> length us < 2"
    with w grown_remapped [OF g] show ?thesis by auto
  next
    assume "(\<exists>q. tbl (mem t) root 2 a = Some q \<and> p = pte_addr q 0 a) \<and> length us \<le> 2"
    then obtain q where q: "tbl (mem t) root 2 a = Some q" "p = pte_addr q 0 a" and le: "length us \<le> 2" by blast
    obtain fs' where fs: "fs = us @ fs'" and vt: "vm_ok t fs' root" using g by (auto simp: grown_def)
    have pg: "pte_of (mem t) root vb = pte_of (mem s) root vb" for vb using g by (simp add: grown_def)
    have "pg_aligned q" "q \<noteq> 0" using vt tables_I [OF _ q(1)] by (auto simp: vm_ok_def tables_ok_def page_ok_def)
    then have "p \<noteq> 0" using q(2) pte_addr_nz by simp
    moreover have "ld64 (mem t) p AND PTE_V = 0"
      using inv pg [of a] q ent_pte_addr [of "mem t" q 2 a] by (simp add: pte_of_def)
    moreover have "remapped s fs root us (\<lambda>vb. if page_of vb = page_of a then v else pte_of (mem s) root vb)
            (t\<lparr>mem := st64 (mem t) p v\<rparr>)"
      unfolding fs q(2) using remapped_trans [OF grown_remapped [OF g [unfolded fs]] leaf_step [OF vt a q(1), of v]] pg
      by (auto elim: remapped_cong)
    ultimately show ?thesis using w le by blast
  qed
qed

lemma mappages_loop_spec:
  assumes "vm_ok s fs root" "pg_aligned a" "unat a + 4096 * Suc k \<le> 2 ^ 38" "unat alast = unat a + 4096 * k"
    and "\<And>vb. unat a \<le> unat vb \<Longrightarrow> unat vb < unat a + 4096 * Suc k \<Longrightarrow> pte_of (mem s) root vb AND PTE_V = 0"
  shows "\<exists>j r us t. mappages_loop root a alast pa perm s = Ok r t
    \<and> remapped s fs root us (mapping (pte_of (mem s) root) a pa perm j) t
    \<and> (r = 0 \<and> j = Suc k \<or> r = - 1 \<and> j \<le> k \<and> us = fs \<and> length fs < 2 * Suc k)"
  using assms
proof (induction k arbitrary: s fs a pa)
  case (0 s fs a pa)
  then have same: "a = alast" by (simp add: word_unat_eq_iff)
  have am: "a < MAXVA" using 0(3) by (simp add: word_less_nat_alt MAXVA_num)
  have inv: "pte_of (mem s) root a AND PTE_V = 0" using 0(5) by simp
  from map_step [OF 0(1) am inv, of "PA2PTE pa OR perm OR PTE_V"] show ?case
  proof (elim disjE exE conjE)
    fix t assume "walk root a True s = Ok 0 t" "length fs < 2" "remapped s fs root fs (pte_of (mem s) root) t"
    then show ?case
      by (intro exI [of _ 0] exI [of _ "- 1"] exI [of _ fs] exI [of _ t])
        (simp add: mappages_loop.simps [of root a] mapping_0)
  next
    fix us p t assume "walk root a True s = Ok p t" "length us \<le> 2" "p \<noteq> 0" "ld64 (mem t) p AND PTE_V = 0"
      "remapped s fs root us (\<lambda>vb. if page_of vb = page_of a then PA2PTE pa OR perm OR PTE_V else pte_of (mem s) root vb)
         (t\<lparr>mem := st64 (mem t) p (PA2PTE pa OR perm OR PTE_V)\<rparr>)"
    moreover from this have "mappages_loop root a alast pa perm s = Ok 0 (t\<lparr>mem := st64 (mem t) p (PA2PTE pa OR perm OR PTE_V)\<rparr>)"
      by (simp add: mappages_loop.simps [of root alast] same run_simps)
    ultimately show ?case using mapping_1 [OF 0(2)] by force
  qed
next
  case (Suc k s fs a pa)
  have ne: "a \<noteq> alast" using Suc.prems(4) by auto
  have am: "a < MAXVA" using Suc.prems(3) by (simp add: word_less_nat_alt MAXVA_num)
  have ua: "unat (a + 4096) = unat a + 4096" using Suc.prems(3) by (simp add: unat_word_ariths)
  have al: "pg_aligned (a + 4096)" using Suc.prems(2) ua by (simp add: pg_aligned_unat)
  have inv: "pte_of (mem s) root a AND PTE_V = 0" using Suc.prems(5) by simp
  from map_step [OF Suc.prems(1) am inv, of "PA2PTE pa OR perm OR PTE_V"] show ?case
  proof (elim disjE exE conjE)
    fix t assume "walk root a True s = Ok 0 t" "length fs < 2" "remapped s fs root fs (pte_of (mem s) root) t"
    then show ?case
      by (intro exI [of _ 0] exI [of _ "- 1"] exI [of _ fs] exI [of _ t])
        (simp add: mappages_loop.simps [of root a] mapping_0)
  next
    fix us p t
    assume w: "walk root a True s = Ok p t" "p \<noteq> 0" "ld64 (mem t) p AND PTE_V = 0" and lu: "length us \<le> 2" and
      r1: "remapped s fs root us (\<lambda>vb. if page_of vb = page_of a then PA2PTE pa OR perm OR PTE_V else pte_of (mem s) root vb)
         (t\<lparr>mem := st64 (mem t) p (PA2PTE pa OR perm OR PTE_V)\<rparr>)"
    define u where "u = t\<lparr>mem := st64 (mem t) p (PA2PTE pa OR perm OR PTE_V)\<rparr>"
    from r1 have ru: "remapped s fs root us (mapping (pte_of (mem s) root) a pa perm 1) u"
      by (simp add: mapping_1 [OF Suc.prems(2), simplified] u_def)
    then obtain fs' where fs: "fs = us @ fs'" and vu: "vm_ok u fs' root" by (auto simp: remapped_def)
    have pu: "pte_of (mem u) root vb = mapping (pte_of (mem s) root) a pa perm 1 vb" if "vb < MAXVA" for vb
      using ru that by (simp add: remapped_def)
    have "unat (a + 4096) + 4096 * Suc k \<le> 2 ^ 38" "unat alast = unat (a + 4096) + 4096 * k"
      using Suc.prems(3,4) ua by simp_all
    moreover have "pte_of (mem u) root vb AND PTE_V = 0"
      if "unat (a + 4096) \<le> unat vb" "unat vb < unat (a + 4096) + 4096 * Suc k" for vb
    proof -
      have "vb < MAXVA" using that(2) Suc.prems(3) ua by (simp add: word_less_nat_alt MAXVA_num)
      then show ?thesis using pu [of vb] Suc.prems(5) [of vb] that ua by (simp add: mapping_def)
    qed
    ultimately obtain j r vs w where
      lp: "mappages_loop root (a + 4096) alast (pa + 4096) perm u = Ok r w"
      and rw: "remapped u fs' root vs (mapping (pte_of (mem u) root) (a + 4096) (pa + 4096) perm j) w"
      and j: "r = 0 \<and> j = Suc k \<or> r = - 1 \<and> j \<le> k \<and> vs = fs' \<and> length fs' < 2 * Suc k"
      using Suc.IH [OF vu al, of "pa + 4096"] by blast
    have "remapped u fs' root vs (mapping (pte_of (mem s) root) a pa perm (Suc j)) w"
    proof (rule remapped_cong [OF rw])
      fix vb assume "vb < MAXVA"
      from mapping_old [where old = "pte_of (mem u) root" and vb = vb
          and old' = "mapping (pte_of (mem s) root) a pa perm 1", OF pu [OF this]] mapping_Suc [OF Suc.prems(2) ua]
      show "mapping (pte_of (mem u) root) (a + 4096) (pa + 4096) perm j vb = mapping (pte_of (mem s) root) a pa perm (Suc j) vb"
        by simp
    qed
    then have "remapped s fs root (us @ vs) (mapping (pte_of (mem s) root) a pa perm (Suc j)) w"
      using remapped_trans [OF ru [unfolded fs]] fs by simp
    moreover have "mappages_loop root a alast pa perm s = Ok r w"
      using w lp ne by (simp add: mappages_loop.simps [of root a] run_simps u_def)
    ultimately show ?case using j fs lu by (intro exI [of _ "Suc j"] exI [of _ r] exI [of _ "us @ vs"] exI [of _ w]) auto
  qed
qed

section \<open>uvmunmap\<close>

text \<open>A change of memory outside the table pages leaves the table as it is.\<close>

lemma tables_frame:
  assumes al: "\<forall>q\<in>tables m root. pg_aligned q" and same: "\<And>x. page_of x \<in> page_of ` tables m root \<Longrightarrow> m' x = m x"
  shows "e \<le> 2 \<Longrightarrow> tbl m' root e vb = tbl m root e vb" and "pte_of m' root vb = pte_of m root vb"
proof -
  have ent: "ent m' q j = ent m q j" if "q \<in> tables m root" "j < 512" for q j
    using al same that by (intro ent_cong) auto
  have T: "tbl m' root e vb = tbl m root e vb" if "e \<le> 2" for e vb
    by (rule tbl_same_upper [OF _ that], rule ent [OF tables_I px_less]) simp_all
  then show "e \<le> 2 \<Longrightarrow> tbl m' root e vb = tbl m root e vb" .
  show "pte_of m' root vb = pte_of m root vb"
    using T [of 2 vb] ent [OF tables_I [of 2 m root vb]] by (auto simp: pte_of_def split: option.split)
qed

lemma vm_ok_aligned: "vm_ok s fs root \<Longrightarrow> q \<in> tables (mem s) root \<Longrightarrow> pg_aligned q \<and> q \<noteq> 0"
  by (auto simp: vm_ok_def tables_ok_def page_ok_def)

lemma vm_ok_frame:
  assumes ok: "vm_ok s fs root" and t: "kmem_ready t fs'" "page_ok t = page_ok s"
    and dj: "tables (mem s) root \<inter> set fs' = {}"
    and same: "\<And>x. page_of x \<in> page_of ` tables (mem s) root \<Longrightarrow> mem t x = mem s x"
  shows "vm_ok t fs' root" and "pte_of (mem t) root vb = pte_of (mem s) root vb"
    and "tables (mem t) root = tables (mem s) root" and "tbl (mem t) root 2 vb = tbl (mem s) root 2 vb"
proof -
  have al: "\<forall>q\<in>tables (mem s) root. pg_aligned q" using vm_ok_aligned [OF ok] by blast
  note F = tables_frame [OF al same]
  show tb: "tables (mem t) root = tables (mem s) root" by (rule tables_same [OF F(1)])
  show "pte_of (mem t) root vb = pte_of (mem s) root vb" by (rule F(2))
  show "tbl (mem t) root 2 vb = tbl (mem s) root 2 vb" using F(1) [of 2 vb] by simp
  have "no_alias (mem t) root" using ok by (intro no_alias_same [OF F(1)]) (auto simp: vm_ok_def)
  with tb t dj ok show "vm_ok t fs' root" by (simp add: vm_ok_def tables_ok_def)
qed

lemma kfree_vm_ok:
  assumes ok: "vm_ok s fs root" and p: "page_ok s p" "p \<notin> set fs" "p \<notin> tables (mem s) root"
  shows "\<exists>t. kfree p s = Ok () t \<and> vm_ok t (p # fs) root \<and> page_ok t = page_ok s
    \<and> tables (mem t) root = tables (mem s) root \<and> (\<forall>vb. pte_of (mem t) root vb = pte_of (mem s) root vb)
    \<and> (\<forall>vb. tbl (mem t) root 2 vb = tbl (mem s) root 2 vb)
    \<and> (\<forall>x. page_of x \<noteq> page_of p \<longrightarrow> mem t x = mem s x)"
proof -
  have kr: "kmem_ready s fs" using ok by (simp add: vm_ok_def)
  obtain t where t: "kfree p s = Ok () t" "kmem_ready t (p # fs)" "page_ok t = page_ok s"
      "\<forall>x. page_of x \<noteq> page_of p \<longrightarrow> mem t x = mem s x"
    using kmem.free_page [OF kr p(1,2)] by (auto simp: wp_iff)
  have dj: "tables (mem s) root \<inter> set (p # fs) = {}" using ok p(3) by (auto simp: vm_ok_def)
  have "page_of p \<notin> page_of ` tables (mem s) root"
    using page_of_set [of p "tables (mem s) root"] vm_ok_aligned [OF ok] p by (auto simp: page_ok_def)
  then have same: "mem t x = mem s x" if "page_of x \<in> page_of ` tables (mem s) root" for x
    using t(4) that by metis
  note V = vm_ok_frame [OF ok t(2,3) dj same]
  show ?thesis by (intro exI [of _ t] conjI allI) (use t V in auto)
qed

definition unmapping :: "(u64 \<Rightarrow> u64) \<Rightarrow> u64 \<Rightarrow> nat \<Rightarrow> u64 \<Rightarrow> u64" where
  "unmapping old a n vb = (if unat a \<le> unat vb \<and> unat vb < unat a + 4096 * n then 0 else old vb)"

text \<open>The physical pages of \<open>n\<close> pages from \<open>a\<close>.\<close>

definition leaves :: "(u64 \<Rightarrow> u64) \<Rightarrow> u64 \<Rightarrow> nat \<Rightarrow> u64 list" where
  "leaves pt a n = map (\<lambda>i. PTE2PA (pt (a + of_nat (4096 * i)))) [0..<n]"

lemma leaves_Suc: "leaves pt a (Suc n) = PTE2PA (pt a) # leaves pt (a + 4096) n"
  by (simp add: leaves_def upt_conv_Cons map_Suc_upt [symmetric] comp_def algebra_simps del: upt_Suc)

lemma leaves_cong: "(\<And>i. i < n \<Longrightarrow> pt (a + of_nat (4096 * i)) = pt' (a + of_nat (4096 * i))) \<Longrightarrow> leaves pt a n = leaves pt' a n"
  by (simp add: leaves_def)

lemma unmapping_Suc:
  assumes "pg_aligned a" "unat (a + 4096) = unat a + 4096"
  shows "unmapping (\<lambda>vb. if page_of vb = page_of a then 0 else old vb) (a + 4096) n vb = unmapping old a (Suc n) vb"
  using assms by (auto simp: unmapping_def in_page_range)

lemma unmapping_old: "old vb = old' vb \<Longrightarrow> unmapping old a n vb = unmapping old' a n vb"
  by (simp add: unmapping_def)

text \<open>\<open>released_to do_free ps fs\<close>: the free list after the pages \<open>ps\<close> were given back.\<close>

definition released_to :: "bool \<Rightarrow> u64 list \<Rightarrow> u64 list \<Rightarrow> u64 list" where
  "released_to do_free ps fs = (if do_free then rev ps @ fs else fs)"

lemma uvmunmap_loop_spec:
  assumes "vm_ok s fs root" "pg_aligned a" "unat a + 4096 * n \<le> 2 ^ 38" "unat alast = unat a + 4096 * n"
    and leaf: "\<And>i. i < n \<Longrightarrow> pte_of (mem s) root (a + of_nat (4096 * i)) AND PTE_V \<noteq> 0
      \<and> PTE_FLAGS (pte_of (mem s) root (a + of_nat (4096 * i))) \<noteq> PTE_V"
    and free: "do_free \<Longrightarrow> distinct (leaves (pte_of (mem s) root) a n)
      \<and> (\<forall>p\<in>set (leaves (pte_of (mem s) root) a n). page_ok s p \<and> p \<notin> set fs \<and> p \<notin> tables (mem s) root)"
  shows "\<exists>t. uvmunmap_loop root a alast do_free s = Ok () t
    \<and> vm_ok t (released_to do_free (leaves (pte_of (mem s) root) a n) fs) root
    \<and> tables (mem t) root = tables (mem s) root \<and> page_ok t = page_ok s
    \<and> (\<forall>vb<MAXVA. pte_of (mem t) root vb = unmapping (pte_of (mem s) root) a n vb)"
  using assms
proof (induction n arbitrary: s fs a)
  case (0 s fs a)
  then have "\<not> a < alast" by (simp add: word_less_nat_alt)
  with 0(1) show ?case
    by (intro exI [of _ s]) (auto simp: uvmunmap_loop.simps [of root a] released_to_def leaves_def unmapping_def)
next
  case (Suc n s fs a)
  let ?pte = "pte_of (mem s) root"
  have lt: "a < alast" using Suc.prems(4) by (simp add: word_less_nat_alt)
  have am: "a < MAXVA" using Suc.prems(3) by (simp add: word_less_nat_alt MAXVA_num)
  have ua: "unat (a + 4096) = unat a + 4096" using Suc.prems(3) by (simp add: unat_word_ariths)
  have al: "pg_aligned (a + 4096)" using Suc.prems(2) ua by (simp add: pg_aligned_unat)
  have v: "?pte a AND PTE_V \<noteq> 0" "PTE_FLAGS (?pte a) \<noteq> PTE_V" using Suc.prems(5) [of 0] by simp_all
  obtain q where q: "tbl (mem s) root 2 a = Some q" using v(1) by (auto simp: pte_of_def split: option.splits)
  have qe: "ld64 (mem s) (pte_addr q 0 a) = ?pte a" using ent_pte_addr [of "mem s" q 2 a] q by (simp add: pte_of_def)
  have w: "walk root a False s = Ok (pte_addr q 0 a) s" using q by (simp add: walk_lookup [OF am])
  have nz: "pte_addr q 0 a \<noteq> 0" using vm_ok_aligned [OF Suc.prems(1) tables_I [OF _ q]] pte_addr_nz by simp
  obtain t where t: "whenK do_free (kfree (PTE2PA (?pte a))) s = Ok () t"
      "vm_ok t (released_to do_free [PTE2PA (?pte a)] fs) root" "page_ok t = page_ok s"
      "tables (mem t) root = tables (mem s) root" "\<forall>vb. pte_of (mem t) root vb = ?pte vb"
      "\<forall>vb. tbl (mem t) root 2 vb = tbl (mem s) root 2 vb"
  proof (cases do_free)
    case True
    then have "page_ok s (PTE2PA (?pte a))" "PTE2PA (?pte a) \<notin> set fs" "PTE2PA (?pte a) \<notin> tables (mem s) root"
      using Suc.prems(6) by (simp_all add: leaves_Suc)
    from kfree_vm_ok [OF Suc.prems(1) this] True that show ?thesis by (auto simp: run_simps released_to_def)
  next
    case False
    with that [of s] Suc.prems(1) show ?thesis by (simp add: run_simps released_to_def)
  qed
  define u where "u = t\<lparr>mem := st64 (mem t) (pte_addr q 0 a) 0\<rparr>"
  let ?fs = "released_to do_free [PTE2PA (?pte a)] fs"
  have ru: "remapped t ?fs root [] (\<lambda>vb. if page_of vb = page_of a then 0 else pte_of (mem t) root vb) u"
    using leaf_step [OF t(2) am, of q 0] t(6) q unfolding u_def by simp
  then have vu: "vm_ok u ?fs root" and pu: "page_ok u = page_ok s" and tu: "tables (mem u) root = tables (mem s) root"
    and eu: "\<And>vb. vb < MAXVA \<Longrightarrow> pte_of (mem u) root vb = (if page_of vb = page_of a then 0 else ?pte vb)"
    using t by (auto simp: remapped_def)
  have old: "pte_of (mem u) root (a + 4096 + of_nat (4096 * i)) = ?pte (a + of_nat (4096 * Suc i))" if "i < n" for i
  proof -
    let ?b = "a + of_nat (4096 * Suc i)"
    have ub: "unat ?b = unat a + 4096 * Suc i" using that Suc.prems(3) by (simp add: unat_word_ariths)
    then have "?b < MAXVA" "page_of ?b \<noteq> page_of a"
      using that Suc.prems(2,3) by (auto simp: word_less_nat_alt MAXVA_num in_page_range)
    with eu show ?thesis by (simp add: algebra_simps)
  qed
  have lv: "leaves (pte_of (mem u) root) (a + 4096) n = leaves ?pte (a + 4096) n"
    using old by (intro leaves_cong) (simp add: algebra_simps)
  have "\<exists>w. uvmunmap_loop root (a + 4096) alast do_free u = Ok () w
    \<and> vm_ok w (released_to do_free (leaves (pte_of (mem u) root) (a + 4096) n) ?fs) root
    \<and> tables (mem w) root = tables (mem u) root \<and> page_ok w = page_ok u
    \<and> (\<forall>vb<MAXVA. pte_of (mem w) root vb = unmapping (pte_of (mem u) root) (a + 4096) n vb)"
  proof (rule Suc.IH [OF vu al])
    show "pte_of (mem u) root (a + 4096 + of_nat (4096 * i)) AND PTE_V \<noteq> 0
      \<and> PTE_FLAGS (pte_of (mem u) root (a + 4096 + of_nat (4096 * i))) \<noteq> PTE_V" if "i < n" for i
      unfolding old [OF that] using Suc.prems(5) [of "Suc i"] that by simp
    show "distinct (leaves (pte_of (mem u) root) (a + 4096) n)
      \<and> (\<forall>p\<in>set (leaves (pte_of (mem u) root) (a + 4096) n). page_ok u p \<and> p \<notin> set ?fs \<and> p \<notin> tables (mem u) root)"
      if do_free
      unfolding lv pu tu using Suc.prems(6) [OF that] that by (auto simp: leaves_Suc released_to_def)
  qed (use Suc.prems ua in simp_all)
  then obtain w' where W: "uvmunmap_loop root (a + 4096) alast do_free u = Ok () w'"
    "vm_ok w' (released_to do_free (leaves ?pte (a + 4096) n) ?fs) root" "tables (mem w') root = tables (mem s) root"
    "page_ok w' = page_ok s" "\<forall>vb<MAXVA. pte_of (mem w') root vb = unmapping (pte_of (mem u) root) (a + 4096) n vb"
    unfolding lv pu tu by blast
  have "uvmunmap_loop root a alast do_free s = Ok () w'"
    using lt w nz qe v t(1) W(1) by (simp add: uvmunmap_loop.simps [of root a] run_simps u_def)
  moreover have "released_to do_free (leaves ?pte (a + 4096) n) ?fs = released_to do_free (leaves ?pte a (Suc n)) fs"
    by (simp add: released_to_def leaves_Suc)
  moreover have "unmapping (pte_of (mem u) root) (a + 4096) n vb = unmapping ?pte a (Suc n) vb" if "vb < MAXVA" for vb
    using unmapping_old [where old = "pte_of (mem u) root" and vb = vb
        and old' = "\<lambda>vb. if page_of vb = page_of a then 0 else ?pte vb", OF eu [OF that]]
      unmapping_Suc [OF Suc.prems(2) ua, of ?pte n vb] by simp
  ultimately show ?case using W by (intro exI [of _ w']) auto
qed

section \<open>A fresh table\<close>

lemma fresh_table:
  assumes kr: "kmem_ready s fs" and p: "page_ok s p" "p \<notin> set fs" "p \<noteq> 0"
  defines "t \<equiv> s\<lparr>mem := memset (mem s) p 0 PGSIZE\<rparr>"
  shows "vm_ok t fs p" and "tables (mem t) p = {p}" and "pte_of (mem t) p va = 0"
proof -
  have al: "pg_aligned p" using p by (simp add: page_ok_def)
  have e: "ent (mem t) p j = 0" if "j < 512" for j using ent_memset [OF al al that] by (simp add: t_def del: PGSIZE_def)
  have T1: "tbl (mem t) p (Suc 0) vb = None" for vb using e [OF px_less] by simp
  have T: "tbl (mem t) p d vb = (if d = 0 then Some p else None)" for d vb
    using tbl_Suc_None [OF T1, of d vb] by (cases d) auto
  show tb: "tables (mem t) p = {p}" by (auto simp: tables_def T)
  show "pte_of (mem t) p va = 0" by (simp add: pte_of_def T)
  have "no_alias (mem t) p" by (auto simp: no_alias_def T same_path_def split: if_splits)
  moreover have "kmem_ready t fs" unfolding t_def
  proof (rule kmem_ready_mem_cong [OF kr])
    fix x assume x: "page_of x \<in> page_of ` set fs"
    have "\<forall>q\<in>set fs. pg_aligned q" using kmem.frees_valid [OF kr] by (auto simp: page_ok_def)
    then have "page_of p \<notin> page_of ` set fs" using page_of_set [of p "set fs"] al p(2) by auto
    with x have "page_of x \<noteq> page_of p" by auto
    then show "memset (mem s) p 0 PGSIZE x = mem s x" using al by (simp add: memset_page del: PGSIZE_def)
  qed
  ultimately show "vm_ok t fs p" using tb p by (simp add: vm_ok_def tables_ok_def) (simp add: t_def)
qed

lemma uvmcreate_page:
  assumes "kmem_ready s (p # fs)"
  shows "\<exists>t. uvmcreate s = Ok p t \<and> vm_ok t fs p \<and> tables (mem t) p = {p} \<and> (\<forall>va. pte_of (mem t) p va = 0)"
proof -
  obtain t where t: "kalloc s = Ok p t" "kmem_ready t fs" "page_ok t = page_ok s"
    using kmem.alloc_page [OF assms] by (auto simp: wp_iff)
  have p: "page_ok t p" "p \<notin> set fs" "p \<noteq> 0" using kmem.frees_valid [OF assms] t(3) by auto
  let ?u = "t\<lparr>mem := memset (mem t) p 0 PGSIZE\<rparr>"
  have "uvmcreate s = Ok p ?u" using t(1) p(3) by (simp add: uvmcreate_def run_simps)
  with fresh_table [OF t(2) p] show ?thesis by (intro exI [of _ ?u]) simp
qed

text \<open>A machine with eight pages of free memory, of which the highest became an empty table.\<close>

lemma demo_table:
  "\<exists>s::kmemst. vm_ok s [0x87FFE000, 0x87FFD000, 0x87FFC000, 0x87FFB000, 0x87FFA000, 0x87FF9000, 0x87FF8000] 0x87FFF000
    \<and> tables (mem s) 0x87FFF000 = {0x87FFF000} \<and> (\<forall>va. pte_of (mem s) 0x87FFF000 va = 0) \<and> kend s = 0x87FF8000"
proof -
  let ?s = "boot_kmem\<lparr>kend := 0x87FF8000\<rparr>"
  have "kmem_ready ?s []" using boot_kmem_ok by (simp add: kmem_ready_def boot_kmem_def kbase_extend_base)
  then obtain t :: kmemst where t: "kmem_ready t (rev (pages_from 0x87FF8000 8) @ [])" "kend t = kend ?s"
    using freerange_loop_ok [where s = ?s and ps = "[]" and p = "0x87FF8000" and k = 8]
    by (auto simp: pg_aligned_def PHYSTOP_num)
  have l: "rev (pages_from 0x87FF8000 8) @ [] = 0x87FFF000 #
      [0x87FFE000, 0x87FFD000, 0x87FFC000, 0x87FFB000, 0x87FFA000, 0x87FF9000, 0x87FF8000]"
    by (simp add: pages_from_def upt_rec)
  let ?fs = "[0x87FFE000, 0x87FFD000, 0x87FFC000, 0x87FFB000, 0x87FFA000, 0x87FF9000, 0x87FF8000]"
  have kr: "kmem_ready t (0x87FFF000 # ?fs)" using t(1) unfolding l .
  define u where "u = (cycled t)\<lparr>mem := memset (mem t) 0x87FFF000 5 PGSIZE, freelist := ld64 (mem t) 0x87FFF000\<rparr>"
  have ku: "kmem_ready u ?fs" using kalloc_page(2) [OF kr] unfolding u_def .
  have "page_ok u 0x87FFF000" using kmem.frees_valid [OF kr] by (simp add: u_def)
  from fresh_table [OF ku this] have "vm_ok (u\<lparr>mem := memset (mem u) 0x87FFF000 0 PGSIZE\<rparr>) ?fs 0x87FFF000"
    "tables (mem (u\<lparr>mem := memset (mem u) 0x87FFF000 0 PGSIZE\<rparr>)) 0x87FFF000 = {0x87FFF000}"
    "pte_of (mem (u\<lparr>mem := memset (mem u) 0x87FFF000 0 PGSIZE\<rparr>)) 0x87FFF000 va = 0" for va
    by (simp_all del: PGSIZE_def)
  moreover have "kend u = 0x87FF8000" using t(2) by (simp add: u_def)
  ultimately show ?thesis by (intro exI [of _ "u\<lparr>mem := memset (mem u) 0x87FFF000 0 PGSIZE\<rparr>"]) (simp del: PGSIZE_def)
qed

section \<open>Ranges of pages\<close>

definition npages_of :: "u64 \<Rightarrow> u64 \<Rightarrow> nat" where
  "npages_of va sz = Suc ((unat va + unat sz - 1) div 4096 - unat va div 4096)"

lemma mappages_spec:
  assumes ok: "vm_ok s fs root" and sz: "sz \<noteq> 0" "unat va + unat sz \<le> 2 ^ 38"
    and un: "\<And>vb. unat va div 4096 \<le> unat vb div 4096 \<Longrightarrow> unat vb div 4096 \<le> (unat va + unat sz - 1) div 4096
      \<Longrightarrow> pte_of (mem s) root vb AND PTE_V = 0"
  shows "\<exists>r j us t. mappages root va sz pa perm s = Ok r t
    \<and> remapped s fs root us (mapping (pte_of (mem s) root) (PGROUNDDOWN va) pa perm j) t
    \<and> (r = 0 \<and> j = npages_of va sz \<or> r = - 1 \<and> j < npages_of va sz \<and> us = fs \<and> length fs < 2 * npages_of va sz)"
proof -
  define k where "k = (unat va + unat sz - 1) div 4096 - unat va div 4096"
  have pos: "0 < unat sz" using sz(1) by (simp add: unat_gt_0)
  have "1 \<le> va + sz" using pos sz(2) by (simp add: word_le_nat_alt unat_word_ariths)
  then have "unat (va + sz - 1) = unat va + unat sz - 1"
    using sz(2) by (simp add: unat_sub) (simp add: unat_word_ariths)
  then have ul: "unat (PGROUNDDOWN (va + sz - 1)) = (unat va + unat sz - 1) div 4096 * 4096" by (simp add: unat_PGROUNDDOWN)
  have ua: "unat (PGROUNDDOWN va) = unat va div 4096 * 4096" by (rule unat_PGROUNDDOWN)
  have le: "unat va div 4096 \<le> (unat va + unat sz - 1) div 4096" using pos by (simp add: div_le_mono)
  then have last: "unat (PGROUNDDOWN (va + sz - 1)) = unat (PGROUNDDOWN va) + 4096 * k"
    unfolding ul ua k_def by (simp add: diff_mult_distrib2)
  have "(unat va + unat sz - 1) div 4096 < 2 ^ 26" using sz(2) pos by (simp add: less_mult_imp_div_less)
  then have top: "unat (PGROUNDDOWN va) + 4096 * Suc k \<le> 2 ^ 38" using last ul by simp
  have inv: "pte_of (mem s) root vb AND PTE_V = 0"
    if "unat (PGROUNDDOWN va) \<le> unat vb" "unat vb < unat (PGROUNDDOWN va) + 4096 * Suc k" for vb
  proof (rule un)
    show "unat va div 4096 \<le> unat vb div 4096" using that(1) by (simp add: ua less_eq_div_iff_mult_less_eq)
    have "unat vb < (unat va div 4096 + Suc k) * 4096" using that(2) by (simp add: ua algebra_simps)
    then have "unat vb div 4096 < unat va div 4096 + Suc k" by (simp add: less_mult_imp_div_less)
    then show "unat vb div 4096 \<le> (unat va + unat sz - 1) div 4096" using le by (simp add: k_def)
  qed
  have n: "npages_of va sz = Suc k" by (simp add: npages_of_def k_def)
  have m: "mappages root va sz pa perm = mappages_loop root (PGROUNDDOWN va) (PGROUNDDOWN (va + sz - 1)) pa perm"
    using sz(1) by (simp add: mappages_def)
  from mappages_loop_spec [OF ok pg_aligned_PGROUNDDOWN top last inv, of pa perm]
  show ?thesis unfolding n m less_Suc_eq_le by blast
qed

text \<open>The permission bits a mapping is made with, and what \<^verbatim>\<open>walkaddr\<close> reads back.\<close>

lemma unat_or_V: "unat perm < 2 ^ 10 \<Longrightarrow> unat (perm OR PTE_V) < 2 ^ 10" for perm :: u64
proof -
  assume "unat perm < 2 ^ 10"
  then have p: "take_bit 10 perm = perm" by (simp add: word_unat_eq_iff unsigned_take_bit_eq take_bit_nat_eq_self)
  have "take_bit 10 (perm OR PTE_V) = perm OR PTE_V" unfolding take_bit_or p by (simp add: PTE_V_def)
  then have "unat (perm OR PTE_V) = take_bit 10 (unat (perm OR PTE_V))" by (metis unsigned_take_bit_eq)
  then show ?thesis by (metis take_bit_nat_less_exp)
qed

lemma user_entry:
  assumes "pg_aligned pa" "unat pa < 2 ^ 56" "unat perm < 2 ^ 10" "perm AND PTE_U \<noteq> 0"
  shows "(PA2PTE pa OR perm OR PTE_V) AND PTE_V \<noteq> 0" "(PA2PTE pa OR perm OR PTE_V) AND PTE_U \<noteq> 0"
    "PTE2PA (PA2PTE pa OR perm OR PTE_V) = pa"
proof -
  have U: "x AND PTE_U \<noteq> 0 \<longleftrightarrow> bit x 4" for x
    by (simp only: PTE_U_def push_bit_of_1 and_exp_eq_0_iff_not_bit not_not)
  show "(PA2PTE pa OR perm OR PTE_V) AND PTE_V \<noteq> 0" by simp
  show "(PA2PTE pa OR perm OR PTE_V) AND PTE_U \<noteq> 0" using assms(4) unfolding U by (simp add: bit_simps)
  show "PTE2PA (PA2PTE pa OR perm OR PTE_V) = pa"
    using PTE2PA_entry [OF assms(1,2) unat_or_V [OF assms(3)]] by (simp add: or.assoc)
qed

lemma page_range:
  fixes x :: nat
  assumes "a \<le> b"
  shows "a * 4096 \<le> x \<and> x < a * 4096 + 4096 * Suc (b - a) \<longleftrightarrow> a \<le> x div 4096 \<and> x div 4096 \<le> b"
proof -
  obtain c where b: "b = a + c" using assms le_Suc_ex by blast
  have "a * 4096 + 4096 * Suc (b - a) = Suc b * 4096" by (simp add: b)
  moreover have "a * 4096 \<le> x \<longleftrightarrow> a \<le> x div 4096" by (simp add: less_eq_div_iff_mult_less_eq)
  moreover have "x < Suc b * 4096 \<longleftrightarrow> x div 4096 \<le> b" using div_less_iff_less_mult [of 4096 x "Suc b"] by auto
  ultimately show ?thesis by metis
qed

section \<open>The properties\<close>



text \<open>C6.  Removing the mappings of whole pages: if every page of the range is mapped by a leaf entry,
  \<^verbatim>\<open>uvmunmap\<close> returns; then none of the range is mapped, every other address is mapped as before and
  the table pages are the same.  With \<^verbatim>\<open>do_free\<close> the physical pages of the range are put on the free
  list, each once, and without it the free list is unchanged.\<close>

theorem uvmunmap_removes:
  assumes "vm_ok s fs root" and "pg_aligned va" "unat va + 4096 * n \<le> 2 ^ 38"
    and "\<And>i. i < n \<Longrightarrow> pte_of (mem s) root (va + of_nat (4096 * i)) AND PTE_V \<noteq> 0
      \<and> PTE_FLAGS (pte_of (mem s) root (va + of_nat (4096 * i))) \<noteq> PTE_V"
    and "do_free \<Longrightarrow> distinct (leaves (pte_of (mem s) root) va n)
      \<and> (\<forall>p\<in>set (leaves (pte_of (mem s) root) va n). page_ok s p \<and> p \<notin> set fs \<and> p \<notin> tables (mem s) root)"
  shows "\<exists>t. uvmunmap root va (of_nat n) do_free s = Ok () t
    \<and> vm_ok t (if do_free then rev (leaves (pte_of (mem s) root) va n) @ fs else fs) root
    \<and> tables (mem t) root = tables (mem s) root
    \<and> (\<forall>vb<MAXVA. pte_of (mem t) root vb =
        (if unat va \<le> unat vb \<and> unat vb < unat va + 4096 * n then 0 else pte_of (mem s) root vb))"
proof -
  have "unat (va + of_nat n * PGSIZE) = unat va + 4096 * n"
    using assms(3) by (simp add: unat_word_ariths)
  from uvmunmap_loop_spec [OF assms(1-3) this assms(4,5)]
  have "\<exists>t. uvmunmap_loop root va (va + of_nat n * PGSIZE) do_free s = Ok () t
    \<and> vm_ok t (if do_free then rev (leaves (pte_of (mem s) root) va n) @ fs else fs) root
    \<and> tables (mem t) root = tables (mem s) root
    \<and> (\<forall>vb<MAXVA. pte_of (mem t) root vb =
        (if unat va \<le> unat vb \<and> unat vb < unat va + 4096 * n then 0 else pte_of (mem s) root vb))"
    unfolding released_to_def unmapping_def by blast
  moreover have "uvmunmap root va (of_nat n) do_free = uvmunmap_loop root va (va + of_nat n * PGSIZE) do_free"
    using assms(2) by (simp add: uvmunmap_def pg_aligned_def)
  ultimately show ?thesis by metis
qed

text \<open>One page taken from the allocator and mapped at \<open>0x1000\<close>.\<close>

lemma demo_mapped:
  "\<exists>(s::kmemst) fs. vm_ok s fs 0x87FFF000 \<and> pte_of (mem s) 0x87FFF000 0x1000 = PA2PTE 0x87FFE000 OR 0x12 OR PTE_V
    \<and> page_ok s 0x87FFE000 \<and> 0x87FFE000 \<notin> set fs \<and> 0x87FFE000 \<notin> tables (mem s) 0x87FFF000"
proof -
  let ?fs = "[0x87FFD000, 0x87FFC000, 0x87FFB000, 0x87FFA000, 0x87FF9000, 0x87FF8000] :: u64 list"
  obtain s :: kmemst where s: "vm_ok s (0x87FFE000 # ?fs) 0x87FFF000" "tables (mem s) 0x87FFF000 = {0x87FFF000}"
    "\<And>va. pte_of (mem s) 0x87FFF000 va = 0" using demo_table by blast
  have kr: "kmem_ready s (0x87FFE000 # ?fs)" using s(1) by (simp add: vm_ok_def)
  obtain t :: kmemst where t: "kmem_ready t ?fs" "page_ok t = page_ok s" "\<forall>x. page_of x \<noteq> page_of 0x87FFE000 \<longrightarrow> mem t x = mem s x"
    using kmem.alloc_page [OF kr] by (auto simp: wp_iff)
  have same: "mem t x = mem s x" if "page_of x \<in> page_of ` tables (mem s) 0x87FFF000" for x
    using t(3) that by (simp add: s(2) page_of_def)
  have dj: "tables (mem s) 0x87FFF000 \<inter> set ?fs = {}" by (simp add: s(2))
  note V = vm_ok_frame [OF s(1) t(1,2) dj same]
  obtain r j us u where r: "remapped t ?fs 0x87FFF000 us (mapping (pte_of (mem t) 0x87FFF000) (PGROUNDDOWN 0x1000) 0x87FFE000 0x12 j) u"
    "r = 0 \<and> j = npages_of 0x1000 0x1000 \<or> r = - 1 \<and> j < npages_of 0x1000 0x1000 \<and> us = ?fs \<and> length ?fs < 2 * npages_of 0x1000 0x1000"
    using mappages_spec [OF V(1), where va = "0x1000" and sz = "0x1000" and pa = "0x87FFE000" and perm = "0x12"] V(2) s(3) by auto
  have j: "j = 1" using r(2) by (auto simp: npages_of_def)
  have "pte_of (mem u) 0x87FFF000 0x1000 = PA2PTE 0x87FFE000 OR 0x12 OR PTE_V"
    using r(1) unfolding remapped_def j by (simp add: mapping_def PGROUNDDOWN_def MAXVA_num)
  moreover obtain fs' where "?fs = us @ fs'" "vm_ok u fs' 0x87FFF000" using r(1) by (auto simp: remapped_def)
  moreover have "0x87FFE000 \<notin> set us \<union> set fs'"
  proof -
    have "0x87FFE000 \<notin> set ?fs" by simp
    then show ?thesis unfolding \<open>?fs = us @ fs'\<close> by simp
  qed
  moreover have "tables (mem u) 0x87FFF000 = insert 0x87FFF000 (set us)" "page_ok u = page_ok s"
    using r(1) V(3) s(2) t(2) by (auto simp: remapped_def)
  moreover have "page_ok s 0x87FFE000" using kmem.frees_valid [OF kr] by simp
  ultimately show ?thesis by (intro exI [of _ u] exI [of _ fs']) auto
qed

theorem uvmunmap_removes_witness:
  "\<exists>(s::kmemst) t fs. pte_of (mem s) 0x87FFF000 0x1000 \<noteq> 0 \<and> uvmunmap 0x87FFF000 0x1000 1 True s = Ok () t
    \<and> vm_ok t (0x87FFE000 # fs) 0x87FFF000 \<and> pte_of (mem t) 0x87FFF000 0x1000 = 0"
proof -
  obtain s :: kmemst and fs where s: "vm_ok s fs 0x87FFF000" "pte_of (mem s) 0x87FFF000 0x1000 = PA2PTE 0x87FFE000 OR 0x12 OR PTE_V"
    "page_ok s 0x87FFE000" "0x87FFE000 \<notin> set fs" "0x87FFE000 \<notin> tables (mem s) 0x87FFF000" using demo_mapped by blast
  have e: "PTE2PA (PA2PTE 0x87FFE000 OR 0x12 OR PTE_V) = 0x87FFE000" "PTE_FLAGS (PA2PTE 0x87FFE000 OR 0x12 OR PTE_V) = 0x13"
    by (simp_all add: PTE2PA_def PA2PTE_def PTE_FLAGS_def PTE_V_def)
  have v: "PTE_V \<noteq> 0x13" "PA2PTE 0x87FFE000 OR 0x12 OR PTE_V \<noteq> 0" by (simp_all add: PA2PTE_def PTE_V_def)
  have lv: "leaves (pte_of (mem s) 0x87FFF000) 0x1000 1 = [0x87FFE000]" by (simp add: leaves_def s(2) e)
  have "\<exists>t. uvmunmap 0x87FFF000 0x1000 (of_nat 1) True s = Ok () t
    \<and> vm_ok t (if True then rev (leaves (pte_of (mem s) 0x87FFF000) 0x1000 1) @ fs else fs) 0x87FFF000
    \<and> tables (mem t) 0x87FFF000 = tables (mem s) 0x87FFF000
    \<and> (\<forall>vb<MAXVA. pte_of (mem t) 0x87FFF000 vb =
        (if unat (0x1000::u64) \<le> unat vb \<and> unat vb < unat (0x1000::u64) + 4096 * 1 then 0 else pte_of (mem s) 0x87FFF000 vb))"
    by (rule uvmunmap_removes [OF s(1)]) (use s v in \<open>simp_all add: lv [simplified] pg_aligned_def e\<close>)
  then obtain t where "uvmunmap 0x87FFF000 0x1000 1 True s = Ok () t" "vm_ok t (0x87FFE000 # fs) 0x87FFF000"
    and z: "\<forall>vb<MAXVA. pte_of (mem t) 0x87FFF000 vb = (if 4096 \<le> unat vb \<and> unat vb < 8192 then 0 else pte_of (mem s) 0x87FFF000 vb)"
    using lv by auto
  moreover have "pte_of (mem t) 0x87FFF000 0x1000 = 0" using z by (simp add: MAXVA_num)
  ultimately show ?thesis using s(2) v(2) by metis
qed

end
