(* ===== verification/Xv6_Copy.thy ===== *)
theory Xv6_Copy
  imports Xv6_Pagetable
begin

text \<open>
  What \<^verbatim>\<open>copyout\<close>, \<^verbatim>\<open>copyin\<close> and \<^verbatim>\<open>copyinstr\<close> do, as seen through the translation of user addresses:
  \<open>tr\<close> gives the physical address of a user virtual address, or none.  The loops over pages are
  shown equal to reading or writing the translated addresses one by one; they fail exactly when some
  byte of the range has no translation.
\<close>

section \<open>Translation\<close>

definition upage :: "memory \<Rightarrow> u64 \<Rightarrow> u64 \<Rightarrow> u64" where
  "upage m root va = (if va < MAXVA \<and> pte_of m root va AND PTE_V \<noteq> 0 \<and> pte_of m root va AND PTE_U \<noteq> 0
     then PTE2PA (pte_of m root va) else 0)"

definition tr :: "memory \<Rightarrow> u64 \<Rightarrow> u64 \<Rightarrow> u64 option" where
  "tr m root va = (if upage m root va = 0 then None else Some (upage m root va + (va - PGROUNDDOWN va)))"

definition umapped :: "memory \<Rightarrow> u64 \<Rightarrow> u64 \<Rightarrow> nat \<Rightarrow> bool" where
  "umapped m root va k \<longleftrightarrow> (\<forall>i<k. tr m root (va + of_nat i) \<noteq> None)"

definition uaddrs :: "memory \<Rightarrow> u64 \<Rightarrow> u64 \<Rightarrow> nat \<Rightarrow> u64 list" where
  "uaddrs m root va k = map (\<lambda>i. the (tr m root (va + of_nat i))) [0..<k]"

lemma MAXVA_page: "va < MAXVA \<longleftrightarrow> unat (page_of va) < 2 ^ 26"
  by (simp add: word_less_nat_alt MAXVA_num unat_page_of) linarith

lemma upage_cong:
  assumes "page_of va = page_of vb"
  shows "upage m root va = upage m root vb"
proof (cases "va < MAXVA")
  case True
  then have vb: "vb < MAXVA" using assms by (simp add: MAXVA_page)
  then have "same_path 3 va vb" using same_path_page [OF True vb] assms by simp
  then have "same_path 2 va vb" "px 2 va = px 2 vb" by (simp_all add: same_path_def)
  then have "pte_of m root va = pte_of m root vb" using tbl_cong [of 2 va vb m root] by (auto simp: pte_of_def split: option.split)
  with True vb show ?thesis by (simp add: upage_def)
next
  case False
  then have "\<not> vb < MAXVA" using assms by (simp add: MAXVA_page)
  with False show ?thesis by (simp add: upage_def)
qed

lemma walkaddr_page: "tables_ok s root \<Longrightarrow> walkaddr root (PGROUNDDOWN va) s = Ok (upage (mem s) root va) s"
  using upage_cong [of va "PGROUNDDOWN va" "mem s" root] by (simp add: walkaddr_lookup upage_def)

text \<open>The addresses of one chunk lie in one page.\<close>

lemma chunk_page:
  assumes "i < chunk va k"
  shows "page_of (va + of_nat i) = page_of va"
    and "va + of_nat i - PGROUNDDOWN (va + of_nat i) = va - PGROUNDDOWN va + of_nat i"
proof -
  let ?b = "PGROUNDDOWN va"
  have off: "unat (va - ?b) = unat va mod 4096" by (rule PGROUNDDOWN_offset)
  have lt: "unat va mod 4096 + i < 4096" using assms unfolding chunk_eq by linarith
  have "of_nat (unat va mod 4096) = va - ?b" using off by (metis of_nat_unat ucast_id)
  then have e: "va + of_nat i = ?b + of_nat (unat va mod 4096 + i)" by (simp add: algebra_simps)
  show p: "page_of (va + of_nat i) = page_of va" unfolding e using page_of_add [OF pg_aligned_PGROUNDDOWN lt, of va] by simp
  have "unat (PGROUNDDOWN (va + of_nat i)) = unat ?b"
    using p by (simp add: word_unat_eq_iff unat_page_of unat_PGROUNDDOWN)
  then have "PGROUNDDOWN (va + of_nat i) = ?b" by (simp add: word_unat_eq_iff)
  then show "va + of_nat i - PGROUNDDOWN (va + of_nat i) = va - ?b + of_nat i" by simp
qed

lemma tr_chunk:
  "i < chunk va k \<Longrightarrow> tr m root (va + of_nat i) =
    (if upage m root va = 0 then None else Some (upage m root va + (va - PGROUNDDOWN va) + of_nat i))"
  by (simp add: tr_def chunk_page upage_cong [OF chunk_page(1)] add.assoc)

lemma chunk_next: "chunk va k < k \<Longrightarrow> va + of_nat (chunk va k) = PGROUNDDOWN va + 4096"
proof -
  assume "chunk va k < k"
  then have c: "chunk va k = 4096 - unat va mod 4096" by (auto simp: chunk_eq min_def split: if_splits)
  have "unat va mod 4096 < 4096" by simp
  then have "of_nat (chunk va k) = 4096 - (of_nat (unat va mod 4096) :: u64)" unfolding c by (simp add: of_nat_diff)
  also have "of_nat (unat va mod 4096) = va - PGROUNDDOWN va"
    using PGROUNDDOWN_offset [of va] by (metis of_nat_unat ucast_id)
  finally show ?thesis by (simp add: algebra_simps)
qed

lemma range_split:
  fixes va :: u64
  assumes "0 < k"
  defines "n \<equiv> chunk va k"
  shows "umapped m root va k \<longleftrightarrow> upage m root va \<noteq> 0 \<and> umapped m root (PGROUNDDOWN va + 4096) (k - n)"
    and "upage m root va \<noteq> 0 \<Longrightarrow> uaddrs m root va k =
      map (\<lambda>i. upage m root va + (va - PGROUNDDOWN va) + of_nat i) [0..<n] @ uaddrs m root (PGROUNDDOWN va + 4096) (k - n)"
proof -
  have n: "0 < n" "n \<le> k" using chunk_bounds assms by simp_all
  have nxt: "va + of_nat (n + i) = PGROUNDDOWN va + 4096 + of_nat i" if "i < k - n" for i
    using chunk_next [of va k] that by (simp add: n_def algebra_simps)
  have first: "tr m root (va + of_nat i) = (if upage m root va = 0 then None
      else Some (upage m root va + (va - PGROUNDDOWN va) + of_nat i))" if "i < n" for i
    using tr_chunk that by (simp add: n_def)
  have "(\<forall>i<k. P i) \<longleftrightarrow> (\<forall>i<n. P i) \<and> (\<forall>i<k - n. P (n + i))" for P
    using n(2) by (metis add.commute add_diff_inverse_nat le_add_diff_inverse2 less_diff_conv nat_add_left_cancel_less order_less_le_trans)
  from this [of "\<lambda>i. tr m root (va + of_nat i) \<noteq> None"]
  have "umapped m root va k \<longleftrightarrow> (\<forall>i<n. tr m root (va + of_nat i) \<noteq> None)
      \<and> (\<forall>i<k - n. tr m root (va + of_nat (n + i)) \<noteq> None)" unfolding umapped_def .
  also have "(\<forall>i<n. tr m root (va + of_nat i) \<noteq> None) \<longleftrightarrow> upage m root va \<noteq> 0" using first n(1) by auto
  also have "(\<forall>i<k - n. tr m root (va + of_nat (n + i)) \<noteq> None) \<longleftrightarrow> umapped m root (PGROUNDDOWN va + 4096) (k - n)"
    unfolding umapped_def using nxt by (simp del: of_nat_add)
  finally show "umapped m root va k \<longleftrightarrow> upage m root va \<noteq> 0 \<and> umapped m root (PGROUNDDOWN va + 4096) (k - n)" .
  assume nz: "upage m root va \<noteq> 0"
  have "[0..<k] = [0..<n] @ map ((+) n) [0..<k - n]"
    using n(2) upt_add_eq_append [of 0 n "k - n"] map_add_upt [of n "k - n"] add.commute [of _ n]
    by (auto intro: map_cong)
  then show "uaddrs m root va k = map (\<lambda>i. upage m root va + (va - PGROUNDDOWN va) + of_nat i) [0..<n]
      @ uaddrs m root (PGROUNDDOWN va + 4096) (k - n)"
    using first nxt nz by (simp add: uaddrs_def del: of_nat_add)
qed

section \<open>Reading\<close>

lemma copyin_mapped:
  "tables_ok s root \<Longrightarrow> umapped (mem s) root va k \<Longrightarrow>
    copyin root va k s = Ok (0, map (mem s) (uaddrs (mem s) root va k)) s"
proof (induction k arbitrary: va rule: less_induct)
  case (less k)
  show ?case
  proof (cases "k = 0")
    case True
    then show ?thesis by (simp add: copyin.simps [of root va] uaddrs_def)
  next
    case False
    then have k: "0 < k" by simp
    let ?n = "chunk va k"
    have nz: "upage (mem s) root va \<noteq> 0" and um: "umapped (mem s) root (PGROUNDDOWN va + 4096) (k - ?n)"
      using range_split(1) [OF k] less.prems(2) by blast+
    have "k - ?n < k" using chunk_bounds(2) [OF k, of va] k by simp
    note IH = less.IH [OF this less.prems(1) um]
    have "bytes (mem s) (upage (mem s) root va + (va - PGROUNDDOWN va)) ?n
        = map (mem s) (map (\<lambda>i. upage (mem s) root va + (va - PGROUNDDOWN va) + of_nat i) [0..<?n])"
      by (simp add: bytes_def)
    then show ?thesis
      using False IH nz range_split(2) [OF k nz]
      by (simp add: copyin.simps [of root va] walkaddr_page [OF less.prems(1)] Let_def)
  qed
qed

lemma copyin_unmapped:
  "tables_ok s root \<Longrightarrow> \<not> umapped (mem s) root va k \<Longrightarrow> \<exists>bs. copyin root va k s = Ok (- 1, bs) s"
proof (induction k arbitrary: va rule: less_induct)
  case (less k)
  have k: "0 < k" using less.prems(2) by (auto simp: umapped_def intro: gr0I)
  let ?n = "chunk va k"
  show ?case
  proof (cases "upage (mem s) root va = 0")
    case True
    with k show ?thesis by (simp add: copyin.simps [of root va] walkaddr_page [OF less.prems(1)])
  next
    case False
    then have um: "\<not> umapped (mem s) root (PGROUNDDOWN va + 4096) (k - ?n)"
      using range_split(1) [OF k] less.prems(2) by blast
    have "k - ?n < k" using chunk_bounds(2) [OF k, of va] k by simp
    from less.IH [OF this less.prems(1) um] show ?thesis
      using False k by (auto simp: copyin.simps [of root va] walkaddr_page [OF less.prems(1)] Let_def)
  qed
qed

section \<open>Writing\<close>

text \<open>Bytes written to a list of addresses, one after the other.\<close>

definition scatter :: "memory \<Rightarrow> u64 list \<Rightarrow> u8 list \<Rightarrow> memory" where
  "scatter m as bs = fold (\<lambda>(a, b) m. m(a := b)) (zip as bs) m"

lemma scatter_append:
  "length as = length bs \<Longrightarrow> scatter m (as @ as') (bs @ bs') = scatter (scatter m as bs) as' bs'"
  by (simp add: scatter_def)

lemma scatter_other: "x \<notin> set as \<Longrightarrow> scatter m as bs x = m x"
proof (induction as arbitrary: bs m)
  case (Cons a as)
  then show ?case by (cases bs) (auto simp: scatter_def)
qed (simp add: scatter_def)

lemma scatter_distinct: "distinct as \<Longrightarrow> length as = length bs \<Longrightarrow> map (scatter m as bs) as = bs"
proof (induction as arbitrary: bs m)
  case (Cons a as)
  then obtain b bs' where bs: "bs = b # bs'" by (cases bs) auto
  have "scatter m (a # as) (b # bs') = scatter (m(a := b)) as bs'" by (simp add: scatter_def)
  with Cons bs scatter_other [of a as "m(a := b)" bs'] show ?case by simp
qed simp

lemma store_scatter: "store m a bs = scatter m (map (\<lambda>i. a + of_nat i) [0..<length bs]) bs"
proof (induction bs arbitrary: m a)
  case (Cons b bs)
  have "map (\<lambda>i. a + of_nat i) [0..<length (b # bs)] = a # map (\<lambda>i. a + 1 + of_nat i) [0..<length bs]"
    by (simp add: upt_conv_Cons map_Suc_upt [symmetric] comp_def algebra_simps del: upt_Suc)
  then have "scatter m (map (\<lambda>i. a + of_nat i) [0..<length (b # bs)]) (b # bs)
      = scatter (m(a := b)) (map (\<lambda>i. a + 1 + of_nat i) [0..<length bs]) bs"
    by (simp add: scatter_def del: upt_Suc)
  also have "\<dots> = store (m(a := b)) (a + 1) bs" by (rule Cons.IH [symmetric])
  also have "\<dots> = store m a (b # bs)" by simp
  finally show ?case by (rule sym)
qed (simp add: scatter_def)

text \<open>User pages are not table pages: writes through the translation leave the tables alone.\<close>

definition apart :: "memory \<Rightarrow> u64 \<Rightarrow> u64 \<Rightarrow> nat \<Rightarrow> bool" where
  "apart m root va k \<longleftrightarrow> (\<forall>i<k. \<forall>a. tr m root (va + of_nat i) = Some a \<longrightarrow> page_of a \<notin> page_of ` tables m root)"

lemma tr_frame:
  assumes "\<forall>q\<in>tables m root. pg_aligned q" "\<And>x. page_of x \<in> page_of ` tables m root \<Longrightarrow> m' x = m x"
  shows "tr m' root va = tr m root va" "tables m' root = tables m root" "upage m' root va = upage m root va"
  using tables_frame [OF assms] tables_same [OF tables_frame(1) [OF assms]] by (simp_all add: tr_def upage_def)

lemma scatter_frame:
  assumes al: "\<forall>q\<in>tables m root. pg_aligned q" and ap: "\<forall>a\<in>set as. page_of a \<notin> page_of ` tables m root"
  shows "tr (scatter m as bs) root va = tr m root va" "tables (scatter m as bs) root = tables m root"
proof -
  have "scatter m as bs x = m x" if "page_of x \<in> page_of ` tables m root" for x
    using ap that by (intro scatter_other) auto
  then show "tr (scatter m as bs) root va = tr m root va" "tables (scatter m as bs) root = tables m root"
    using tr_frame [OF al] by blast+
qed

lemma tables_ok_aligned: "tables_ok s root \<Longrightarrow> \<forall>q\<in>tables (mem s) root. pg_aligned q"
  by (auto simp: tables_ok_def page_ok_def)

lemma apart_split:
  fixes va :: u64
  assumes "0 < k" "apart m root va k" "upage m root va \<noteq> 0"
  shows "i < chunk va k \<Longrightarrow> page_of (upage m root va + (va - PGROUNDDOWN va) + of_nat i) \<notin> page_of ` tables m root"
    and "apart m root (PGROUNDDOWN va + 4096) (k - chunk va k)"
proof -
  have n: "chunk va k \<le> k" by (rule chunk_bounds)
  show "i < chunk va k \<Longrightarrow> page_of (upage m root va + (va - PGROUNDDOWN va) + of_nat i) \<notin> page_of ` tables m root"
    using assms(2,3) n tr_chunk [of i va k m root] unfolding apart_def by (metis order_less_le_trans)
  show "apart m root (PGROUNDDOWN va + 4096) (k - chunk va k)"
    unfolding apart_def
  proof (intro allI impI)
    fix i a assume i: "i < k - chunk va k" and a: "tr m root (PGROUNDDOWN va + 4096 + of_nat i) = Some a"
    have "va + of_nat (chunk va k + i) = PGROUNDDOWN va + 4096 + of_nat i"
      using chunk_next [of va k] i by (simp add: algebra_simps)
    with a i assms(2) show "page_of a \<notin> page_of ` tables m root"
      unfolding apart_def by (metis add.commute less_diff_conv)
  qed
qed

lemma copyout_mapped:
  "tables_ok s root \<Longrightarrow> umapped (mem s) root va (length src) \<Longrightarrow> apart (mem s) root va (length src) \<Longrightarrow>
    copyout root va src s = Ok 0 (s\<lparr>mem := scatter (mem s) (uaddrs (mem s) root va (length src)) src\<rparr>)"
proof (induction src arbitrary: va s rule: length_induct)
  case (1 src)
  note prems = 1(2-)
  show ?case
  proof (cases "src = []")
    case True
    then show ?thesis by (simp add: copyout.simps [of root va] uaddrs_def scatter_def)
  next
    case False
    then have k: "0 < length src" by simp
    let ?n = "chunk va (length src)" and ?nx = "PGROUNDDOWN va + 4096"
    define A where "A = map (\<lambda>i. upage (mem s) root va + (va - PGROUNDDOWN va) + of_nat i) [0..<?n]"
    define u where "u = s\<lparr>mem := scatter (mem s) A (take ?n src)\<rparr>"
    have nz: "upage (mem s) root va \<noteq> 0" and um: "umapped (mem s) root ?nx (length src - ?n)"
      using range_split(1) [OF k] prems(2) by blast+
    note ap = apart_split [OF k prems(3) nz]
    have apA: "\<forall>a\<in>set A. page_of a \<notin> page_of ` tables (mem s) root" using ap(1) by (auto simp: A_def)
    note F = scatter_frame [OF tables_ok_aligned [OF prems(1)] apA]
    have tu: "tr (mem u) root vb = tr (mem s) root vb" "tables (mem u) root = tables (mem s) root" for vb
      using F by (simp_all add: u_def)
    have oku: "tables_ok u root" using prems(1) tu(2) by (simp add: tables_ok_def) (simp add: u_def)
    have n: "?n \<le> length src" "0 < ?n" using chunk_bounds k by simp_all
    have "length (drop ?n src) < length src" using n by simp
    moreover have "umapped (mem u) root ?nx (length (drop ?n src))" using um by (simp add: umapped_def tu(1))
    moreover have "apart (mem u) root ?nx (length (drop ?n src))" using ap(2) by (simp add: apart_def tu)
    ultimately have IH: "copyout root ?nx (drop ?n src) u =
        Ok 0 (u\<lparr>mem := scatter (mem u) (uaddrs (mem u) root ?nx (length (drop ?n src))) (drop ?n src)\<rparr>)"
      using 1(1) oku by blast
    have ua: "uaddrs (mem u) root ?nx k = uaddrs (mem s) root ?nx k" for k by (simp add: uaddrs_def tu(1))
    have st: "store (mem s) (upage (mem s) root va + (va - PGROUNDDOWN va)) (take ?n src) = scatter (mem s) A (take ?n src)"
      using n by (simp add: store_scatter A_def min_def)
    have "scatter (mem u) (uaddrs (mem s) root ?nx (length src - ?n)) (drop ?n src)
        = scatter (mem s) (uaddrs (mem s) root va (length src)) src"
      using range_split(2) [OF k nz] scatter_append [of A "take ?n src" "mem s" _ "drop ?n src"] n
      by (simp add: A_def u_def)
    then show ?thesis
      using False nz IH st ua
      by (simp add: copyout.simps [of root va] walkaddr_page [OF prems(1)] Let_def run_simps u_def)
  qed
qed

lemma copyout_unmapped:
  "tables_ok s root \<Longrightarrow> \<not> umapped (mem s) root va (length src) \<Longrightarrow> apart (mem s) root va (length src) \<Longrightarrow>
    \<exists>t. copyout root va src s = Ok (- 1) t"
proof (induction src arbitrary: va s rule: length_induct)
  case (1 src)
  note prems = 1(2-)
  have k: "0 < length src" using prems(2) by (auto simp: umapped_def)
  let ?n = "chunk va (length src)" and ?nx = "PGROUNDDOWN va + 4096"
  show ?case
  proof (cases "upage (mem s) root va = 0")
    case True
    with k show ?thesis by (simp add: copyout.simps [of root va] walkaddr_page [OF prems(1)])
  next
    case False
    define A where "A = map (\<lambda>i. upage (mem s) root va + (va - PGROUNDDOWN va) + of_nat i) [0..<?n]"
    define u where "u = s\<lparr>mem := scatter (mem s) A (take ?n src)\<rparr>"
    have um: "\<not> umapped (mem s) root ?nx (length src - ?n)" using range_split(1) [OF k] prems(2) False by blast
    note ap = apart_split [OF k prems(3) False]
    have apA: "\<forall>a\<in>set A. page_of a \<notin> page_of ` tables (mem s) root" using ap(1) by (auto simp: A_def)
    note F = scatter_frame [OF tables_ok_aligned [OF prems(1)] apA]
    have tu: "tr (mem u) root vb = tr (mem s) root vb" "tables (mem u) root = tables (mem s) root" for vb
      using F by (simp_all add: u_def)
    have oku: "tables_ok u root" using prems(1) tu(2) by (simp add: tables_ok_def) (simp add: u_def)
    have n: "?n \<le> length src" "0 < ?n" using chunk_bounds k by simp_all
    have "length (drop ?n src) < length src" using n by simp
    moreover have "\<not> umapped (mem u) root ?nx (length (drop ?n src))" using um by (simp add: umapped_def tu(1))
    moreover have "apart (mem u) root ?nx (length (drop ?n src))" using ap(2) by (simp add: apart_def tu)
    ultimately obtain t where t: "copyout root ?nx (drop ?n src) u = Ok (- 1) t" using 1(1) oku by blast
    have st: "store (mem s) (upage (mem s) root va + (va - PGROUNDDOWN va)) (take ?n src) = scatter (mem s) A (take ?n src)"
      using n by (simp add: store_scatter A_def min_def)
    from t st False k show ?thesis
      by (auto simp: copyout.simps [of root va] walkaddr_page [OF prems(1)] Let_def run_simps u_def)
  qed
qed

section \<open>Strings\<close>

lemma copystr_page_no: "0 \<notin> set bs \<Longrightarrow> copystr_page bs = (bs, False)"
  by (induction bs) (auto simp: Let_def)

lemma copystr_page_nul: "0 \<notin> set bs \<Longrightarrow> copystr_page (bs @ 0 # cs) = (bs @ [0], True)"
  by (induction bs) (auto simp: Let_def)

definition ubytes :: "memory \<Rightarrow> u64 \<Rightarrow> u64 \<Rightarrow> nat \<Rightarrow> u8 list" where
  "ubytes m root va k = map m (uaddrs m root va k)"

lemma length_ubytes [simp]: "length (ubytes m root va k) = k"
  by (simp add: ubytes_def uaddrs_def)

lemma ubytes_chunk:
  assumes "0 < k" "upage m root va \<noteq> 0"
  shows "ubytes m root va k = bytes m (upage m root va + (va - PGROUNDDOWN va)) (chunk va k)
    @ ubytes m root (PGROUNDDOWN va + 4096) (k - chunk va k)"
  using range_split(2) [OF assms] by (simp add: ubytes_def bytes_def)

lemma chunk_le: "j \<le> chunk va k \<Longrightarrow> k \<le> k' \<Longrightarrow> j \<le> chunk va k'"
  by (simp add: chunk_eq)

lemma umapped_le: "umapped m root va k \<Longrightarrow> j \<le> k \<Longrightarrow> umapped m root va j"
  by (auto simp: umapped_def)

lemma bytes_prefix: "j < n \<Longrightarrow> bytes m a n = bytes m a j @ m (a + of_nat j) # bytes m (a + of_nat (Suc j)) (n - Suc j)"
proof -
  assume "j < n"
  then have "[0..<n] = [0..<j] @ j # map (\<lambda>i. i + Suc j) [0..<n - Suc j]"
    using upt_add_eq_append [of 0 j "n - j"] map_add_upt [of "Suc j" "n - Suc j"] by (simp add: upt_conv_Cons)
  then show ?thesis by (simp add: bytes_def algebra_simps)
qed

lemma ubytes_first:
  assumes "Suc j \<le> chunk va k" "upage m root va \<noteq> 0"
  shows "ubytes m root va (Suc j) = bytes m (upage m root va + (va - PGROUNDDOWN va)) (Suc j)"
proof -
  have "chunk va (Suc j) = Suc j" using assms(1) by (simp add: chunk_eq)
  with ubytes_chunk [of "Suc j" m root va] assms(2) show ?thesis by (simp add: ubytes_def uaddrs_def)
qed

lemma ubytes_later:
  assumes "chunk va k \<le> j" "j < k" "upage m root va \<noteq> 0"
  shows "ubytes m root va (Suc j) = bytes m (upage m root va + (va - PGROUNDDOWN va)) (chunk va k)
    @ ubytes m root (PGROUNDDOWN va + 4096) (Suc (j - chunk va k))"
proof -
  have "chunk va (Suc j) = chunk va k" using assms(1,2) by (auto simp: chunk_eq min_def split: if_splits)
  with ubytes_chunk [of "Suc j" m root va] assms show ?thesis by (simp add: Suc_diff_le)
qed

lemma umapped_later:
  assumes "chunk va k \<le> j" "j < k"
  shows "umapped m root va (Suc j) \<longleftrightarrow> upage m root va \<noteq> 0 \<and> umapped m root (PGROUNDDOWN va + 4096) (Suc (j - chunk va k))"
proof -
  have "chunk va (Suc j) = chunk va k" using assms by (auto simp: chunk_eq min_def split: if_splits)
  with range_split(1) [of "Suc j" m root va] assms show ?thesis by (simp add: Suc_diff_le)
qed

lemma copyinstr_found:
  "tables_ok s root \<Longrightarrow> j < k \<Longrightarrow> umapped (mem s) root va (Suc j) \<Longrightarrow>
   ubytes (mem s) root va (Suc j) = cs @ [0] \<Longrightarrow> 0 \<notin> set cs \<Longrightarrow>
    copyinstr root va k s = Ok (0, cs @ [0]) s"
proof (induction k arbitrary: va j cs rule: less_induct)
  case (less k)
  have k: "0 < k" using less.prems(2) by simp
  let ?n = "chunk va k" and ?a = "upage (mem s) root va + (va - PGROUNDDOWN va)"
  have nz: "upage (mem s) root va \<noteq> 0" using range_split(1) [of "Suc j"] less.prems(3) by blast
  have lc: "length cs = j" using arg_cong [OF less.prems(4), of length] by simp
  note step = copyinstr.simps [of root va k s] walkaddr_page [OF less.prems(1)]
  show ?case
  proof (cases "j < ?n")
    case True
    have "bytes (mem s) ?a (Suc j) = cs @ [0]" using ubytes_first [OF _ nz] True less.prems(4) by (simp add: Suc_le_eq)
    moreover have "bytes (mem s) ?a (Suc j) = bytes (mem s) ?a j @ [mem s (?a + of_nat j)]"
      using bytes_prefix [of j "Suc j" "mem s" ?a] by simp
    ultimately have "bytes (mem s) ?a j = cs" "mem s (?a + of_nat j) = 0" by auto
    with bytes_prefix [OF True, of "mem s" ?a] copystr_page_nul [OF less.prems(5)] k nz show ?thesis
      by (simp add: step Let_def)
  next
    case False
    have eq: "bytes (mem s) ?a ?n @ ubytes (mem s) root (PGROUNDDOWN va + 4096) (Suc (j - ?n)) = cs @ [0]"
      using ubytes_later [OF _ less.prems(2) nz] False less.prems(4) by simp
    define ds where "ds = drop ?n cs"
    have len: "?n \<le> length cs" using False lc by simp
    have b: "bytes (mem s) ?a ?n = take ?n cs" using arg_cong [OF eq, of "take ?n"] len by simp
    have "ubytes (mem s) root (PGROUNDDOWN va + 4096) (Suc (j - ?n)) = ds @ [0]"
      using arg_cong [OF eq, of "drop ?n"] len by (simp add: ds_def)
    moreover have "umapped (mem s) root (PGROUNDDOWN va + 4096) (Suc (j - ?n))"
      using umapped_later [OF _ less.prems(2)] False less.prems(3) by auto
    moreover have "0 \<notin> set ds" using less.prems(5) by (auto simp: ds_def dest: in_set_dropD)
    moreover have "k - ?n < k" "j - ?n < k - ?n" using chunk_bounds(2) [OF k, of va] less.prems(2) False by simp_all
    ultimately have IH: "copyinstr root (PGROUNDDOWN va + 4096) (k - ?n) s = Ok (0, ds @ [0]) s"
      using less.IH less.prems(1) by blast
    have "0 \<notin> set (bytes (mem s) ?a ?n)" using b less.prems(5) by (auto dest: in_set_takeD)
    from copystr_page_no [OF this] IH nz k b show ?thesis by (simp add: step Let_def ds_def)
  qed
qed

lemma copyinstr_missing:
  "tables_ok s root \<Longrightarrow> (\<And>j. j < k \<Longrightarrow> umapped (mem s) root va (Suc j) \<Longrightarrow> 0 \<notin> set (ubytes (mem s) root va (Suc j))) \<Longrightarrow>
    \<exists>bs. copyinstr root va k s = Ok (- 1, bs) s"
proof (induction k arbitrary: va rule: less_induct)
  case (less k)
  note step = copyinstr.simps [of root va k s] walkaddr_page [OF less.prems(1)]
  let ?n = "chunk va k" and ?a = "upage (mem s) root va + (va - PGROUNDDOWN va)"
  show ?case
  proof (cases "k = 0 \<or> upage (mem s) root va = 0")
    case True
    then show ?thesis by (auto simp: step)
  next
    case False
    then have k: "0 < k" and nz: "upage (mem s) root va \<noteq> 0" by simp_all
    have n: "0 < ?n" "?n \<le> k" using chunk_bounds k by simp_all
    have c: "chunk va ?n = ?n" by (simp add: chunk_eq)
    have "umapped (mem s) root va (Suc (?n - 1))"
      using range_split(1) [OF n(1), of "mem s" root va] nz n c by (simp add: umapped_def)
    with less.prems(2) [of "?n - 1"] n have "0 \<notin> set (ubytes (mem s) root va ?n)" by simp
    with ubytes_chunk [OF n(1) nz] c have no: "0 \<notin> set (bytes (mem s) ?a ?n)" by simp
    have "\<exists>bs. copyinstr root (PGROUNDDOWN va + 4096) (k - ?n) s = Ok (- 1, bs) s"
    proof (rule less.IH)
      show "k - ?n < k" using n k by simp
      fix j assume j: "j < k - ?n" and um: "umapped (mem s) root (PGROUNDDOWN va + 4096) (Suc j)"
      have le: "?n \<le> j + ?n" "j + ?n < k" using j by simp_all
      have "umapped (mem s) root va (Suc (j + ?n))" using umapped_later [OF le, of "mem s" root] um nz by simp
      with less.prems(2) le(2) have "0 \<notin> set (ubytes (mem s) root va (Suc (j + ?n)))" by blast
      with ubytes_later [OF le nz] show "0 \<notin> set (ubytes (mem s) root (PGROUNDDOWN va + 4096) (Suc j))" by simp
    qed (rule less.prems(1))
    then show ?thesis using copystr_page_no [OF no] nz k by (auto simp: step Let_def)
  qed
qed

section \<open>The properties\<close>


lemma demo_tr:
  assumes "pte_of m 0x87FFF000 0x1000 = PA2PTE 0x87FFE000 OR 0x12 OR PTE_V" "i < 4096"
  shows "tr m 0x87FFF000 (0x1000 + of_nat i) = Some (0x87FFE000 + of_nat i)"
proof -
  have "upage m 0x87FFF000 0x1000 = 0x87FFE000"
    by (simp add: upage_def assms(1) PA2PTE_def PTE2PA_def PTE_V_def PTE_U_def MAXVA_num)
  moreover have "i < chunk 0x1000 4096" using assms(2) by (simp add: chunk_eq)
  ultimately show ?thesis using tr_chunk [of i "0x1000" 4096 m "0x87FFF000"] by (simp add: PGROUNDDOWN_def)
qed


text \<open>C8.  Copying a string from user memory.  If the user string at \<open>va\<close>, with its nul, has at most
  \<open>k\<close> bytes and all of them are mapped, \<^verbatim>\<open>copyinstr\<close> returns 0 and has copied exactly the string and its
  nul, also across page boundaries; if no nul is among the first \<open>k\<close> bytes before the first unmapped
  one, it returns -1.\<close>

theorem copyinstr_correct:
  assumes "tables_ok s root"
  shows "(j < k \<and> umapped (mem s) root va (Suc j) \<and> ubytes (mem s) root va (Suc j) = cs @ [0] \<and> 0 \<notin> set cs
      \<longrightarrow> copyinstr root va k s = Ok (0, cs @ [0]) s)
    \<and> ((\<forall>j<k. umapped (mem s) root va (Suc j) \<longrightarrow> 0 \<notin> set (ubytes (mem s) root va (Suc j)))
      \<longrightarrow> (\<exists>bs. copyinstr root va k s = Ok (- 1, bs) s))"
  using copyinstr_found [OF assms] copyinstr_missing [OF assms] by blast

theorem copyinstr_correct_witness:
  "\<exists>(s::kmemst) bs. copyinstr 0x87FFF000 0x1000 8 s = Ok (0, [104, 105, 0]) s \<and> copyinstr 0x87FFF000 0x1000 2 s = Ok (- 1, bs) s"
proof -
  obtain r :: kmemst and fs where r: "vm_ok r fs 0x87FFF000" "pte_of (mem r) 0x87FFF000 0x1000 = PA2PTE 0x87FFE000 OR 0x12 OR PTE_V"
    "0x87FFE000 \<notin> tables (mem r) 0x87FFF000" using demo_mapped by blast
  define s where "s = r\<lparr>mem := store (mem r) 0x87FFE000 [104, 105, 0]\<rparr>"
  have al: "pg_aligned 0x87FFE000" by (simp add: pg_aligned_def)
  have same: "mem s x = mem r x" if "page_of x \<in> page_of ` tables (mem r) 0x87FFF000" for x
  proof -
    have "page_of 0x87FFE000 \<notin> page_of ` tables (mem r) 0x87FFF000"
      using page_of_set [of "0x87FFE000" "tables (mem r) 0x87FFF000"] vm_ok_aligned [OF r(1)] al r(3) by blast
    with that have "page_of x \<noteq> page_of 0x87FFE000" by auto
    then have "\<not> unat (x - 0x87FFE000) < 4096" using in_page_iff [OF al] by blast
    then show ?thesis by (simp add: s_def store_apply del: store.simps)
  qed
  have al': "\<forall>q\<in>tables (mem r) 0x87FFF000. pg_aligned q" using vm_ok_aligned [OF r(1)] by blast
  have "tables (mem s) 0x87FFF000 = tables (mem r) 0x87FFF000" by (rule tables_same [OF tables_frame(1) [OF al' same]])
  then have tk: "tables_ok s 0x87FFF000" using r(1) by (simp add: vm_ok_def tables_ok_def) (simp add: s_def)
  have "pte_of (mem s) 0x87FFF000 0x1000 = PA2PTE 0x87FFE000 OR 0x12 OR PTE_V"
    using tables_frame(2) [OF al' same, of "0x1000"] r(2) by simp
  note tr = demo_tr [OF this]
  have um: "umapped (mem s) 0x87FFF000 0x1000 k" if "k < 4096" for k using tr that by (simp add: umapped_def)
  have u: "uaddrs (mem s) 0x87FFF000 0x1000 (Suc 0) = [0x87FFE000]" "uaddrs (mem s) 0x87FFF000 0x1000 2 = [0x87FFE000, 0x87FFE001]"
      "uaddrs (mem s) 0x87FFF000 0x1000 3 = [0x87FFE000, 0x87FFE001, 0x87FFE002]"
    using tr [of 0] tr [of 1] tr [of 2] by (simp_all add: uaddrs_def upt_rec)
  have ub: "ubytes (mem s) 0x87FFF000 0x1000 (Suc 0) = [104]" "ubytes (mem s) 0x87FFF000 0x1000 2 = [104, 105]"
      "ubytes (mem s) 0x87FFF000 0x1000 3 = [104, 105] @ [0]"
    unfolding ubytes_def u by (simp_all add: s_def)
  have "copyinstr 0x87FFF000 0x1000 8 s = Ok (0, [104, 105] @ [0]) s"
    using copyinstr_correct [OF tk, of 2 8 "0x1000" "[104, 105]"] um [of 3] ub(3) by (simp flip: numeral_3_eq_3)
  moreover have "0 \<notin> set (ubytes (mem s) 0x87FFF000 0x1000 (Suc 0))" "0 \<notin> set (ubytes (mem s) 0x87FFF000 0x1000 2)"
    unfolding ub(1,2) by simp_all
  then have "\<forall>j<2. 0 \<notin> set (ubytes (mem s) 0x87FFF000 0x1000 (Suc j))"
    by (metis One_nat_def Suc_1 less_2_cases)
  then have "\<exists>bs. copyinstr 0x87FFF000 0x1000 2 s = Ok (- 1, bs) s"
    using copyinstr_correct [OF tk, of 0 2 "0x1000" "[]"] by blast
  ultimately show ?thesis by auto
qed

end
