(* ===== verification/Xv6_Proc.thy ===== *)
theory Xv6_Proc
  imports Xv6_Vm
begin

text \<open>
  The process table of \<^verbatim>\<open>kernel/proc.c\<close>.  A \<^verbatim>\<open>struct proc *\<close> is the index of its slot in the table.
  Open files and the current directory are indices of the file and inode tables.  The trap frame is
  the page of memory it is in the code, read and written at the offsets of \<^verbatim>\<open>struct trapframe\<close>.
  A null process pointer that is dereferenced faults, and \<^verbatim>\<open>kerneltrap\<close> panics.

  \<^verbatim>\<open>swtch\<close> gives the hart to the scheduler.  \<^verbatim>\<open>sleep\<close> therefore ends with the outcome \<open>Sleep\<close> at this
  point, in the state in which the scheduler goes on, and \<open>sleep_end\<close> is the rest of \<^verbatim>\<open>sleep\<close>, which
  runs when the process is chosen again.  Every call of \<^verbatim>\<open>sleep\<close> in the kernel stands in a loop that
  tests its condition again.  The operations that use files are in later theories.
\<close>

section \<open>State\<close>

datatype procstate = UNUSED | USED | SLEEPING | RUNNABLE | RUNNING | ZOMBIE

record kcontext =
  ctx_ra :: u64
  ctx_sp :: u64
  ctx_s :: "u64 list"

record proc =
  p_state :: procstate
  p_chan :: "chan option"
  p_killed :: int
  p_xstate :: int
  p_pid :: int
  p_parent :: "nat option"
  p_kstack :: u64
  p_sz :: u64
  p_pagetable :: u64
  p_trapframe :: u64
  p_context :: kcontext
  p_ofile :: "nat option list"
  p_cwd :: "nat option"
  p_name :: "u8 list"

record procst = vmst +
  procs :: "nat \<Rightarrow> proc"
  initproc :: "nat option"
  nextpid :: int
  forkret_pc :: u64

abbreviation upd_proc :: "nat \<Rightarrow> (proc \<Rightarrow> proc) \<Rightarrow> ('r procst_scheme, unit) kprog" where
  "upd_proc p f \<equiv> modify (\<lambda>s. s\<lparr>procs := (procs s)(p := f (procs s p))\<rparr>)"

definition TF_kernel_satp :: u64 where "TF_kernel_satp = 0"
definition TF_kernel_sp :: u64 where "TF_kernel_sp = 8"
definition TF_kernel_trap :: u64 where "TF_kernel_trap = 16"
definition TF_epc :: u64 where "TF_epc = 24"
definition TF_kernel_hartid :: u64 where "TF_kernel_hartid = 32"
definition TF_sp :: u64 where "TF_sp = 48"
definition TF_a0 :: u64 where "TF_a0 = 112"
definition TF_a1 :: u64 where "TF_a1 = 120"
definition TF_a7 :: u64 where "TF_a7 = 168"

definition tf_get :: "nat \<Rightarrow> u64 \<Rightarrow> 'r procst_scheme \<Rightarrow> u64" where
  "tf_get p off s = ld64 (mem s) (p_trapframe (procs s p) + off)"

definition tf_set :: "nat \<Rightarrow> u64 \<Rightarrow> u64 \<Rightarrow> ('r procst_scheme, unit) kprog" where
  "tf_set p off v = modify (\<lambda>s. s\<lparr>mem := st64 (mem s) (p_trapframe (procs s p) + off) v\<rparr>)"

section \<open>Current process and process ids\<close>

definition myproc :: "('r procst_scheme, nat option) kprog" where
  "myproc = seqK [push_off] (bind (gets (\<lambda>s. c_proc (mycpu s))) (\<lambda>p. seqK [pop_off] (ret p)))"

definition the_proc :: "('r procst_scheme, nat) kprog" where
  "the_proc = bind myproc (\<lambda>p. case p of None \<Rightarrow> panicK ''kerneltrap'' | Some i \<Rightarrow> ret i)"

definition procinit :: "('r procst_scheme, unit) kprog" where
  "procinit = block [
     initlock L_pid ''nextpid'',
     initlock L_wait ''wait_lock'',
     forK (\<lambda>p. block [
       initlock (L_proc p) ''proc'',
       upd_proc p (p_state_update (\<lambda>_. UNUSED)),
       upd_proc p (p_kstack_update (\<lambda>_. KSTACK p))]) [0..<NPROC]]"

definition allocpid :: "('r procst_scheme, int) kprog" where
  "allocpid = seqK [acquire L_pid] (bind (gets nextpid) (\<lambda>pid. seqK [
     modify (\<lambda>s. s\<lparr>nextpid := nextpid s + 1\<rparr>),
     release L_pid] (ret pid)))"

section \<open>Allocating and freeing\<close>

definition proc_pagetable :: "nat \<Rightarrow> ('r procst_scheme, u64) kprog" where
  "proc_pagetable p = bind uvmcreate (\<lambda>pagetable.
     if pagetable = 0 then ret 0
     else bind (\<lambda>s. mappages pagetable TRAMPOLINE PGSIZE (trampoline s) (PTE_R OR PTE_X) s) (\<lambda>r.
       if r < 0 then seqK [uvmfree pagetable 0] (ret 0)
       else bind (\<lambda>s. mappages pagetable TRAPFRAME PGSIZE (p_trapframe (procs s p)) (PTE_R OR PTE_W) s) (\<lambda>r.
         if r < 0 then seqK [uvmunmap pagetable TRAMPOLINE 1 False, uvmfree pagetable 0] (ret 0)
         else ret pagetable)))"

definition proc_freepagetable :: "u64 \<Rightarrow> u64 \<Rightarrow> ('r kmemst_scheme, unit) kprog" where
  "proc_freepagetable pagetable sz = block [
     uvmunmap pagetable TRAMPOLINE 1 False,
     uvmunmap pagetable TRAPFRAME 1 False,
     uvmfree pagetable sz]"

definition freeproc :: "nat \<Rightarrow> ('r procst_scheme, unit) kprog" where
  "freeproc p = block [
     whenS (\<lambda>s. p_trapframe (procs s p) \<noteq> 0) (\<lambda>s. kfree (p_trapframe (procs s p)) s),
     upd_proc p (p_trapframe_update (\<lambda>_. 0)),
     whenS (\<lambda>s. p_pagetable (procs s p) \<noteq> 0) (\<lambda>s. proc_freepagetable (p_pagetable (procs s p)) (p_sz (procs s p)) s),
     upd_proc p (p_pagetable_update (\<lambda>_. 0)),
     upd_proc p (p_sz_update (\<lambda>_. 0)),
     upd_proc p (p_pid_update (\<lambda>_. 0)),
     upd_proc p (p_parent_update (\<lambda>_. None)),
     upd_proc p (p_name_update (\<lambda>n. n[0 := 0])),
     upd_proc p (p_chan_update (\<lambda>_. None)),
     upd_proc p (p_killed_update (\<lambda>_. 0)),
     upd_proc p (p_xstate_update (\<lambda>_. 0)),
     upd_proc p (p_state_update (\<lambda>_. UNUSED))]"

text \<open>The search of \<^verbatim>\<open>allocproc\<close>; the slot found is returned with its lock held.\<close>

fun allocproc_find :: "nat list \<Rightarrow> ('r procst_scheme, nat option) kprog" where
  "allocproc_find [] = ret None"
| "allocproc_find (p # ps) = seqK [acquire (L_proc p)]
     (ifS (\<lambda>s. p_state (procs s p) = UNUSED) (ret (Some p)) (seqK [release (L_proc p)] (allocproc_find ps)))"

definition allocproc_fail :: "nat \<Rightarrow> ('r procst_scheme, nat option) kprog" where
  "allocproc_fail p = seqK [freeproc p, release (L_proc p)] (ret None)"

definition allocproc :: "('r procst_scheme, nat option) kprog" where
  "allocproc = bind (allocproc_find [0..<NPROC]) (\<lambda>r. case r of None \<Rightarrow> ret None | Some p \<Rightarrow>
     seqK [
       bind allocpid (\<lambda>pid. upd_proc p (p_pid_update (\<lambda>_. pid))),
       upd_proc p (p_state_update (\<lambda>_. USED)),
       bind kalloc (\<lambda>tf. upd_proc p (p_trapframe_update (\<lambda>_. tf)))]
     (ifS (\<lambda>s. p_trapframe (procs s p) = 0) (allocproc_fail p)
       (seqK [bind (proc_pagetable p) (\<lambda>pt. upd_proc p (p_pagetable_update (\<lambda>_. pt)))]
         (ifS (\<lambda>s. p_pagetable (procs s p) = 0) (allocproc_fail p)
           (seqK [modify (\<lambda>s. s\<lparr>procs := (procs s)(p := (procs s p)\<lparr>p_context :=
               \<lparr>ctx_ra = forkret_pc s, ctx_sp = p_kstack (procs s p) + PGSIZE, ctx_s = replicate 12 0\<rparr>\<rparr>)\<rparr>)]
             (ret (Some p)))))))"

definition growproc :: "int \<Rightarrow> ('r procst_scheme, int) kprog" where
  "growproc n = bind the_proc (\<lambda>p. bind (gets (\<lambda>s. procs s p)) (\<lambda>pr.
     if n > 0 then bind (uvmalloc (p_pagetable pr) (p_sz pr) (p_sz pr + of_int n) PTE_W) (\<lambda>sz.
       if sz = 0 then ret (- 1) else seqK [upd_proc p (p_sz_update (\<lambda>_. sz))] (ret 0))
     else if n < 0 then bind (uvmdealloc (p_pagetable pr) (p_sz pr) (p_sz pr + of_int n)) (\<lambda>sz.
       seqK [upd_proc p (p_sz_update (\<lambda>_. sz))] (ret 0))
     else ret 0))"

section \<open>Sleeping, waking and killing\<close>

text \<open>A channel is an address; \<open>None\<close> is the null pointer.\<close>

definition wakeup_visit :: "chan option \<Rightarrow> nat \<Rightarrow> ('r procst_scheme, unit) kprog" where
  "wakeup_visit ch p = bind myproc (\<lambda>me. whenK (me \<noteq> Some p) (block [
     acquire (L_proc p),
     whenS (\<lambda>s. p_state (procs s p) = SLEEPING \<and> p_chan (procs s p) = ch)
       (upd_proc p (p_state_update (\<lambda>_. RUNNABLE))),
     release (L_proc p)]))"

definition wakeup :: "chan option \<Rightarrow> ('r procst_scheme, unit) kprog" where
  "wakeup ch = forK (wakeup_visit ch) [0..<NPROC]"

definition reparent :: "nat \<Rightarrow> ('r procst_scheme, unit) kprog" where
  "reparent p = forK (\<lambda>pp. whenS (\<lambda>s. p_parent (procs s pp) = Some p) (block [
     modify (\<lambda>s. s\<lparr>procs := (procs s)(pp := (procs s pp)\<lparr>p_parent := initproc s\<rparr>)\<rparr>),
     (\<lambda>s. wakeup (map_option Ch_proc (initproc s)) s)])) [0..<NPROC]"

text \<open>\<^verbatim>\<open>sched\<close> up to \<^verbatim>\<open>swtch\<close>, with the saved flag as its result, and after it.\<close>

definition sched_begin :: "('r procst_scheme, bool) kprog" where
  "sched_begin = bind the_proc (\<lambda>p. seqK [
     panic_if (\<lambda>s. \<not> holding (L_proc p) s) ''sched p->lock'',
     panic_if (\<lambda>s. c_noff (mycpu s) \<noteq> 1) ''sched locks'',
     panic_if (\<lambda>s. p_state (procs s p) = RUNNING) ''sched running'',
     panic_if intr_get ''sched interruptible'']
     (gets (\<lambda>s. c_intena (mycpu s))))"

definition sched_end :: "bool \<Rightarrow> ('r procst_scheme, unit) kprog" where
  "sched_end intena = modify (upd_mycpu (c_intena_update (\<lambda>_. intena)))"

definition sleep_begin :: "chan \<Rightarrow> lock \<Rightarrow> ('r procst_scheme, bool) kprog" where
  "sleep_begin ch lk = bind the_proc (\<lambda>p. seqK [
     acquire (L_proc p),
     release lk,
     upd_proc p (p_chan_update (\<lambda>_. Some ch)),
     upd_proc p (p_state_update (\<lambda>_. SLEEPING))]
     sched_begin)"

definition sleep_end :: "nat \<Rightarrow> bool \<Rightarrow> lock \<Rightarrow> ('r procst_scheme, unit) kprog" where
  "sleep_end p intena lk = block [
     sched_end intena,
     upd_proc p (p_chan_update (\<lambda>_. None)),
     release (L_proc p),
     acquire lk]"

definition sleep :: "chan \<Rightarrow> lock \<Rightarrow> ('r procst_scheme, 'a) kprog" where
  "sleep ch lk = bind (sleep_begin ch lk) (\<lambda>_ s. Sleep ch s)"

fun kill_scan :: "int \<Rightarrow> nat list \<Rightarrow> ('r procst_scheme, int) kprog" where
  "kill_scan pid [] = ret (- 1)"
| "kill_scan pid (p # ps) = seqK [acquire (L_proc p)]
     (ifS (\<lambda>s. p_pid (procs s p) = pid)
       (seqK [
          upd_proc p (p_killed_update (\<lambda>_. 1)),
          whenS (\<lambda>s. p_state (procs s p) = SLEEPING) (upd_proc p (p_state_update (\<lambda>_. RUNNABLE))),
          release (L_proc p)] (ret 0))
       (seqK [release (L_proc p)] (kill_scan pid ps)))"

definition kill :: "int \<Rightarrow> ('r procst_scheme, int) kprog" where
  "kill pid = kill_scan pid [0..<NPROC]"

definition setkilled :: "nat \<Rightarrow> ('r procst_scheme, unit) kprog" where
  "setkilled p = block [acquire (L_proc p), upd_proc p (p_killed_update (\<lambda>_. 1)), release (L_proc p)]"

definition killed :: "nat \<Rightarrow> ('r procst_scheme, int) kprog" where
  "killed p = seqK [acquire (L_proc p)] (bind (gets (\<lambda>s. p_killed (procs s p))) (\<lambda>k.
     seqK [release (L_proc p)] (ret k)))"

section \<open>Scheduling\<close>

text \<open>One visit of the scheduler to slot \<open>p\<close>.  The parameter \<open>swtch_to\<close> is what the process does from
  the switch to it until it switches back; \<open>scheduler_enter\<close> and \<open>scheduler_leave\<close> are what the scheduler
  does before and after it.\<close>

definition scheduler_enter :: "nat \<Rightarrow> ('r procst_scheme, unit) kprog" where
  "scheduler_enter p = block [
     upd_proc p (p_state_update (\<lambda>_. RUNNING)),
     modify (upd_mycpu (c_proc_update (\<lambda>_. Some p)))]"

definition scheduler_leave :: "('r procst_scheme, unit) kprog" where
  "scheduler_leave = modify (upd_mycpu (c_proc_update (\<lambda>_. None)))"

definition scheduler_visit :: "(nat \<Rightarrow> ('r procst_scheme, unit) kprog) \<Rightarrow> nat \<Rightarrow> ('r procst_scheme, unit) kprog" where
  "scheduler_visit swtch_to p = block [
     acquire (L_proc p),
     whenS (\<lambda>s. p_state (procs s p) = RUNNABLE) (block [
       scheduler_enter p,
       swtch_to p,
       scheduler_leave]),
     release (L_proc p)]"

text \<open>\<^verbatim>\<open>scheduler\<close> never returns: \<open>n\<close> rounds of its loop.\<close>

fun scheduler_rounds :: "(nat \<Rightarrow> ('r procst_scheme, unit) kprog) \<Rightarrow> nat \<Rightarrow> ('r procst_scheme, unit) kprog" where
  "scheduler_rounds swtch_to 0 = skip"
| "scheduler_rounds swtch_to (Suc n) = block [
     intr_on,
     forK (scheduler_visit swtch_to) [0..<NPROC],
     scheduler_rounds swtch_to n]"

definition scheduler :: "(nat \<Rightarrow> ('r procst_scheme, unit) kprog) \<Rightarrow> nat \<Rightarrow> ('r procst_scheme, unit) kprog" where
  "scheduler swtch_to n = block [
     modify (upd_mycpu (c_proc_update (\<lambda>_. None))),
     scheduler_rounds swtch_to n]"

text \<open>\<^verbatim>\<open>yield\<close> up to the switch, and after it.\<close>

definition yield_begin :: "('r procst_scheme, bool) kprog" where
  "yield_begin = bind the_proc (\<lambda>p. seqK [
     acquire (L_proc p),
     upd_proc p (p_state_update (\<lambda>_. RUNNABLE))]
     sched_begin)"

definition yield_end :: "nat \<Rightarrow> bool \<Rightarrow> ('r procst_scheme, unit) kprog" where
  "yield_end p intena = block [sched_end intena, release (L_proc p)]"

section \<open>Waiting for children\<close>

text \<open>The scan of \<^verbatim>\<open>wait\<close> over the table: \<open>Inl r\<close> when it returns \<open>r\<close>, \<open>Inr havekids\<close> otherwise.\<close>

fun wait_scan :: "nat \<Rightarrow> u64 \<Rightarrow> bool \<Rightarrow> nat list \<Rightarrow> ('r procst_scheme, int + bool) kprog" where
  "wait_scan p addr havekids [] = ret (Inr havekids)"
| "wait_scan p addr havekids (pp # pps) =
     ifS (\<lambda>s. p_parent (procs s pp) = Some p)
       (seqK [acquire (L_proc pp)]
         (ifS (\<lambda>s. p_state (procs s pp) = ZOMBIE)
           (bind (gets (\<lambda>s. procs s pp)) (\<lambda>child.
             bind (if addr \<noteq> 0 then (\<lambda>s. copyout (p_pagetable (procs s p)) addr (le 4 (of_int (p_xstate child) :: u32)) s)
                   else ret 0) (\<lambda>r.
               if r < 0 then seqK [release (L_proc pp), release L_wait] (ret (Inl (- 1)))
               else seqK [freeproc pp, release (L_proc pp), release L_wait] (ret (Inl (p_pid child))))))
           (seqK [release (L_proc pp)] (wait_scan p addr True pps))))
       (wait_scan p addr havekids pps)"

text \<open>One pass of its loop, from \<^verbatim>\<open>wait_lock\<close> held: when the process is woken the next pass begins.\<close>

definition wait_pass :: "nat \<Rightarrow> u64 \<Rightarrow> ('r procst_scheme, int) kprog" where
  "wait_pass p addr = bind (wait_scan p addr False [0..<NPROC]) (\<lambda>r. case r of
     Inl v \<Rightarrow> ret v
   | Inr havekids \<Rightarrow> bind (if havekids then killed p else ret 1) (\<lambda>k.
       if \<not> havekids \<or> k \<noteq> 0 then seqK [release L_wait] (ret (- 1))
       else sleep (Ch_proc p) L_wait))"

definition wait :: "u64 \<Rightarrow> ('r procst_scheme, int) kprog" where
  "wait addr = bind the_proc (\<lambda>p. seqK [acquire L_wait] (wait_pass p addr))"

section \<open>Copying to user or kernel\<close>

definition either_copyout :: "bool \<Rightarrow> u64 \<Rightarrow> u8 list \<Rightarrow> ('r procst_scheme, int) kprog" where
  "either_copyout user_dst dst src = bind myproc (\<lambda>p.
     if user_dst then (case p of None \<Rightarrow> panicK ''kerneltrap''
       | Some i \<Rightarrow> (\<lambda>s. copyout (p_pagetable (procs s i)) dst src s))
     else seqK [upd_mem (\<lambda>m. store m dst src)] (ret 0))"

definition either_copyin :: "bool \<Rightarrow> u64 \<Rightarrow> nat \<Rightarrow> ('r procst_scheme, int \<times> u8 list) kprog" where
  "either_copyin user_src src k = bind myproc (\<lambda>p.
     if user_src then (case p of None \<Rightarrow> panicK ''kerneltrap''
       | Some i \<Rightarrow> (\<lambda>s. copyin (p_pagetable (procs s i)) src k s))
     else gets (\<lambda>s. (0, bytes (mem s) src k)))"

section \<open>Frame\<close>

lemma vmst_sel_frame [simp]:
  "kernel_pagetable (acquired l s) = kernel_pagetable s" "kernel_pagetable (released l s) = kernel_pagetable s" "kernel_pagetable (cycled s) = kernel_pagetable s"
  "etext (acquired l s) = etext s" "etext (released l s) = etext s" "etext (cycled s) = etext s"
  "trampoline (acquired l s) = trampoline s" "trampoline (released l s) = trampoline s" "trampoline (cycled s) = trampoline s"
  by (simp_all add: base_effects)

lemma vmst_upd_frame [simp]:
  "acquired l (kernel_pagetable_update g0 s) = kernel_pagetable_update g0 (acquired l s)" "released l (kernel_pagetable_update g0 s) = kernel_pagetable_update g0 (released l s)"
  "cycled (kernel_pagetable_update g0 s) = kernel_pagetable_update g0 (cycled s)"
  "acquired l (etext_update g1 s) = etext_update g1 (acquired l s)" "released l (etext_update g1 s) = etext_update g1 (released l s)"
  "cycled (etext_update g1 s) = etext_update g1 (cycled s)"
  "acquired l (trampoline_update g2 s) = trampoline_update g2 (acquired l s)" "released l (trampoline_update g2 s) = trampoline_update g2 (released l s)"
  "cycled (trampoline_update g2 s) = trampoline_update g2 (cycled s)"
  by (simp_all add: base_effects)

lemma vmst_base_frame [simp]:
  "cpuid (kernel_pagetable_update g0 s) = cpuid s" "mycpu (kernel_pagetable_update g0 s) = mycpu s" "intr_get (kernel_pagetable_update g0 s) = intr_get s"
  "holding l (kernel_pagetable_update g0 s) = holding l s" "unlocked l (kernel_pagetable_update g0 s) = unlocked l s" "intr_sane (kernel_pagetable_update g0 s) = intr_sane s"
  "cpuid (etext_update g1 s) = cpuid s" "mycpu (etext_update g1 s) = mycpu s" "intr_get (etext_update g1 s) = intr_get s"
  "holding l (etext_update g1 s) = holding l s" "unlocked l (etext_update g1 s) = unlocked l s" "intr_sane (etext_update g1 s) = intr_sane s"
  "cpuid (trampoline_update g2 s) = cpuid s" "mycpu (trampoline_update g2 s) = mycpu s" "intr_get (trampoline_update g2 s) = intr_get s"
  "holding l (trampoline_update g2 s) = holding l s" "unlocked l (trampoline_update g2 s) = unlocked l s" "intr_sane (trampoline_update g2 s) = intr_sane s"
  by (simp_all add: cpuid_def r_tp_def mycpu_def intr_get_bit holding_def unlocked_def intr_sane_def)

lemma procst_sel_frame [simp]:
  "procs (acquired l s) = procs s" "procs (released l s) = procs s" "procs (cycled s) = procs s"
  "initproc (acquired l s) = initproc s" "initproc (released l s) = initproc s" "initproc (cycled s) = initproc s"
  "nextpid (acquired l s) = nextpid s" "nextpid (released l s) = nextpid s" "nextpid (cycled s) = nextpid s"
  "forkret_pc (acquired l s) = forkret_pc s" "forkret_pc (released l s) = forkret_pc s" "forkret_pc (cycled s) = forkret_pc s"
  by (simp_all add: base_effects)

lemma procst_upd_frame [simp]:
  "acquired l (procs_update g0 s) = procs_update g0 (acquired l s)" "released l (procs_update g0 s) = procs_update g0 (released l s)"
  "cycled (procs_update g0 s) = procs_update g0 (cycled s)"
  "acquired l (initproc_update g1 s) = initproc_update g1 (acquired l s)" "released l (initproc_update g1 s) = initproc_update g1 (released l s)"
  "cycled (initproc_update g1 s) = initproc_update g1 (cycled s)"
  "acquired l (nextpid_update g2 s) = nextpid_update g2 (acquired l s)" "released l (nextpid_update g2 s) = nextpid_update g2 (released l s)"
  "cycled (nextpid_update g2 s) = nextpid_update g2 (cycled s)"
  "acquired l (forkret_pc_update g3 s) = forkret_pc_update g3 (acquired l s)" "released l (forkret_pc_update g3 s) = forkret_pc_update g3 (released l s)"
  "cycled (forkret_pc_update g3 s) = forkret_pc_update g3 (cycled s)"
  by (simp_all add: base_effects)

lemma procst_base_frame [simp]:
  "cpuid (procs_update g0 s) = cpuid s" "mycpu (procs_update g0 s) = mycpu s" "intr_get (procs_update g0 s) = intr_get s"
  "holding l (procs_update g0 s) = holding l s" "unlocked l (procs_update g0 s) = unlocked l s" "intr_sane (procs_update g0 s) = intr_sane s"
  "cpuid (initproc_update g1 s) = cpuid s" "mycpu (initproc_update g1 s) = mycpu s" "intr_get (initproc_update g1 s) = intr_get s"
  "holding l (initproc_update g1 s) = holding l s" "unlocked l (initproc_update g1 s) = unlocked l s" "intr_sane (initproc_update g1 s) = intr_sane s"
  "cpuid (nextpid_update g2 s) = cpuid s" "mycpu (nextpid_update g2 s) = mycpu s" "intr_get (nextpid_update g2 s) = intr_get s"
  "holding l (nextpid_update g2 s) = holding l s" "unlocked l (nextpid_update g2 s) = unlocked l s" "intr_sane (nextpid_update g2 s) = intr_sane s"
  "cpuid (forkret_pc_update g3 s) = cpuid s" "mycpu (forkret_pc_update g3 s) = mycpu s" "intr_get (forkret_pc_update g3 s) = intr_get s"
  "holding l (forkret_pc_update g3 s) = holding l s" "unlocked l (forkret_pc_update g3 s) = unlocked l s" "intr_sane (forkret_pc_update g3 s) = intr_sane s"
  by (simp_all add: cpuid_def r_tp_def mycpu_def intr_get_bit holding_def unlocked_def intr_sane_def)

section \<open>Closed forms\<close>

lemma pushed_popped_pair:
  "intr_sane s \<Longrightarrow> seqK [push_off] (bind (gets f) (\<lambda>p. seqK [pop_off] (ret p))) s = Ok (f (pushed s)) (cycled s)"
  by (simp add: run_simps popped_pushed_cycled intr_sane_def)

lemma myproc_run: "intr_sane s \<Longrightarrow> myproc s = Ok (c_proc (mycpu s)) (cycled s)"
  unfolding myproc_def by (subst pushed_popped_pair) simp_all

lemma the_proc_run:
  "intr_sane s \<Longrightarrow> the_proc s = (case c_proc (mycpu s) of None \<Rightarrow> Panic ''kerneltrap'' | Some i \<Rightarrow> Ok i (cycled s))"
  by (simp add: the_proc_def run_simps myproc_run split: option.split)

lemma killed_run:
  "unlocked (L_proc p) s \<Longrightarrow> intr_sane s \<Longrightarrow> killed p s = Ok (p_killed (procs s p)) (cycled s)"
  by (simp add: killed_def run_simps) (simp add: unlocked_def intr_sane_def)

section \<open>Wakeup\<close>

definition wake1 :: "chan option \<Rightarrow> proc \<Rightarrow> proc" where
  "wake1 ch pr = (if p_state pr = SLEEPING \<and> p_chan pr = ch then pr\<lparr>p_state := RUNNABLE\<rparr> else pr)"

definition woken :: "chan option \<Rightarrow> nat option \<Rightarrow> nat set \<Rightarrow> (nat \<Rightarrow> proc) \<Rightarrow> nat \<Rightarrow> proc" where
  "woken ch me A ps i = (if i \<in> A \<and> me \<noteq> Some i then wake1 ch (ps i) else ps i)"

lemma wakeup_visit_run:
  assumes "intr_sane s" "c_proc (mycpu s) \<noteq> Some p \<Longrightarrow> unlocked (L_proc p) s"
  shows "wakeup_visit ch p s = Ok () ((cycled s)\<lparr>procs := woken ch (c_proc (mycpu s)) {p} (procs s)\<rparr>)"
proof (cases "c_proc (mycpu s) = Some p")
  case True
  then have "woken ch (c_proc (mycpu s)) {p} (procs s) = procs s" by (auto simp: woken_def)
  with True assms(1) show ?thesis by (simp add: wakeup_visit_def run_simps myproc_run)
next
  case False
  then have w: "woken ch (c_proc (mycpu s)) {p} (procs s) = (procs s)(p := wake1 ch (procs s p))" by (auto simp: woken_def)
  have u: "unlocked (L_proc p) s" using assms(2) False .
  then have l: "lk_locked (locks s (L_proc p)) = 0" by (simp add: unlocked_def)
  have n: "\<not> c_noff (mycpu s) < 0" using assms(1) by (simp add: intr_sane_def)
  show ?thesis unfolding w using False assms(1) u l n
    by (auto simp: wakeup_visit_def run_simps myproc_run wake1_def)
qed

lemma woken_step: "p \<notin> A \<Longrightarrow> woken ch me A (woken ch me {p} ps) = woken ch me (insert p A) ps"
  by (auto simp: woken_def fun_eq_iff)

lemma wakeup_visits:
  assumes "distinct xs" "xs \<noteq> []" "intr_sane s" "\<And>p. p \<in> set xs \<Longrightarrow> c_proc (mycpu s) \<noteq> Some p \<Longrightarrow> unlocked (L_proc p) s"
  shows "forK (wakeup_visit ch) xs s = Ok () ((cycled s)\<lparr>procs := woken ch (c_proc (mycpu s)) (set xs) (procs s)\<rparr>)"
  using assms
proof (induction xs arbitrary: s)
  case (Cons p xs)
  note v = wakeup_visit_run [of s p ch, OF Cons.prems(3) Cons.prems(4)]
  show ?case
  proof (cases "xs = []")
    case True
    with v show ?thesis by (simp add: run_simps)
  next
    case False
    let ?t = "(cycled s)\<lparr>procs := woken ch (c_proc (mycpu s)) {p} (procs s)\<rparr>"
    have "c_proc (mycpu ?t) = c_proc (mycpu s)" "intr_sane ?t" using Cons.prems(3) by simp_all
    moreover have "q \<in> set xs \<Longrightarrow> c_proc (mycpu ?t) \<noteq> Some q \<Longrightarrow> unlocked (L_proc q) ?t" for q
      using Cons.prems(4) by simp
    ultimately show ?thesis using Cons.IH [of ?t] False Cons.prems(1) v
      by (simp add: run_simps woken_step)
  qed
qed simp

text \<open>The locks of all slots but the current one are free, as the comment at \<^verbatim>\<open>wakeup\<close> asks.\<close>

definition others_unlocked :: "'r procst_scheme \<Rightarrow> bool" where
  "others_unlocked s \<longleftrightarrow> (\<forall>p<NPROC. c_proc (mycpu s) \<noteq> Some p \<longrightarrow> unlocked (L_proc p) s)"

lemma wakeup_run:
  "intr_sane s \<Longrightarrow> others_unlocked s \<Longrightarrow>
    wakeup ch s = Ok () ((cycled s)\<lparr>procs := woken ch (c_proc (mycpu s)) {..<NPROC} (procs s)\<rparr>)"
  unfolding wakeup_def by (subst wakeup_visits) (simp_all add: others_unlocked_def atLeast_upt)

lemma others_unlocked_frame [simp]:
  "others_unlocked (cycled s) = others_unlocked s" "others_unlocked (procs_update f s) = others_unlocked s"
  "others_unlocked (mem_update g s) = others_unlocked s"
  "(\<forall>p. l \<noteq> L_proc p) \<Longrightarrow> others_unlocked (acquired l s) = others_unlocked s"
  "(\<forall>p. l \<noteq> L_proc p) \<Longrightarrow> others_unlocked (released l s) = others_unlocked s"
  by (simp_all add: others_unlocked_def) (metis acquired_simps(7) released_simps(6))+

section \<open>Kill\<close>

definition all_unlocked :: "'r procst_scheme \<Rightarrow> bool" where
  "all_unlocked s \<longleftrightarrow> (\<forall>p<NPROC. unlocked (L_proc p) s)"

definition kill1 :: "proc \<Rightarrow> proc" where
  "kill1 pr = (if p_state pr = SLEEPING then pr\<lparr>p_killed := 1, p_state := RUNNABLE\<rparr> else pr\<lparr>p_killed := 1\<rparr>)"

lemma kill_scan_run:
  assumes "intr_sane s" "\<And>p. p \<in> set xs \<Longrightarrow> unlocked (L_proc p) s"
  shows "kill_scan pid xs s = (case find (\<lambda>p. p_pid (procs s p) = pid) xs of
      None \<Rightarrow> Ok (- 1) (if xs = [] then s else cycled s)
    | Some p \<Rightarrow> Ok 0 ((cycled s)\<lparr>procs := (procs s)(p := kill1 (procs s p))\<rparr>))"
  using assms
proof (induction xs arbitrary: s)
  case (Cons p xs)
  have u: "unlocked (L_proc p) s" "lk_locked (locks s (L_proc p)) = 0" and n: "\<not> c_noff (mycpu s) < 0"
    using Cons.prems by (simp_all add: unlocked_def intr_sane_def)
  have IH: "kill_scan pid xs (cycled s) = (case find (\<lambda>p. p_pid (procs s p) = pid) xs of
      None \<Rightarrow> Ok (- 1) (if xs = [] then cycled s else cycled (cycled s))
    | Some p \<Rightarrow> Ok 0 ((cycled (cycled s))\<lparr>procs := (procs s)(p := kill1 (procs s p))\<rparr>))"
    using Cons.IH [of "cycled s"] Cons.prems by (auto split: option.split)
  show ?case
  proof (cases "p_pid (procs s p) = pid")
    case True
    then show ?thesis using u n Cons.prems(1) by (auto simp: run_simps kill1_def)
  next
    case False
    then show ?thesis using u n Cons.prems(1) IH by (auto simp: run_simps split: option.split)
  qed
qed (simp add: run_simps)

section \<open>Sleep\<close>

definition asleep :: "chan \<Rightarrow> proc \<Rightarrow> proc" where
  "asleep ch pr = pr\<lparr>p_chan := Some ch, p_state := SLEEPING\<rparr>"

lemma handover_noff:
  "c_noff (mycpu (released lk (acquired l s))) = c_noff (mycpu s)" "\<not> intr_get (acquired l s)"
  by simp_all

lemma popped_no_intr: "1 < c_noff (mycpu s) \<Longrightarrow> intr_get (popped s) = intr_get s"
  by (simp add: popped_def)

lemma released_intr: "1 < c_noff (mycpu s) \<Longrightarrow> intr_get (released l s) = intr_get s"
  by (simp add: released_def popped_no_intr)

lemma sleep_begin_run:
  fixes ch :: chan
  assumes "c_proc (mycpu s) = Some p" "holding lk s" "c_noff (mycpu s) = 1" "\<not> intr_get s"
    and "lk \<noteq> L_proc p" "unlocked (L_proc p) s"
  defines "t \<equiv> (released lk (acquired (L_proc p) s))\<lparr>procs := (procs s)(p := asleep ch (procs s p))\<rparr>"
  shows "sleep_begin ch lk s = Ok (c_intena (mycpu s)) t"
    and "unlocked lk t" "holding (L_proc p) t" "\<not> intr_get t" "c_noff (mycpu t) = 1"
proof -
  have sane: "intr_sane s" using assms(3,4) by (simp add: intr_sane_def)
  have cy: "cycled s = s" using assms(3) by (simp add: cycled_nested)
  have l: "lk_locked (locks s (L_proc p)) = 0" using assms(6) by (simp add: unlocked_def)
  let ?u = "released lk (acquired (L_proc p) s)"
  have nf: "c_noff (mycpu ?u) = 1" using assms(3) by simp
  have hp: "holding (L_proc p) ?u" using assms(5) by simp
  have ni: "\<not> intr_get ?u" using assms(3) by (simp add: released_intr)
  have it: "c_intena (mycpu ?u) = c_intena (mycpu s)" using assms(3) by (simp add: released_def acquired_def)
  have sane': "intr_sane t" using nf ni by (simp add: t_def intr_sane_def)
  have cy': "cycled t = t" using nf by (intro cycled_nested) (simp add: t_def)
  have cp: "c_proc (mycpu t) = Some p" using assms(1) by (simp add: t_def)
  show "holding (L_proc p) t" "\<not> intr_get t" "c_noff (mycpu t) = 1" using hp ni nf by (simp_all add: t_def)
  show "unlocked lk t" by (simp add: t_def)
  have st: "p_state (procs t p) = SLEEPING" by (simp add: t_def asleep_def)
  have "sched_begin t = Ok (c_intena (mycpu s)) t"
    using sane' cp cy' hp nf ni st it by (simp add: sched_begin_def run_simps the_proc_run t_def)
  moreover have "t = ?u\<lparr>procs := ((procs s)(p := (procs s p)\<lparr>p_chan := Some ch\<rparr>))(p := (procs s p)\<lparr>p_chan := Some ch, p_state := SLEEPING\<rparr>)\<rparr>"
    by (simp add: t_def asleep_def)
  ultimately show "sleep_begin ch lk s = Ok (c_intena (mycpu s)) t"
    using assms(1,2,3,5) sane cy l
    by (simp add: sleep_begin_def run_simps the_proc_run holding_def unlocked_def)
qed

section \<open>A concrete table\<close>

definition idle_proc :: proc where
  "idle_proc = \<lparr>p_state = UNUSED, p_chan = None, p_killed = 0, p_xstate = 0, p_pid = 0, p_parent = None, p_kstack = 0,
     p_sz = 0, p_pagetable = 0, p_trapframe = 0, p_context = \<lparr>ctx_ra = 0, ctx_sp = 0, ctx_s = []\<rparr>,
     p_ofile = replicate 16 None, p_cwd = None, p_name = replicate 16 0\<rparr>"

text \<open>Hart 0 runs process 1 (slot 0); process 2 (slot 1) sleeps on the channel of the log and process 3
  (slot 2) on the clock.\<close>

definition demo_procs :: procst where
  "demo_procs = kbase.extend (boot_base\<lparr>cpus := \<lambda>h. \<lparr>c_proc = (if h = 0 then Some 0 else None), c_noff = 0, c_intena = False\<rparr>\<rparr>)
     \<lparr>mem = \<lambda>_. 0, freelist = 0, kend = 0x87FF8000, kernel_pagetable = 0, etext = 0, trampoline = 0,
      procs = (\<lambda>_. idle_proc)(
        0 := idle_proc\<lparr>p_state := RUNNING, p_pid := 1\<rparr>,
        1 := idle_proc\<lparr>p_state := SLEEPING, p_pid := 2, p_chan := Some Ch_log\<rparr>,
        2 := idle_proc\<lparr>p_state := SLEEPING, p_pid := 3, p_chan := Some Ch_ticks\<rparr>),
      initproc = Some 0, nextpid = 4, forkret_pc = 0\<rparr>"

lemma demo_procs_ok:
  "intr_sane demo_procs" "unlocked l demo_procs" "c_proc (mycpu demo_procs) = Some 0"
  by (simp_all add: demo_procs_def kbase.extend_def boot_base_def intr_sane_def mycpu_def cpuid_def r_tp_def unlocked_def)

lemma demo_procs_sel:
  "procs demo_procs = (\<lambda>_. idle_proc)(
        0 := idle_proc\<lparr>p_state := RUNNING, p_pid := 1\<rparr>,
        1 := idle_proc\<lparr>p_state := SLEEPING, p_pid := 2, p_chan := Some Ch_log\<rparr>,
        2 := idle_proc\<lparr>p_state := SLEEPING, p_pid := 3, p_chan := Some Ch_ticks\<rparr>)"
  by (simp add: demo_procs_def kbase.extend_def)

section \<open>The properties\<close>

text \<open>C17.  \<^verbatim>\<open>wakeup\<close> makes runnable exactly the processes that sleep on the channel, other than the caller,
  and changes nothing else of the table; no lock is left held.\<close>

theorem wakeup_wakes_exactly:
  assumes "intr_sane s" and "others_unlocked s"
  shows "\<exists>t. wakeup ch s = Ok () t \<and> intr_sane t \<and> others_unlocked t \<and> mem t = mem s
    \<and> procs t = (\<lambda>i. if i < NPROC \<and> c_proc (mycpu s) \<noteq> Some i \<and> p_state (procs s i) = SLEEPING \<and> p_chan (procs s i) = ch
        then (procs s i)\<lparr>p_state := RUNNABLE\<rparr> else procs s i)"
  using assms by (auto simp: wakeup_run woken_def wake1_def fun_eq_iff)

theorem wakeup_wakes_exactly_witness:
  "\<exists>t. wakeup (Some Ch_log) demo_procs = Ok () t \<and> p_state (procs t 1) = RUNNABLE \<and> p_state (procs t 2) = SLEEPING"
proof -
  have "others_unlocked demo_procs" by (simp add: others_unlocked_def demo_procs_ok)
  with wakeup_wakes_exactly [OF demo_procs_ok(1), of "Some Ch_log"] show ?thesis
    by (auto simp: demo_procs_ok demo_procs_sel idle_proc_def)
qed

text \<open>C18.  \<^verbatim>\<open>kill\<close> marks the first process with the given pid as killed and makes it runnable if it sleeps,
  so that it can notice; without such a process it returns -1.  No other slot changes.\<close>

theorem kill_marks_and_wakes:
  assumes "intr_sane s" and "all_unlocked s"
  shows "((\<forall>p<NPROC. p_pid (procs s p) \<noteq> pid) \<longrightarrow> (\<exists>t. kill pid s = Ok (- 1) t \<and> procs t = procs s))
    \<and> (p < NPROC \<and> p_pid (procs s p) = pid \<and> (\<forall>q<p. p_pid (procs s q) \<noteq> pid) \<longrightarrow>
      (\<exists>t. kill pid s = Ok 0 t \<and> p_killed (procs t p) = 1
        \<and> p_state (procs t p) = (if p_state (procs s p) = SLEEPING then RUNNABLE else p_state (procs s p))
        \<and> (\<forall>q. q \<noteq> p \<longrightarrow> procs t q = procs s q)))"
proof (intro conjI impI)
  have run: "kill pid s = (case find (\<lambda>p. p_pid (procs s p) = pid) [0..<NPROC] of
      None \<Rightarrow> Ok (- 1) (cycled s)
    | Some p \<Rightarrow> Ok 0 ((cycled s)\<lparr>procs := (procs s)(p := kill1 (procs s p))\<rparr>))"
    unfolding kill_def using assms by (subst kill_scan_run) (auto simp: all_unlocked_def)
  show "\<exists>t. kill pid s = Ok (- 1) t \<and> procs t = procs s" if "\<forall>p<NPROC. p_pid (procs s p) \<noteq> pid"
    using that unfolding run by (auto simp: find_None_iff split: option.split dest!: find_Some_iff [THEN iffD1])
  show "\<exists>t. kill pid s = Ok 0 t \<and> p_killed (procs t p) = 1
        \<and> p_state (procs t p) = (if p_state (procs s p) = SLEEPING then RUNNABLE else p_state (procs s p))
        \<and> (\<forall>q. q \<noteq> p \<longrightarrow> procs t q = procs s q)"
    if p: "p < NPROC \<and> p_pid (procs s p) = pid \<and> (\<forall>q<p. p_pid (procs s q) \<noteq> pid)"
  proof -
    have "find (\<lambda>p. p_pid (procs s p) = pid) [0..<NPROC] = Some p" using p unfolding find_Some_iff by auto
    then show ?thesis unfolding run by (simp add: kill1_def)
  qed
qed

theorem kill_marks_and_wakes_witness:
  "\<exists>t u. kill 3 demo_procs = Ok 0 t \<and> p_killed (procs t 2) = 1 \<and> p_state (procs t 2) = RUNNABLE
    \<and> kill 9 demo_procs = Ok (- 1) u"
proof -
  have a: "all_unlocked demo_procs" by (simp add: all_unlocked_def demo_procs_ok)
  have "\<forall>p<NPROC. p_pid (procs demo_procs p) \<noteq> 9" by (simp add: demo_procs_sel idle_proc_def)
  moreover have "(2::nat) < NPROC \<and> p_pid (procs demo_procs 2) = 3 \<and> (\<forall>q<2. p_pid (procs demo_procs q) \<noteq> 3)"
    by (auto simp: demo_procs_sel idle_proc_def)
  ultimately show ?thesis
    using kill_marks_and_wakes [OF demo_procs_ok(1) a, of 3 2] kill_marks_and_wakes [OF demo_procs_ok(1) a, of 9 2]
    by (fastforce simp: demo_procs_sel idle_proc_def)
qed



end
