(* ===== verification/Xv6_Sleeplock.thy ===== *)
theory Xv6_Sleeplock
  imports Xv6_Proc
begin

text \<open>
  The sleep locks of \<^verbatim>\<open>kernel/sleeplock.c\<close>: locks that a process may hold while it sleeps, built from
  a spin lock and \<^verbatim>\<open>sleep\<close>/\<^verbatim>\<open>wakeup\<close>.  \<open>acquiresleep_loop\<close> is the loop of \<^verbatim>\<open>acquiresleep\<close> with the spin lock
  held, where a process that is woken goes on.  The lemmas give the closed forms that the
  components above use, and the exclusion of the processes that use one lock.
\<close>

section \<open>State and operations\<close>

record sleeplock =
  sl_locked :: u32
  sl_name :: string
  sl_pid :: int

record slst = procst +
  slocks :: "sleeplk \<Rightarrow> sleeplock"

abbreviation upd_sl :: "sleeplk \<Rightarrow> (sleeplock \<Rightarrow> sleeplock) \<Rightarrow> ('r slst_scheme, unit) kprog" where
  "upd_sl l f \<equiv> modify (\<lambda>s. s\<lparr>slocks := (slocks s)(l := f (slocks s l))\<rparr>)"

definition initsleeplock :: "sleeplk \<Rightarrow> string \<Rightarrow> ('r slst_scheme, unit) kprog" where
  "initsleeplock l nm = block [
     initlock (L_sleep l) ''sleep lock'',
     upd_sl l (sl_name_update (\<lambda>_. nm)),
     upd_sl l (sl_locked_update (\<lambda>_. 0)),
     upd_sl l (sl_pid_update (\<lambda>_. 0))]"

definition acquiresleep_loop :: "sleeplk \<Rightarrow> ('r slst_scheme, unit) kprog" where
  "acquiresleep_loop l = ifS (\<lambda>s. sl_locked (slocks s l) \<noteq> 0)
     (sleep (Ch_sleeplock l) (L_sleep l))
     (block [
       upd_sl l (sl_locked_update (\<lambda>_. 1)),
       bind the_proc (\<lambda>p. modify (\<lambda>s. s\<lparr>slocks := (slocks s)(l := (slocks s l)\<lparr>sl_pid := p_pid (procs s p)\<rparr>)\<rparr>)),
       release (L_sleep l)])"

definition acquiresleep :: "sleeplk \<Rightarrow> ('r slst_scheme, unit) kprog" where
  "acquiresleep l = block [acquire (L_sleep l), acquiresleep_loop l]"

definition releasesleep :: "sleeplk \<Rightarrow> ('r slst_scheme, unit) kprog" where
  "releasesleep l = block [
     acquire (L_sleep l),
     upd_sl l (sl_locked_update (\<lambda>_. 0)),
     upd_sl l (sl_pid_update (\<lambda>_. 0)),
     wakeup (Some (Ch_sleeplock l)),
     release (L_sleep l)]"

definition holdingsleep :: "sleeplk \<Rightarrow> ('r slst_scheme, bool) kprog" where
  "holdingsleep l = seqK [acquire (L_sleep l)]
     (bind (ifS (\<lambda>s. sl_locked (slocks s l) \<noteq> 0)
              (bind the_proc (\<lambda>p. gets (\<lambda>s. sl_pid (slocks s l) = p_pid (procs s p))))
              (ret False)) (\<lambda>r.
       seqK [release (L_sleep l)] (ret r)))"

section \<open>Frame\<close>

lemma slst_sel_frame [simp]:
  "slocks (acquired l s) = slocks s" "slocks (released l s) = slocks s" "slocks (cycled s) = slocks s"
  by (simp_all add: base_effects)

lemma slst_upd_frame [simp]:
  "acquired l (slocks_update g0 s) = slocks_update g0 (acquired l s)" "released l (slocks_update g0 s) = slocks_update g0 (released l s)"
  "cycled (slocks_update g0 s) = slocks_update g0 (cycled s)"
  by (simp_all add: base_effects)

lemma slst_base_frame [simp]:
  "cpuid (slocks_update g0 s) = cpuid s" "mycpu (slocks_update g0 s) = mycpu s" "intr_get (slocks_update g0 s) = intr_get s"
  "holding l (slocks_update g0 s) = holding l s" "unlocked l (slocks_update g0 s) = unlocked l s" "intr_sane (slocks_update g0 s) = intr_sane s"
  by (simp_all add: cpuid_def r_tp_def mycpu_def intr_get_bit holding_def unlocked_def intr_sane_def)

section \<open>Closed forms\<close>

text \<open>\<open>roused C me ps\<close>: the processes other than \<open>me\<close> that sleep on a channel of \<open>C\<close> are runnable.\<close>

definition roused :: "chan set \<Rightarrow> nat option \<Rightarrow> (nat \<Rightarrow> proc) \<Rightarrow> nat \<Rightarrow> proc" where
  "roused C me ps i = (if i < NPROC \<and> me \<noteq> Some i \<and> p_state (ps i) = SLEEPING \<and> p_chan (ps i) \<in> Some ` C
     then (ps i)\<lparr>p_state := RUNNABLE\<rparr> else ps i)"

lemma woken_roused: "woken (Some ch) me {..<NPROC} ps = roused {ch} me ps"
  by (auto simp: woken_def wake1_def roused_def fun_eq_iff)

lemma roused_roused [simp]: "roused C me (roused D me ps) = roused (C \<union> D) me ps"
  by (auto simp: roused_def fun_eq_iff)

lemma roused_empty [simp]: "roused {} me ps = ps"
  by (auto simp: roused_def fun_eq_iff)

lemma roused_me [simp]: "roused C (Some p) ps p = ps p"
  by (simp add: roused_def)

lemma roused_same [simp]:
  "p_pid (roused C me ps i) = p_pid (ps i)" "p_chan (roused C me ps i) = p_chan (ps i)"
  "p_pagetable (roused C me ps i) = p_pagetable (ps i)" "p_ofile (roused C me ps i) = p_ofile (ps i)"
  "p_killed (roused C me ps i) = p_killed (ps i)" "p_cwd (roused C me ps i) = p_cwd (ps i)"
  by (simp_all add: roused_def)

lemma wakeup_rouses:
  "intr_sane s \<Longrightarrow> others_unlocked s \<Longrightarrow>
    wakeup (Some ch) s = Ok () ((cycled s)\<lparr>procs := roused {ch} (c_proc (mycpu s)) (procs s)\<rparr>)"
  unfolding woken_roused [symmetric] by (rule wakeup_run)

text \<open>A hart that runs process \<open>p\<close> and holds no spin lock, when no other hart holds one either.\<close>

definition quiet :: "nat \<Rightarrow> 'r procst_scheme \<Rightarrow> bool" where
  "quiet p s \<longleftrightarrow> (\<forall>l. unlocked l s) \<and> c_noff (mycpu s) = 0 \<and> c_proc (mycpu s) = Some p
     \<and> p < NPROC \<and> p_state (procs s p) = RUNNING \<and> p_chan (procs s p) = None"

lemma quietD:
  assumes "quiet p s"
  shows "unlocked l s" "lk_locked (locks s l) = 0" "c_noff (mycpu s) = 0" "c_proc (mycpu s) = Some p" "intr_sane s"
    "others_unlocked s" "all_unlocked s" "p < NPROC"
  using assms by (simp_all add: quiet_def intr_sane_def unlocked_def others_unlocked_def all_unlocked_def)

lemma quiet_cycled [simp]: "quiet p (cycled s) = quiet p s"
  by (simp add: quiet_def)

lemma quiet_roused [simp]: "quiet p (s\<lparr>procs := roused C (Some p) (procs s)\<rparr>) = quiet p s"
  by (simp add: quiet_def)

lemma quiet_slocks [simp]: "quiet p (slocks_update f s) = quiet p s"
  by (simp add: quiet_def)

lemma others_unlocked_slocks [simp]: "others_unlocked (slocks_update f s) = others_unlocked s"
  by (simp add: others_unlocked_def)

lemma acquiresleep_free:
  assumes "quiet p s" "sl_locked (slocks s l) = 0"
  shows "acquiresleep l s = Ok () ((cycled s)\<lparr>slocks := (slocks s)(l := (slocks s l)\<lparr>sl_locked := 1, sl_pid := p_pid (procs s p)\<rparr>)\<rparr>)"
  using quietD [OF assms(1)] assms(2)
  by (simp add: acquiresleep_def acquiresleep_loop_def run_simps the_proc_run)

lemma acquiresleep_held:
  assumes "quiet p s" "sl_locked (slocks s l) \<noteq> 0"
  shows "acquiresleep l s = Sleep (Ch_sleeplock l)
    ((released (L_sleep l) (acquired (L_proc p) (acquired (L_sleep l) s)))\<lparr>procs := (procs s)(p := asleep (Ch_sleeplock l) (procs s p))\<rparr>)"
  using quietD [OF assms(1)] assms(2)
  by (simp add: acquiresleep_def acquiresleep_loop_def sleep_def run_simps sleep_begin_run)

lemma releasesleep_run:
  assumes "quiet p s"
  shows "releasesleep l s = Ok () ((cycled s)\<lparr>slocks := (slocks s)(l := (slocks s l)\<lparr>sl_locked := 0, sl_pid := 0\<rparr>),
    procs := roused {Ch_sleeplock l} (Some p) (procs s)\<rparr>)"
  using quietD [OF assms(1)]
  by (simp add: releasesleep_def run_simps wakeup_rouses)

lemma holdingsleep_run:
  assumes "quiet p s"
  shows "holdingsleep l s = Ok (sl_locked (slocks s l) \<noteq> 0 \<and> sl_pid (slocks s l) = p_pid (procs s p)) (cycled s)"
  using quietD [OF assms(1)]
  by (simp add: holdingsleep_def run_simps the_proc_run)

section \<open>Frames of the operations\<close>

lemma keeps_locking:
  fixes F :: "'r procst_scheme \<Rightarrow> 'x"
  assumes "\<And>s l. F (acquired l s) = F s" "\<And>s l. F (released l s) = F s" "\<And>s. F (pushed s) = F s" "\<And>s. F (popped s) = F s"
  shows "keeps F (acquire l)" "keeps F (release l)" "keeps F push_off" "keeps F pop_off" "keeps F myproc" "keeps F the_proc"
proof -
  show *: "keeps F (acquire l)" "keeps F (release l)" "keeps F push_off" "keeps F pop_off"
    by (simp_all add: keeps_def acquire_run release_run push_off_run pop_off_run assms)
  show "keeps F myproc" unfolding myproc_def by (intro keeps_intros *)
  then show "keeps F the_proc" unfolding the_proc_def by (intro keeps_intros)
qed

lemma keeps_sleeping:
  fixes F :: "'r procst_scheme \<Rightarrow> 'x"
  assumes "\<And>s l. F (acquired l s) = F s" "\<And>s l. F (released l s) = F s" "\<And>s. F (pushed s) = F s" "\<And>s. F (popped s) = F s"
    and upd: "\<And>s p ch. F (s\<lparr>procs := (procs s)(p := (procs s p)\<lparr>p_chan := ch\<rparr>)\<rparr>) = F s"
      "\<And>s p st. F (s\<lparr>procs := (procs s)(p := (procs s p)\<lparr>p_state := st\<rparr>)\<rparr>) = F s"
  shows "keeps F (sleep c lk)" "keeps F (wakeup ch)"
proof -
  note locking = keeps_locking [of F, OF assms(1-4)]
  have "keeps F sched_begin" unfolding sched_begin_def by (intro keeps_intros locking)
  then have "keeps F (sleep_begin c lk)" unfolding sleep_begin_def by (intro keeps_intros locking upd)
  moreover have "keeps F (\<lambda>s. Sleep c s)" by (simp add: keeps_def)
  ultimately show "keeps F (sleep c lk)" unfolding sleep_def by (intro keeps_intros)
  show "keeps F (wakeup ch)" unfolding wakeup_def wakeup_visit_def by (intro keeps_intros locking upd)
qed

text \<open>What the exclusion argument observes: the sleep lock and the process ids.\<close>

definition sl_view :: "sleeplk \<Rightarrow> 'r slst_scheme \<Rightarrow> sleeplock \<times> (nat \<Rightarrow> int)" where
  "sl_view l s = (slocks s l, \<lambda>i. p_pid (procs s i))"

lemma sl_view_keeps:
  "keeps (sl_view l) (acquire k)" "keeps (sl_view l) (release k)" "keeps (sl_view l) the_proc"
  "keeps (sl_view l) (sleep c k)" "keeps (sl_view l) (wakeup ch)"
  by (intro keeps_locking keeps_sleeping; simp add: sl_view_def fun_eq_iff base_effects)+

lemma the_proc_Ok: "the_proc s = Ok i t \<Longrightarrow> c_proc (mycpu s) = Some i"
  by (auto simp: the_proc_def myproc_def run_simps split: option.splits if_splits)

lemma acquiresleep_loop_Ok:
  assumes "acquiresleep_loop l s = Ok () t" "c_proc (mycpu s) = Some p"
  shows "sl_locked (slocks s l) = 0"
    "sl_view l t = ((slocks s l)\<lparr>sl_locked := 1, sl_pid := p_pid (procs s p)\<rparr>, snd (sl_view l s))"
proof -
  from assms(1) have free: "sl_locked (slocks s l) = 0"
    by (auto simp: acquiresleep_loop_def run_simps sleep_def obind_Ok_iff split: if_splits)
  then show "sl_locked (slocks s l) = 0" .
  let ?s = "s\<lparr>slocks := (slocks s)(l := (slocks s l)\<lparr>sl_locked := 1\<rparr>)\<rparr>"
  from assms(1) free obtain i u where u: "the_proc ?s = Ok i u"
    and r: "release (L_sleep l) (u\<lparr>slocks := (slocks u)(l := (slocks u l)\<lparr>sl_pid := p_pid (procs u i)\<rparr>)\<rparr>) = Ok () t"
    by (auto simp: acquiresleep_loop_def run_simps obind_Ok_iff split: if_splits)
  from the_proc_Ok [OF u] assms(2) have "i = p" by simp
  with keepsD(1) [OF sl_view_keeps(3) u, of l] keepsD(1) [OF sl_view_keeps(2) r, of l]
  show "sl_view l t = ((slocks s l)\<lparr>sl_locked := 1, sl_pid := p_pid (procs s p)\<rparr>, snd (sl_view l s))"
    by (auto simp: sl_view_def fun_eq_iff)
qed

lemma acquiresleep_Ok:
  assumes "acquiresleep l s = Ok () t" "c_proc (mycpu s) = Some p"
  shows "sl_locked (slocks s l) = 0"
    "sl_view l t = ((slocks s l)\<lparr>sl_locked := 1, sl_pid := p_pid (procs s p)\<rparr>, snd (sl_view l s))"
proof -
  from assms(1) have "acquiresleep_loop l (acquired (L_sleep l) s) = Ok () t"
    by (auto simp: acquiresleep_def run_simps split: if_splits)
  from acquiresleep_loop_Ok [OF this, of p] assms(2) show "sl_locked (slocks s l) = 0"
    "sl_view l t = ((slocks s l)\<lparr>sl_locked := 1, sl_pid := p_pid (procs s p)\<rparr>, snd (sl_view l s))"
    by (simp_all add: sl_view_def)
qed

lemma acquiresleep_Sleep:
  "acquiresleep_loop l s = Sleep c t \<Longrightarrow> sl_view l t = sl_view l s"
  "acquiresleep l s = Sleep c t \<Longrightarrow> sl_view l t = sl_view l s"
proof -
  have *: "sl_view l t = sl_view l u" if "acquiresleep_loop l u = Sleep c t" for u
  proof (cases "sl_locked (slocks u l) = 0")
    case True
    let ?s = "u\<lparr>slocks := (slocks u)(l := (slocks u l)\<lparr>sl_locked := 1\<rparr>)\<rparr>"
    have "the_proc ?s \<noteq> Sleep c t"
      by (auto simp: the_proc_def myproc_def run_simps split: option.splits)
    then show ?thesis using that True
      by (cases "the_proc ?s") (auto simp: acquiresleep_loop_def run_simps split: if_splits)
  next
    case False
    with that have "sleep (Ch_sleeplock l) (L_sleep l) u = (Sleep c t :: (chan, _, unit) outcome)"
      by (simp add: acquiresleep_loop_def run_simps)
    from keepsD(2) [OF sl_view_keeps(4) this] show ?thesis .
  qed
  then show "acquiresleep_loop l s = Sleep c t \<Longrightarrow> sl_view l t = sl_view l s" .
  assume "acquiresleep l s = Sleep c t"
  then have "acquiresleep_loop l (acquired (L_sleep l) s) = Sleep c t"
    by (auto simp: acquiresleep_def run_simps split: if_splits)
  from * [OF this] show "sl_view l t = sl_view l s" by (simp add: sl_view_def)
qed

lemma releasesleep_Ok:
  assumes "releasesleep l s = Ok () t"
  shows "sl_view l t = ((slocks s l)\<lparr>sl_locked := 0, sl_pid := 0\<rparr>, snd (sl_view l s))"
proof -
  let ?s = "(acquired (L_sleep l) s)\<lparr>slocks := (slocks s)(l := (slocks s l)\<lparr>sl_locked := 0, sl_pid := 0\<rparr>)\<rparr>"
  from assms obtain u where u: "wakeup (Some (Ch_sleeplock l)) ?s = Ok () u" and r: "release (L_sleep l) u = Ok () t"
    by (auto simp: releasesleep_def run_simps obind_Ok_iff split: if_splits)
  from keepsD(1) [OF sl_view_keeps(5) u, of l] keepsD(1) [OF sl_view_keeps(2) r, of l] show ?thesis
    by (simp add: sl_view_def)
qed

section \<open>Processes that use one sleep lock\<close>

text \<open>Any number of processes that call \<^verbatim>\<open>acquiresleep\<close> and \<^verbatim>\<open>releasesleep\<close> of one lock, in any order.  Between
  their calls anything else may happen in the kernel (\<open>other\<close>) that does not write the lock or the pid of
  the process that holds it.\<close>

datatype slphase = Sl_out | Sl_waiting | Sl_holding

inductive sl_step :: "sleeplk \<Rightarrow> 'r slst_scheme \<times> (nat \<Rightarrow> slphase) \<Rightarrow> 'r slst_scheme \<times> (nat \<Rightarrow> slphase) \<Rightarrow> bool" for l where
  get: "c_proc (mycpu s) = Some p \<Longrightarrow> ph p = Sl_out \<Longrightarrow> acquiresleep l s = Ok () t \<Longrightarrow> sl_step l (s, ph) (t, ph(p := Sl_holding))"
| block: "c_proc (mycpu s) = Some p \<Longrightarrow> ph p = Sl_out \<Longrightarrow> acquiresleep l s = Sleep c t \<Longrightarrow> sl_step l (s, ph) (t, ph(p := Sl_waiting))"
| reget: "c_proc (mycpu s) = Some p \<Longrightarrow> ph p = Sl_waiting \<Longrightarrow> acquiresleep_loop l s = Ok () t \<Longrightarrow> sl_step l (s, ph) (t, ph(p := Sl_holding))"
| reblock: "c_proc (mycpu s) = Some p \<Longrightarrow> ph p = Sl_waiting \<Longrightarrow> acquiresleep_loop l s = Sleep c t \<Longrightarrow> sl_step l (s, ph) (t, ph)"
| put: "ph p = Sl_holding \<Longrightarrow> releasesleep l s = Ok () t \<Longrightarrow> sl_step l (s, ph) (t, ph(p := Sl_out))"
| other: "slocks t l = slocks s l \<Longrightarrow> (\<forall>p. ph p = Sl_holding \<longrightarrow> p_pid (procs t p) = p_pid (procs s p)) \<Longrightarrow> sl_step l (s, ph) (t, ph)"

definition sl_init :: "sleeplk \<Rightarrow> 'r slst_scheme \<times> (nat \<Rightarrow> slphase) \<Rightarrow> bool" where
  "sl_init l g \<longleftrightarrow> sl_locked (slocks (fst g) l) = 0 \<and> (\<forall>p. snd g p = Sl_out)"

definition sl_inv :: "sleeplk \<Rightarrow> 'r slst_scheme \<times> (nat \<Rightarrow> slphase) \<Rightarrow> bool" where
  "sl_inv l g \<longleftrightarrow> (sl_locked (slocks (fst g) l) = 0 \<longrightarrow> (\<forall>p. snd g p \<noteq> Sl_holding))
     \<and> (\<forall>p q. snd g p = Sl_holding \<longrightarrow> snd g q = Sl_holding \<longrightarrow> p = q)
     \<and> (\<forall>p. snd g p = Sl_holding \<longrightarrow> sl_pid (slocks (fst g) l) = p_pid (procs (fst g) p))"

lemma sl_inv_view: "sl_inv l (s, ph) \<Longrightarrow> sl_view l t = sl_view l s \<Longrightarrow> sl_inv l (t, ph)"
  unfolding sl_inv_def sl_view_def prod.inject fun_eq_iff fst_conv snd_conv by metis

lemma sl_inv_get:
  assumes "sl_inv l (s, ph)" "sl_locked (slocks s l) = 0"
    and "sl_view l t = ((slocks s l)\<lparr>sl_locked := 1, sl_pid := p_pid (procs s p)\<rparr>, snd (sl_view l s))"
  shows "sl_inv l (t, ph(p := Sl_holding))"
proof -
  from assms(3) have "slocks t l = (slocks s l)\<lparr>sl_locked := 1, sl_pid := p_pid (procs s p)\<rparr>"
    "\<And>i. p_pid (procs t i) = p_pid (procs s i)" by (auto simp: sl_view_def fun_eq_iff)
  with assms(1,2) show ?thesis by (auto simp: sl_inv_def)
qed

interpretation sl: invariant_system "sl_init l" "sl_step l" "sl_inv l" for l
proof
  show "sl_inv l g" if "sl_init l g" for g :: "'r slst_scheme \<times> (nat \<Rightarrow> slphase)"
    using that by (simp add: sl_init_def sl_inv_def)
  show "sl_inv l g'" if i: "sl_inv l g" and st: "sl_step l g g'" for g g' :: "'r slst_scheme \<times> (nat \<Rightarrow> slphase)"
    using st i
  proof cases
    case (get s p ph t)
    then show ?thesis using i sl_inv_get acquiresleep_Ok by blast
  next
    case (block s p ph c t)
    with i have "sl_inv l (t, ph)" using sl_inv_view acquiresleep_Sleep(2) by blast
    then show ?thesis unfolding block by (auto simp: sl_inv_def)
  next
    case (reget s p ph t)
    then show ?thesis using i sl_inv_get acquiresleep_loop_Ok by blast
  next
    case (reblock s p ph c t)
    then show ?thesis using i sl_inv_view acquiresleep_Sleep(1) by blast
  next
    case (put ph p s t)
    from releasesleep_Ok [OF put(4)] have "slocks t l = (slocks s l)\<lparr>sl_locked := 0, sl_pid := 0\<rparr>"
      by (simp add: sl_view_def)
    then show ?thesis using i put by (auto simp: sl_inv_def)
  next
    case (other t s ph)
    then show ?thesis using i by (auto simp: sl_inv_def)
  qed
qed

section \<open>The properties\<close>

text \<open>Process 1 (slot 0) runs, and the sleep lock of buffer 3 is free.\<close>

definition demo_sl :: slst where
  "demo_sl = procst.extend demo_procs \<lparr>slocks = \<lambda>_. \<lparr>sl_locked = 0, sl_name = ''buffer'', sl_pid = 0\<rparr>\<rparr>"

lemma procst_extend_base [simp]:
  "cpuid (procst.extend s x) = cpuid s" "mycpu (procst.extend s x) = mycpu s" "locks (procst.extend s x) = locks s"
  "unlocked l (procst.extend s x) = unlocked l s" "procs (procst.extend s x) = procs s" "mem (procst.extend s x) = mem s"
  by (simp_all add: procst.extend_def cpuid_def r_tp_def mycpu_def unlocked_def)

lemma demo_sl_ok: "quiet 0 demo_sl" "slocks demo_sl = (\<lambda>_. \<lparr>sl_locked = 0, sl_name = ''buffer'', sl_pid = 0\<rparr>)"
  by (simp_all add: demo_sl_def quiet_def demo_procs_ok demo_procs_sel idle_proc_def)
    (simp_all add: demo_procs_def kbase.extend_def procst.extend_def boot_base_def mycpu_def cpuid_def r_tp_def)



text \<open>C20.  A process that finds the lock held goes to sleep on it and leaves it as it is; when the holder
  releases it, every process that sleeps on it becomes runnable and the lock is free, so that the next
  \<^verbatim>\<open>acquiresleep\<close> returns with the lock held by its caller, as \<^verbatim>\<open>holdingsleep\<close> then says.\<close>

theorem sleeplock_handover:
  fixes s :: "'r slst_scheme"
  assumes "quiet p s"
  shows "(sl_locked (slocks s l) \<noteq> 0 \<longrightarrow> (\<exists>t. acquiresleep l s = Sleep (Ch_sleeplock l) t \<and> slocks t = slocks s
        \<and> p_state (procs t p) = SLEEPING \<and> p_chan (procs t p) = Some (Ch_sleeplock l)))
    \<and> (\<exists>t. releasesleep l s = Ok () t \<and> sl_locked (slocks t l) = 0
        \<and> (\<forall>q<NPROC. q \<noteq> p \<and> p_state (procs s q) = SLEEPING \<and> p_chan (procs s q) = Some (Ch_sleeplock l)
              \<longrightarrow> p_state (procs t q) = RUNNABLE)
        \<and> (\<exists>u. acquiresleep l t = Ok () u \<and> sl_locked (slocks u l) = 1 \<and> sl_pid (slocks u l) = p_pid (procs s p)
              \<and> (\<exists>v. holdingsleep l u = Ok True v)))"
proof -
  have held: "sl_locked (slocks s l) \<noteq> 0 \<longrightarrow> (\<exists>t. acquiresleep l s = Sleep (Ch_sleeplock l) t \<and> slocks t = slocks s
        \<and> p_state (procs t p) = SLEEPING \<and> p_chan (procs t p) = Some (Ch_sleeplock l))"
    using acquiresleep_held [OF assms, of l] by (simp add: asleep_def)
  let ?t = "(cycled s)\<lparr>slocks := (slocks s)(l := (slocks s l)\<lparr>sl_locked := 0, sl_pid := 0\<rparr>),
    procs := roused {Ch_sleeplock l} (Some p) (procs s)\<rparr>"
  let ?u = "?t\<lparr>slocks := (slocks s)(l := (slocks s l)\<lparr>sl_locked := 1, sl_pid := p_pid (procs s p)\<rparr>)\<rparr>"
  have q: "quiet p ?t" "quiet p ?u" using assms by (simp_all add: quiet_def)
  have "acquiresleep l ?t = Ok () ?u" using acquiresleep_free [OF q(1), of l] by simp
  moreover have "holdingsleep l ?u = Ok True (cycled ?u)" using holdingsleep_run [OF q(2), of l] by simp
  ultimately show ?thesis using held releasesleep_run [OF assms, of l] by (auto simp: roused_def)
qed

theorem sleeplock_handover_witness:
  "\<exists>t::slst. releasesleep (Sl_buf 3) demo_sl = Ok () t \<and> sl_locked (slocks t (Sl_buf 3)) = 0"
  using sleeplock_handover [OF demo_sl_ok(1), of "Sl_buf 3"] by blast

end
