(* ===== verification/Xv6_Disk.thy ===== *)
theory Xv6_Disk
  imports Xv6_Sleeplock
begin

text \<open>
  The disk driver \<^verbatim>\<open>kernel/virtio_disk.c\<close> with the buffers of \<^verbatim>\<open>kernel/buf.h\<close> that it transfers.  The
  descriptors, the two rings, the request headers and the status bytes are what the driver shares with
  the device (\<open>vqueue\<close>).  An address given to the device is a value of \<open>dma\<close>.

  The device itself is not part of the kernel.  It is a field of the state: \<open>vdev\<close> is what it does to the
  shared structures, the buffers and the medium when it works on the available requests, and \<open>vdev_reg\<close>
  what happens to its registers when the driver writes one.  What the driver relies on is the predicate
  \<open>virtio_blk\<close>, from the sections of the virtio specification on rings and on block devices.

  The process that waits in \<^verbatim>\<open>virtio_disk_rw\<close> is woken by the interrupt handler.  \<open>disk_sleep\<close> follows the
  run in which the hart idles in the scheduler until the device has finished and interrupts it, and
  then returns to the process.
\<close>

section \<open>Constants\<close>

definition BSIZE :: nat where [simp]: "BSIZE = 1024"
definition NUM :: nat where [simp]: "NUM = 8"
definition VRING_DESC_F_NEXT :: u16 where [simp]: "VRING_DESC_F_NEXT = 1"
definition VRING_DESC_F_WRITE :: u16 where [simp]: "VRING_DESC_F_WRITE = 2"
definition VIRTIO_BLK_T_IN :: u32 where [simp]: "VIRTIO_BLK_T_IN = 0"
definition VIRTIO_BLK_T_OUT :: u32 where [simp]: "VIRTIO_BLK_T_OUT = 1"

definition VIRTIO_MMIO_MAGIC_VALUE :: u64 where "VIRTIO_MMIO_MAGIC_VALUE = 0x000"
definition VIRTIO_MMIO_VERSION :: u64 where "VIRTIO_MMIO_VERSION = 0x004"
definition VIRTIO_MMIO_DEVICE_ID :: u64 where "VIRTIO_MMIO_DEVICE_ID = 0x008"
definition VIRTIO_MMIO_VENDOR_ID :: u64 where "VIRTIO_MMIO_VENDOR_ID = 0x00c"
definition VIRTIO_MMIO_DEVICE_FEATURES :: u64 where "VIRTIO_MMIO_DEVICE_FEATURES = 0x010"
definition VIRTIO_MMIO_DRIVER_FEATURES :: u64 where "VIRTIO_MMIO_DRIVER_FEATURES = 0x020"
definition VIRTIO_MMIO_QUEUE_SEL :: u64 where "VIRTIO_MMIO_QUEUE_SEL = 0x030"
definition VIRTIO_MMIO_QUEUE_NUM_MAX :: u64 where "VIRTIO_MMIO_QUEUE_NUM_MAX = 0x034"
definition VIRTIO_MMIO_QUEUE_NUM :: u64 where "VIRTIO_MMIO_QUEUE_NUM = 0x038"
definition VIRTIO_MMIO_QUEUE_READY :: u64 where "VIRTIO_MMIO_QUEUE_READY = 0x044"
definition VIRTIO_MMIO_QUEUE_NOTIFY :: u64 where "VIRTIO_MMIO_QUEUE_NOTIFY = 0x050"
definition VIRTIO_MMIO_INTERRUPT_STATUS :: u64 where "VIRTIO_MMIO_INTERRUPT_STATUS = 0x060"
definition VIRTIO_MMIO_INTERRUPT_ACK :: u64 where "VIRTIO_MMIO_INTERRUPT_ACK = 0x064"
definition VIRTIO_MMIO_STATUS :: u64 where "VIRTIO_MMIO_STATUS = 0x070"
definition VIRTIO_MMIO_QUEUE_DESC_LOW :: u64 where "VIRTIO_MMIO_QUEUE_DESC_LOW = 0x080"
definition VIRTIO_MMIO_QUEUE_DESC_HIGH :: u64 where "VIRTIO_MMIO_QUEUE_DESC_HIGH = 0x084"
definition VIRTIO_MMIO_DRIVER_DESC_LOW :: u64 where "VIRTIO_MMIO_DRIVER_DESC_LOW = 0x090"
definition VIRTIO_MMIO_DRIVER_DESC_HIGH :: u64 where "VIRTIO_MMIO_DRIVER_DESC_HIGH = 0x094"
definition VIRTIO_MMIO_DEVICE_DESC_LOW :: u64 where "VIRTIO_MMIO_DEVICE_DESC_LOW = 0x0a0"
definition VIRTIO_MMIO_DEVICE_DESC_HIGH :: u64 where "VIRTIO_MMIO_DEVICE_DESC_HIGH = 0x0a4"
definition VIRTIO_CONFIG_S_ACKNOWLEDGE :: u32 where "VIRTIO_CONFIG_S_ACKNOWLEDGE = 1"
definition VIRTIO_CONFIG_S_DRIVER :: u32 where "VIRTIO_CONFIG_S_DRIVER = 2"
definition VIRTIO_CONFIG_S_DRIVER_OK :: u32 where "VIRTIO_CONFIG_S_DRIVER_OK = 4"
definition VIRTIO_CONFIG_S_FEATURES_OK :: u32 where "VIRTIO_CONFIG_S_FEATURES_OK = 8"

text \<open>The features that the driver declines: the bits of \<^verbatim>\<open>VIRTIO_BLK_F_RO\<close>, \<^verbatim>\<open>VIRTIO_BLK_F_SCSI\<close>,
  \<^verbatim>\<open>VIRTIO_BLK_F_CONFIG_WCE\<close>, \<^verbatim>\<open>VIRTIO_BLK_F_MQ\<close>, \<^verbatim>\<open>VIRTIO_F_ANY_LAYOUT\<close>, \<^verbatim>\<open>VIRTIO_RING_F_EVENT_IDX\<close> and
  \<^verbatim>\<open>VIRTIO_RING_F_INDIRECT_DESC\<close>, in the order in which they are cleared.\<close>

definition virtio_declined :: "nat list" where
  "virtio_declined = [5, 7, 11, 12, 27, 29, 28]"

section \<open>State\<close>

record buf =
  b_valid :: int
  b_disk :: int
  b_dev :: u32
  b_blockno :: u32
  b_refcnt :: u32
  b_prev :: nat
  b_next :: nat
  b_data :: "u8 list"

text \<open>What an address in a descriptor points to: a request header, the data of a buffer, or a status byte.\<close>

datatype dma = Dma_null | Dma_op nat | Dma_data nat | Dma_status nat

record virtq_desc =
  d_addr :: dma
  d_len :: u32
  d_flags :: u16
  d_next :: u16

record virtq_avail =
  av_flags :: u16
  av_idx :: u16
  av_ring :: "nat \<Rightarrow> u16"

record virtq_used =
  us_flags :: u16
  us_idx :: u16
  us_ring :: "nat \<Rightarrow> u32 \<times> u32"

record virtio_blk_req =
  rq_type :: u32
  rq_reserved :: u32
  rq_sector :: u64

record vinfo =
  in_b :: "nat option"
  in_status :: u8

record vqueue =
  vq_desc :: "nat \<Rightarrow> virtq_desc"
  vq_avail :: virtq_avail
  vq_used :: virtq_used
  vq_info :: "nat \<Rightarrow> vinfo"
  vq_ops :: "nat \<Rightarrow> virtio_blk_req"

type_synonym medium = "u64 \<Rightarrow> u8 list"
type_synonym vdevice = "vqueue \<times> (nat \<Rightarrow> u8 list) \<times> medium \<Rightarrow> vqueue \<times> (nat \<Rightarrow> u8 list) \<times> medium"

record diskst = slst +
  bufs :: "nat \<Rightarrow> buf"
  vq :: vqueue
  vq_pages :: "u64 \<times> u64 \<times> u64"
  vfree :: "nat \<Rightarrow> bool"
  vused_idx :: u16
  vregs :: "u64 \<Rightarrow> u32"
  vdev_reg :: "(u64 \<Rightarrow> u32) \<Rightarrow> u64 \<Rightarrow> u32 \<Rightarrow> u64 \<Rightarrow> u32"
  vdev :: vdevice
  medium :: medium
  power :: "nat option"

abbreviation upd_buf :: "nat \<Rightarrow> (buf \<Rightarrow> buf) \<Rightarrow> ('r diskst_scheme, unit) kprog" where
  "upd_buf b f \<equiv> modify (\<lambda>s. s\<lparr>bufs := (bufs s)(b := f (bufs s b))\<rparr>)"

abbreviation upd_desc :: "nat \<Rightarrow> (virtq_desc \<Rightarrow> virtq_desc) \<Rightarrow> ('r diskst_scheme, unit) kprog" where
  "upd_desc i f \<equiv> modify (\<lambda>s. s\<lparr>vq := (vq s)\<lparr>vq_desc := (vq_desc (vq s))(i := f (vq_desc (vq s) i))\<rparr>\<rparr>)"

abbreviation upd_info :: "nat \<Rightarrow> (vinfo \<Rightarrow> vinfo) \<Rightarrow> ('r diskst_scheme, unit) kprog" where
  "upd_info i f \<equiv> modify (\<lambda>s. s\<lparr>vq := (vq s)\<lparr>vq_info := (vq_info (vq s))(i := f (vq_info (vq s) i))\<rparr>\<rparr>)"

section \<open>Registers and initialization\<close>

definition rd_reg :: "u64 \<Rightarrow> 'r diskst_scheme \<Rightarrow> u32" where
  "rd_reg r s = vregs s r"

definition wr_reg :: "u64 \<Rightarrow> u32 \<Rightarrow> ('r diskst_scheme, unit) kprog" where
  "wr_reg r v = modify (\<lambda>s. s\<lparr>vregs := vdev_reg s (vregs s) r v\<rparr>)"

definition zero_desc :: virtq_desc where
  "zero_desc = \<lparr>d_addr = Dma_null, d_len = 0, d_flags = 0, d_next = 0\<rparr>"

definition virtio_status :: "u32 \<Rightarrow> ('r diskst_scheme, unit) kprog" where
  "virtio_status st = wr_reg VIRTIO_MMIO_STATUS st"

definition virtio_negotiate :: "('r diskst_scheme, unit) kprog" where
  "virtio_negotiate = bind (gets (rd_reg VIRTIO_MMIO_DEVICE_FEATURES)) (\<lambda>f.
     wr_reg VIRTIO_MMIO_DRIVER_FEATURES (fold (\<lambda>i x. unset_bit i x) virtio_declined f))"

text \<open>Queue memory: three zeroed pages, whose addresses the device is told.\<close>

definition virtio_queue_pages :: "('r diskst_scheme, unit) kprog" where
  "virtio_queue_pages = bind kalloc (\<lambda>d. bind kalloc (\<lambda>a. bind kalloc (\<lambda>u. block [
     panic_if (\<lambda>s. d = 0 \<or> a = 0 \<or> u = 0) ''virtio disk kalloc'',
     modify (\<lambda>s. s\<lparr>vq_pages := (d, a, u)\<rparr>),
     upd_mem (\<lambda>m. memset m d 0 PGSIZE),
     upd_mem (\<lambda>m. memset m a 0 PGSIZE),
     upd_mem (\<lambda>m. memset m u 0 PGSIZE),
     modify (\<lambda>s. s\<lparr>vq := (vq s)\<lparr>vq_desc := \<lambda>_. zero_desc, vq_avail := \<lparr>av_flags = 0, av_idx = 0, av_ring = \<lambda>_. 0\<rparr>,
       vq_used := \<lparr>us_flags = 0, us_idx = 0, us_ring = \<lambda>_. (0, 0)\<rparr>\<rparr>\<rparr>),
     wr_reg VIRTIO_MMIO_QUEUE_NUM (of_nat NUM),
     wr_reg VIRTIO_MMIO_QUEUE_DESC_LOW (ucast d),
     wr_reg VIRTIO_MMIO_QUEUE_DESC_HIGH (ucast (drop_bit 32 d)),
     wr_reg VIRTIO_MMIO_DRIVER_DESC_LOW (ucast a),
     wr_reg VIRTIO_MMIO_DRIVER_DESC_HIGH (ucast (drop_bit 32 a)),
     wr_reg VIRTIO_MMIO_DEVICE_DESC_LOW (ucast u),
     wr_reg VIRTIO_MMIO_DEVICE_DESC_HIGH (ucast (drop_bit 32 u))])))"

definition virtio_disk_init :: "('r diskst_scheme, unit) kprog" where
  "virtio_disk_init = block [
     initlock L_vdisk ''virtio_disk'',
     panic_if (\<lambda>s. rd_reg VIRTIO_MMIO_MAGIC_VALUE s \<noteq> 0x74726976 \<or> rd_reg VIRTIO_MMIO_VERSION s \<noteq> 2
       \<or> rd_reg VIRTIO_MMIO_DEVICE_ID s \<noteq> 2 \<or> rd_reg VIRTIO_MMIO_VENDOR_ID s \<noteq> 0x554d4551) ''could not find virtio disk'',
     virtio_status 0,
     virtio_status VIRTIO_CONFIG_S_ACKNOWLEDGE,
     virtio_status (VIRTIO_CONFIG_S_ACKNOWLEDGE OR VIRTIO_CONFIG_S_DRIVER),
     virtio_negotiate,
     virtio_status (VIRTIO_CONFIG_S_ACKNOWLEDGE OR VIRTIO_CONFIG_S_DRIVER OR VIRTIO_CONFIG_S_FEATURES_OK),
     bind (gets (rd_reg VIRTIO_MMIO_STATUS)) (\<lambda>status. block [
       panic_if (\<lambda>s. status AND VIRTIO_CONFIG_S_FEATURES_OK = 0) ''virtio disk FEATURES_OK unset'',
       wr_reg VIRTIO_MMIO_QUEUE_SEL 0,
       panic_if (\<lambda>s. rd_reg VIRTIO_MMIO_QUEUE_READY s \<noteq> 0) ''virtio disk should not be ready'',
       panic_if (\<lambda>s. rd_reg VIRTIO_MMIO_QUEUE_NUM_MAX s = 0) ''virtio disk has no queue 0'',
       panic_if (\<lambda>s. rd_reg VIRTIO_MMIO_QUEUE_NUM_MAX s < of_nat NUM) ''virtio disk max queue too short'',
       virtio_queue_pages,
       wr_reg VIRTIO_MMIO_QUEUE_READY 1,
       forK (\<lambda>i. modify (\<lambda>s. s\<lparr>vfree := (vfree s)(i := True)\<rparr>)) [0..<NUM],
       virtio_status (status OR VIRTIO_CONFIG_S_DRIVER_OK)])]"

section \<open>Descriptors\<close>

fun alloc_desc_scan :: "nat list \<Rightarrow> ('r diskst_scheme, nat option) kprog" where
  "alloc_desc_scan [] = ret None"
| "alloc_desc_scan (i # is) = ifS (\<lambda>s. vfree s i)
     (seqK [modify (\<lambda>s. s\<lparr>vfree := (vfree s)(i := False)\<rparr>)] (ret (Some i)))
     (alloc_desc_scan is)"

definition alloc_desc :: "('r diskst_scheme, nat option) kprog" where
  "alloc_desc = alloc_desc_scan [0..<NUM]"

definition free_desc :: "nat \<Rightarrow> ('r diskst_scheme, unit) kprog" where
  "free_desc i = block [
     panic_if (\<lambda>s. NUM \<le> i) ''free_desc 1'',
     panic_if (\<lambda>s. vfree s i) ''free_desc 2'',
     upd_desc i (\<lambda>_. zero_desc),
     modify (\<lambda>s. s\<lparr>vfree := (vfree s)(i := True)\<rparr>),
     wakeup (Some Ch_disk_free)]"

text \<open>\<open>alloc3_from n got\<close>: \<open>n\<close> descriptors are still to be allocated, \<open>got\<close> are those in \<^verbatim>\<open>idx\<close>.\<close>

fun alloc3_from :: "nat \<Rightarrow> nat list \<Rightarrow> ('r diskst_scheme, nat list option) kprog" where
  "alloc3_from 0 got = ret (Some got)"
| "alloc3_from (Suc n) got = bind alloc_desc (\<lambda>r. case r of
     None \<Rightarrow> seqK [forK free_desc got] (ret None)
   | Some i \<Rightarrow> alloc3_from n (got @ [i]))"

definition alloc3_desc :: "('r diskst_scheme, nat list option) kprog" where
  "alloc3_desc = alloc3_from 3 []"

section \<open>Requests\<close>

definition virtio_format :: "nat \<Rightarrow> bool \<Rightarrow> nat \<Rightarrow> nat \<Rightarrow> nat \<Rightarrow> ('r diskst_scheme, unit) kprog" where
  "virtio_format b write i0 i1 i2 = block [
     modify (\<lambda>s. s\<lparr>vq := (vq s)\<lparr>vq_ops := (vq_ops (vq s))(i0 :=
       \<lparr>rq_type = (if write then VIRTIO_BLK_T_OUT else VIRTIO_BLK_T_IN), rq_reserved = 0,
        rq_sector = ucast (b_blockno (bufs s b) * of_nat (BSIZE div 512))\<rparr>)\<rparr>\<rparr>),
     upd_desc i0 (\<lambda>_. \<lparr>d_addr = Dma_op i0, d_len = 16, d_flags = VRING_DESC_F_NEXT, d_next = of_nat i1\<rparr>),
     upd_desc i1 (\<lambda>_. \<lparr>d_addr = Dma_data b, d_len = of_nat BSIZE,
       d_flags = (if write then 0 else VRING_DESC_F_WRITE) OR VRING_DESC_F_NEXT, d_next = of_nat i2\<rparr>),
     upd_info i0 (in_status_update (\<lambda>_. 0xff)),
     upd_desc i2 (\<lambda>_. \<lparr>d_addr = Dma_status i0, d_len = 1, d_flags = VRING_DESC_F_WRITE, d_next = 0\<rparr>)]"

definition virtio_submit :: "nat \<Rightarrow> nat \<Rightarrow> ('r diskst_scheme, unit) kprog" where
  "virtio_submit b i0 = block [
     upd_buf b (b_disk_update (\<lambda>_. 1)),
     upd_info i0 (in_b_update (\<lambda>_. Some b)),
     modify (\<lambda>s. s\<lparr>vq := (vq s)\<lparr>vq_avail := (vq_avail (vq s))\<lparr>av_ring :=
       (av_ring (vq_avail (vq s)))(unat (av_idx (vq_avail (vq s))) mod NUM := of_nat i0)\<rparr>\<rparr>\<rparr>),
     modify (\<lambda>s. s\<lparr>vq := (vq s)\<lparr>vq_avail := (vq_avail (vq s))\<lparr>av_idx := av_idx (vq_avail (vq s)) + 1\<rparr>\<rparr>\<rparr>),
     wr_reg VIRTIO_MMIO_QUEUE_NOTIFY 0]"

text \<open>The frames that the termination of the two loops needs.\<close>

lemma disk_wakeup_keeps: "keeps (\<lambda>s. (vq s, vfree s, vused_idx s)) (wakeup ch)"
  by (intro keeps_sleeping; simp add: base_effects)

lemma free_desc_Ok:
  assumes "free_desc i s = Ok () t"
  shows "i < NUM" "\<not> vfree s i" "vfree t = (vfree s)(i := True)"
    "vq t = (vq s)\<lparr>vq_desc := (vq_desc (vq s))(i := zero_desc)\<rparr>"
  using assms keepsD(1) [OF disk_wakeup_keeps]
  by (auto simp: free_desc_def run_simps split: if_splits dest!: keepsD(1) [OF disk_wakeup_keeps])

function free_chain :: "nat \<Rightarrow> ('r diskst_scheme, unit) kprog" where
  "free_chain i s = obind (free_desc i s) (\<lambda>_ t.
     if d_flags (vq_desc (vq s) i) AND VRING_DESC_F_NEXT \<noteq> 0
     then free_chain (unat (d_next (vq_desc (vq s) i))) t else Ok () t)"
  by pat_completeness auto
termination
proof (relation "measure (\<lambda>(i, s). card {j. j < NUM \<and> \<not> vfree s j})", simp)
  fix i and s :: "'r diskst_scheme" and x t
  assume "free_desc i s = Ok x t"
  then have *: "free_desc i s = Ok () t" by simp
  from free_desc_Ok(1-3) [OF *] have "{j. j < NUM \<and> \<not> vfree t j} \<subset> {j. j < NUM \<and> \<not> vfree s j}" by auto
  then have "card {j. j < NUM \<and> \<not> vfree t j} < card {j. j < NUM \<and> \<not> vfree s j}" by (intro psubset_card_mono) simp_all
  then show "((unat (d_next (vq_desc (vq s) i)), t), i, s) \<in> measure (\<lambda>(i, s). card {j. j < NUM \<and> \<not> vfree s j})" by simp
qed

declare free_chain.simps [simp del]

section \<open>The interrupt handler\<close>

definition virtio_intr_entry :: "('r diskst_scheme, unit) kprog" where
  "virtio_intr_entry = bind (gets (\<lambda>s. unat (fst (us_ring (vq_used (vq s)) (unat (vused_idx s) mod NUM))))) (\<lambda>i. block [
     panic_if (\<lambda>s. in_status (vq_info (vq s) i) \<noteq> 0) ''virtio_disk_intr status'',
     bind (gets (\<lambda>s. in_b (vq_info (vq s) i))) (\<lambda>r. case r of None \<Rightarrow> panicK ''kerneltrap'' | Some b \<Rightarrow> block [
       upd_buf b (b_disk_update (\<lambda>_. 0)),
       wakeup (Some (Ch_buf b)),
       modify (\<lambda>s. s\<lparr>vused_idx := vused_idx s + 1\<rparr>)])])"

lemma virtio_intr_entry_Ok:
  assumes "virtio_intr_entry s = Ok () t"
  shows "vq t = vq s" "vused_idx t = vused_idx s + 1"
  using assms
  by (auto simp: virtio_intr_entry_def run_simps obind_Ok_iff split: if_splits option.splits
      dest!: keepsD(1) [OF disk_wakeup_keeps])

function virtio_intr_loop :: "('r diskst_scheme, unit) kprog" where
  "virtio_intr_loop s = (if vused_idx s \<noteq> us_idx (vq_used (vq s))
     then obind (virtio_intr_entry s) (\<lambda>_ t. virtio_intr_loop t) else Ok () s)"
  by pat_completeness auto
termination
proof (relation "measure (\<lambda>s. unat (us_idx (vq_used (vq s)) - vused_idx s))", simp)
  fix s :: "'r diskst_scheme" and x t
  assume ne: "vused_idx s \<noteq> us_idx (vq_used (vq s))" and "virtio_intr_entry s = Ok x t"
  then have *: "virtio_intr_entry s = Ok () t" by simp
  let ?d = "us_idx (vq_used (vq s)) - vused_idx s"
  have "us_idx (vq_used (vq t)) - vused_idx t = ?d - 1" using virtio_intr_entry_Ok [OF *] by simp
  moreover have "?d \<noteq> 0" using ne by simp
  then have "unat (?d - 1) < unat ?d" by (simp add: unat_minus_one unat_gt_0 del: right_minus_eq)
  ultimately show "(t, s) \<in> measure (\<lambda>s. unat (us_idx (vq_used (vq s)) - vused_idx s))" by simp
qed

declare virtio_intr_loop.simps [simp del]

definition virtio_disk_intr :: "('r diskst_scheme, unit) kprog" where
  "virtio_disk_intr = block [
     acquire L_vdisk,
     (\<lambda>s. wr_reg VIRTIO_MMIO_INTERRUPT_ACK (rd_reg VIRTIO_MMIO_INTERRUPT_STATUS s AND 3) s),
     virtio_intr_loop,
     release L_vdisk]"

section \<open>Transfers\<close>

abbreviation spend :: "nat option \<Rightarrow> nat option" where
  "spend \<equiv> map_option (\<lambda>n. n - 1)"

text \<open>The power may fail before the device works on a request: \<open>power\<close> is the number of requests that it
  completes before, or \<open>None\<close> if the power stays on.  A block is written as a whole or not at all.\<close>

definition device_runs :: "('r diskst_scheme, unit) kprog" where
  "device_runs s = (if power s = Some 0 then Crash s
     else case vdev s (vq s, \<lambda>i. b_data (bufs s i), medium s) of (q, d, m) \<Rightarrow>
       Ok () (s\<lparr>vq := q, bufs := \<lambda>i. (bufs s i)\<lparr>b_data := d i\<rparr>, medium := m, power := spend (power s)\<rparr>))"

definition disk_sleep :: "nat \<Rightarrow> ('r diskst_scheme, unit) kprog" where
  "disk_sleep b = bind the_proc (\<lambda>p. bind (sleep_begin (Ch_buf b) L_vdisk) (\<lambda>intena. block [
     scheduler_leave, release (L_proc p), intr_on,
     device_runs,
     intr_off, virtio_disk_intr, intr_on,
     acquire (L_proc p),
     ifS (\<lambda>s. p_state (procs s p) = RUNNABLE) (scheduler_enter p) (\<lambda>s. Sleep (Ch_buf b) s),
     sleep_end p intena L_vdisk]))"

text \<open>The loop that waits for the device: a second round gives the processor up.\<close>

definition disk_wait :: "nat \<Rightarrow> ('r diskst_scheme, unit) kprog" where
  "disk_wait b = whenS (\<lambda>s. b_disk (bufs s b) = 1) (block [
     disk_sleep b,
     whenS (\<lambda>s. b_disk (bufs s b) = 1) (sleep (Ch_buf b) L_vdisk)])"

definition virtio_disk_rw :: "nat \<Rightarrow> bool \<Rightarrow> ('r diskst_scheme, unit) kprog" where
  "virtio_disk_rw b write = block [
     acquire L_vdisk,
     bind alloc3_desc (\<lambda>r. case r of
       Some [i0, i1, i2] \<Rightarrow> block [
         virtio_format b write i0 i1 i2,
         virtio_submit b i0,
         disk_wait b,
         upd_info i0 (in_b_update (\<lambda>_. None)),
         free_chain i0]
     | _ \<Rightarrow> sleep Ch_disk_free L_vdisk),
     release L_vdisk]"

section \<open>Frame\<close>

lemma procs_switch_frame [simp]:
  "procs (sie_on s) = procs s" "procs (sie_off s) = procs s" "procs (upd_mycpu h s) = procs s"
  "sie_on (procs_update g s) = procs_update g (sie_on s)" "sie_off (procs_update g s) = procs_update g (sie_off s)"
  "upd_mycpu h (procs_update g s) = procs_update g (upd_mycpu h s)"
  by (simp_all add: base_effects)

lemma diskst_sel_frame [simp]:
  "bufs (acquired l s) = bufs s" "bufs (released l s) = bufs s" "bufs (cycled s) = bufs s"
  "bufs (sie_on s) = bufs s" "bufs (sie_off s) = bufs s" "bufs (upd_mycpu h s) = bufs s"
  "vq (acquired l s) = vq s" "vq (released l s) = vq s" "vq (cycled s) = vq s"
  "vq (sie_on s) = vq s" "vq (sie_off s) = vq s" "vq (upd_mycpu h s) = vq s"
  "vq_pages (acquired l s) = vq_pages s" "vq_pages (released l s) = vq_pages s" "vq_pages (cycled s) = vq_pages s"
  "vq_pages (sie_on s) = vq_pages s" "vq_pages (sie_off s) = vq_pages s" "vq_pages (upd_mycpu h s) = vq_pages s"
  "vfree (acquired l s) = vfree s" "vfree (released l s) = vfree s" "vfree (cycled s) = vfree s"
  "vfree (sie_on s) = vfree s" "vfree (sie_off s) = vfree s" "vfree (upd_mycpu h s) = vfree s"
  "vused_idx (acquired l s) = vused_idx s" "vused_idx (released l s) = vused_idx s" "vused_idx (cycled s) = vused_idx s"
  "vused_idx (sie_on s) = vused_idx s" "vused_idx (sie_off s) = vused_idx s" "vused_idx (upd_mycpu h s) = vused_idx s"
  "vregs (acquired l s) = vregs s" "vregs (released l s) = vregs s" "vregs (cycled s) = vregs s"
  "vregs (sie_on s) = vregs s" "vregs (sie_off s) = vregs s" "vregs (upd_mycpu h s) = vregs s"
  "vdev_reg (acquired l s) = vdev_reg s" "vdev_reg (released l s) = vdev_reg s" "vdev_reg (cycled s) = vdev_reg s"
  "vdev_reg (sie_on s) = vdev_reg s" "vdev_reg (sie_off s) = vdev_reg s" "vdev_reg (upd_mycpu h s) = vdev_reg s"
  "vdev (acquired l s) = vdev s" "vdev (released l s) = vdev s" "vdev (cycled s) = vdev s"
  "vdev (sie_on s) = vdev s" "vdev (sie_off s) = vdev s" "vdev (upd_mycpu h s) = vdev s"
  "medium (acquired l s) = medium s" "medium (released l s) = medium s" "medium (cycled s) = medium s"
  "medium (sie_on s) = medium s" "medium (sie_off s) = medium s" "medium (upd_mycpu h s) = medium s"
  "power (acquired l s) = power s" "power (released l s) = power s" "power (cycled s) = power s"
  "power (sie_on s) = power s" "power (sie_off s) = power s" "power (upd_mycpu h s) = power s"
  by (simp_all add: base_effects)

lemma diskst_upd_frame [simp]:
  "acquired l (bufs_update g0 s) = bufs_update g0 (acquired l s)" "released l (bufs_update g0 s) = bufs_update g0 (released l s)"
  "cycled (bufs_update g0 s) = bufs_update g0 (cycled s)" "sie_on (bufs_update g0 s) = bufs_update g0 (sie_on s)"
  "sie_off (bufs_update g0 s) = bufs_update g0 (sie_off s)" "upd_mycpu h (bufs_update g0 s) = bufs_update g0 (upd_mycpu h s)"
  "acquired l (vq_update g1 s) = vq_update g1 (acquired l s)" "released l (vq_update g1 s) = vq_update g1 (released l s)"
  "cycled (vq_update g1 s) = vq_update g1 (cycled s)" "sie_on (vq_update g1 s) = vq_update g1 (sie_on s)"
  "sie_off (vq_update g1 s) = vq_update g1 (sie_off s)" "upd_mycpu h (vq_update g1 s) = vq_update g1 (upd_mycpu h s)"
  "acquired l (vq_pages_update g2 s) = vq_pages_update g2 (acquired l s)" "released l (vq_pages_update g2 s) = vq_pages_update g2 (released l s)"
  "cycled (vq_pages_update g2 s) = vq_pages_update g2 (cycled s)" "sie_on (vq_pages_update g2 s) = vq_pages_update g2 (sie_on s)"
  "sie_off (vq_pages_update g2 s) = vq_pages_update g2 (sie_off s)" "upd_mycpu h (vq_pages_update g2 s) = vq_pages_update g2 (upd_mycpu h s)"
  "acquired l (vfree_update g3 s) = vfree_update g3 (acquired l s)" "released l (vfree_update g3 s) = vfree_update g3 (released l s)"
  "cycled (vfree_update g3 s) = vfree_update g3 (cycled s)" "sie_on (vfree_update g3 s) = vfree_update g3 (sie_on s)"
  "sie_off (vfree_update g3 s) = vfree_update g3 (sie_off s)" "upd_mycpu h (vfree_update g3 s) = vfree_update g3 (upd_mycpu h s)"
  "acquired l (vused_idx_update g4 s) = vused_idx_update g4 (acquired l s)" "released l (vused_idx_update g4 s) = vused_idx_update g4 (released l s)"
  "cycled (vused_idx_update g4 s) = vused_idx_update g4 (cycled s)" "sie_on (vused_idx_update g4 s) = vused_idx_update g4 (sie_on s)"
  "sie_off (vused_idx_update g4 s) = vused_idx_update g4 (sie_off s)" "upd_mycpu h (vused_idx_update g4 s) = vused_idx_update g4 (upd_mycpu h s)"
  "acquired l (vregs_update g5 s) = vregs_update g5 (acquired l s)" "released l (vregs_update g5 s) = vregs_update g5 (released l s)"
  "cycled (vregs_update g5 s) = vregs_update g5 (cycled s)" "sie_on (vregs_update g5 s) = vregs_update g5 (sie_on s)"
  "sie_off (vregs_update g5 s) = vregs_update g5 (sie_off s)" "upd_mycpu h (vregs_update g5 s) = vregs_update g5 (upd_mycpu h s)"
  "acquired l (vdev_reg_update g6 s) = vdev_reg_update g6 (acquired l s)" "released l (vdev_reg_update g6 s) = vdev_reg_update g6 (released l s)"
  "cycled (vdev_reg_update g6 s) = vdev_reg_update g6 (cycled s)" "sie_on (vdev_reg_update g6 s) = vdev_reg_update g6 (sie_on s)"
  "sie_off (vdev_reg_update g6 s) = vdev_reg_update g6 (sie_off s)" "upd_mycpu h (vdev_reg_update g6 s) = vdev_reg_update g6 (upd_mycpu h s)"
  "acquired l (vdev_update g7 s) = vdev_update g7 (acquired l s)" "released l (vdev_update g7 s) = vdev_update g7 (released l s)"
  "cycled (vdev_update g7 s) = vdev_update g7 (cycled s)" "sie_on (vdev_update g7 s) = vdev_update g7 (sie_on s)"
  "sie_off (vdev_update g7 s) = vdev_update g7 (sie_off s)" "upd_mycpu h (vdev_update g7 s) = vdev_update g7 (upd_mycpu h s)"
  "acquired l (medium_update g8 s) = medium_update g8 (acquired l s)" "released l (medium_update g8 s) = medium_update g8 (released l s)"
  "cycled (medium_update g8 s) = medium_update g8 (cycled s)" "sie_on (medium_update g8 s) = medium_update g8 (sie_on s)"
  "sie_off (medium_update g8 s) = medium_update g8 (sie_off s)" "upd_mycpu h (medium_update g8 s) = medium_update g8 (upd_mycpu h s)"
  "acquired l (power_update g9 s) = power_update g9 (acquired l s)" "released l (power_update g9 s) = power_update g9 (released l s)"
  "cycled (power_update g9 s) = power_update g9 (cycled s)" "sie_on (power_update g9 s) = power_update g9 (sie_on s)"
  "sie_off (power_update g9 s) = power_update g9 (sie_off s)" "upd_mycpu h (power_update g9 s) = power_update g9 (upd_mycpu h s)"
  by (simp_all add: base_effects)

lemma diskst_base_frame [simp]:
  "cpuid (bufs_update g0 s) = cpuid s" "mycpu (bufs_update g0 s) = mycpu s" "intr_get (bufs_update g0 s) = intr_get s"
  "holding l (bufs_update g0 s) = holding l s" "unlocked l (bufs_update g0 s) = unlocked l s" "intr_sane (bufs_update g0 s) = intr_sane s"
  "cpuid (vq_update g1 s) = cpuid s" "mycpu (vq_update g1 s) = mycpu s" "intr_get (vq_update g1 s) = intr_get s"
  "holding l (vq_update g1 s) = holding l s" "unlocked l (vq_update g1 s) = unlocked l s" "intr_sane (vq_update g1 s) = intr_sane s"
  "cpuid (vq_pages_update g2 s) = cpuid s" "mycpu (vq_pages_update g2 s) = mycpu s" "intr_get (vq_pages_update g2 s) = intr_get s"
  "holding l (vq_pages_update g2 s) = holding l s" "unlocked l (vq_pages_update g2 s) = unlocked l s" "intr_sane (vq_pages_update g2 s) = intr_sane s"
  "cpuid (vfree_update g3 s) = cpuid s" "mycpu (vfree_update g3 s) = mycpu s" "intr_get (vfree_update g3 s) = intr_get s"
  "holding l (vfree_update g3 s) = holding l s" "unlocked l (vfree_update g3 s) = unlocked l s" "intr_sane (vfree_update g3 s) = intr_sane s"
  "cpuid (vused_idx_update g4 s) = cpuid s" "mycpu (vused_idx_update g4 s) = mycpu s" "intr_get (vused_idx_update g4 s) = intr_get s"
  "holding l (vused_idx_update g4 s) = holding l s" "unlocked l (vused_idx_update g4 s) = unlocked l s" "intr_sane (vused_idx_update g4 s) = intr_sane s"
  "cpuid (vregs_update g5 s) = cpuid s" "mycpu (vregs_update g5 s) = mycpu s" "intr_get (vregs_update g5 s) = intr_get s"
  "holding l (vregs_update g5 s) = holding l s" "unlocked l (vregs_update g5 s) = unlocked l s" "intr_sane (vregs_update g5 s) = intr_sane s"
  "cpuid (vdev_reg_update g6 s) = cpuid s" "mycpu (vdev_reg_update g6 s) = mycpu s" "intr_get (vdev_reg_update g6 s) = intr_get s"
  "holding l (vdev_reg_update g6 s) = holding l s" "unlocked l (vdev_reg_update g6 s) = unlocked l s" "intr_sane (vdev_reg_update g6 s) = intr_sane s"
  "cpuid (vdev_update g7 s) = cpuid s" "mycpu (vdev_update g7 s) = mycpu s" "intr_get (vdev_update g7 s) = intr_get s"
  "holding l (vdev_update g7 s) = holding l s" "unlocked l (vdev_update g7 s) = unlocked l s" "intr_sane (vdev_update g7 s) = intr_sane s"
  "cpuid (medium_update g8 s) = cpuid s" "mycpu (medium_update g8 s) = mycpu s" "intr_get (medium_update g8 s) = intr_get s"
  "holding l (medium_update g8 s) = holding l s" "unlocked l (medium_update g8 s) = unlocked l s" "intr_sane (medium_update g8 s) = intr_sane s"
  "cpuid (power_update g9 s) = cpuid s" "mycpu (power_update g9 s) = mycpu s" "intr_get (power_update g9 s) = intr_get s"
  "holding l (power_update g9 s) = holding l s" "unlocked l (power_update g9 s) = unlocked l s" "intr_sane (power_update g9 s) = intr_sane s"
  by (simp_all add: cpuid_def r_tp_def mycpu_def intr_get_bit holding_def unlocked_def intr_sane_def)

lemma disk_unlocked_frame [simp]:
  "others_unlocked (bufs_update f s) = others_unlocked s" "others_unlocked (vq_update g s) = others_unlocked s"
  "others_unlocked (vfree_update h s) = others_unlocked s" "others_unlocked (vused_idx_update k s) = others_unlocked s"
  "others_unlocked (vregs_update r s) = others_unlocked s" "others_unlocked (medium_update m s) = others_unlocked s"
  "others_unlocked (power_update w s) = others_unlocked s"
  by (simp_all add: others_unlocked_def)

section \<open>The device\<close>

text \<open>Two sectors of 512 bytes from \<open>sec\<close>.\<close>

definition blk_read :: "medium \<Rightarrow> u64 \<Rightarrow> u8 list" where
  "blk_read m sec = m sec @ m (sec + 1)"

definition blk_write :: "medium \<Rightarrow> u64 \<Rightarrow> u8 list \<Rightarrow> medium" where
  "blk_write m sec d = m(sec := take 512 d, sec + 1 := drop 512 d)"

text \<open>The chain from descriptor \<open>h\<close> asks for the transfer of one block between buffer \<open>b\<close> and the medium.\<close>

definition blk_request :: "vqueue \<Rightarrow> nat \<Rightarrow> nat \<Rightarrow> bool \<Rightarrow> bool" where
  "blk_request q h b w \<longleftrightarrow> (let d0 = vq_desc q h; d1 = vq_desc q (unat (d_next d0)); d2 = vq_desc q (unat (d_next d1)) in
     d_addr d0 = Dma_op h \<and> d_len d0 = 16 \<and> d_flags d0 = VRING_DESC_F_NEXT
   \<and> d_addr d1 = Dma_data b \<and> d_len d1 = of_nat BSIZE
   \<and> d_flags d1 = (if w then VRING_DESC_F_NEXT else VRING_DESC_F_WRITE OR VRING_DESC_F_NEXT)
   \<and> d_addr d2 = Dma_status h \<and> d_len d2 = 1 \<and> d_flags d2 = VRING_DESC_F_WRITE
   \<and> rq_type (vq_ops q h) = (if w then VIRTIO_BLK_T_OUT else VIRTIO_BLK_T_IN))"

definition blk_done :: "vqueue \<Rightarrow> nat \<Rightarrow> u32 \<Rightarrow> vqueue" where
  "blk_done q h len = q\<lparr>vq_used := (vq_used q)\<lparr>us_ring := (us_ring (vq_used q))(unat (us_idx (vq_used q)) mod NUM := (of_nat h, len)),
       us_idx := us_idx (vq_used q) + 1\<rparr>, vq_info := (vq_info q)(h := (vq_info q h)\<lparr>in_status := 0\<rparr>)\<rparr>"

text \<open>What the specification promises of a device with one available request that lies on the medium:
  it transfers the block, writes 0 to the status byte and adds the head of the chain to the used ring.\<close>

definition virtio_blk :: "vdevice \<Rightarrow> bool" where
  "virtio_blk dev \<longleftrightarrow> (\<forall>q data m h b w. av_idx (vq_avail q) = us_idx (vq_used q) + 1
     \<and> unat (av_ring (vq_avail q) (unat (us_idx (vq_used q)) mod NUM)) = h \<and> blk_request q h b w
     \<and> unat (rq_sector (vq_ops q h)) + 2 \<le> 2 * FSSIZE
     \<longrightarrow> (\<exists>len. dev (q, data, m) = (blk_done q h len,
           if w then data else data(b := blk_read m (rq_sector (vq_ops q h))),
           if w then blk_write m (rq_sector (vq_ops q h)) (data b) else m)))"

text \<open>A device with this behaviour.\<close>

definition simple_disk :: vdevice where
  "simple_disk = (\<lambda>(q, data, m). let h = unat (av_ring (vq_avail q) (unat (us_idx (vq_used q)) mod NUM));
       d1 = vq_desc q (unat (d_next (vq_desc q h))); sec = rq_sector (vq_ops q h) in
     case d_addr d1 of Dma_data b \<Rightarrow>
       if rq_type (vq_ops q h) = VIRTIO_BLK_T_OUT then (blk_done q h 1, data, blk_write m sec (data b))
       else (blk_done q h 1025, data(b := blk_read m sec), m)
     | _ \<Rightarrow> (q, data, m))"

lemma simple_disk_ok: "virtio_blk simple_disk"
  unfolding virtio_blk_def simple_disk_def blk_request_def Let_def by (auto split: if_splits)

section \<open>Sleeping until the interrupt\<close>

lemma sie_bits [simp]:
  "unset_bit n (unset_bit n w) = unset_bit n w" "unset_bit n (Bit_Operations.set_bit n w) = unset_bit n w"
  "Bit_Operations.set_bit n (unset_bit n w) = Bit_Operations.set_bit n w"
  "Bit_Operations.set_bit n (Bit_Operations.set_bit n w) = Bit_Operations.set_bit n w"
  for w :: "'a::len word"
  by (rule bit_eqI, auto simp: bit_simps)+

lemma unlocked_triv:
  assumes "unlocked a s"
  shows "(locks s a)\<lparr>lk_locked := 0, lk_cpu := None\<rparr> = locks s a" "b \<noteq> a \<Longrightarrow> (locks s)(b := x, a := locks s a) = (locks s)(b := x)"
  using assms by (auto simp: unlocked_def)

lemma released_acquired_over:
  assumes "a \<noteq> b" "unlocked a s" "c_noff (mycpu s) = 0"
  shows "released a (acquired b (acquired a s)) = acquired b s"
  using assms unlocked_triv [OF assms(2)] by (cases "cpus s (unat (h_tp (harts s (cur s))))"; intro kbase.equality; simp add: base_effects bit_simps)

text \<open>The registers and the locks after the switch to the scheduler, the interrupt and the switch back.\<close>

lemma switch_back:
  assumes "c_noff (mycpu s) = 0" "c_proc (mycpu s) = Some p" "unlocked b s" "i = intr_get s"
  shows "acquired a (released b (upd_mycpu (\<lambda>c. c\<lparr>c_proc := Some p, c_intena := i\<rparr>)
    (acquired b (sie_on (cycled (sie_off (upd_mycpu (\<lambda>c. c\<lparr>c_proc := None\<rparr>) (cycled s)))))))) = acquired a s"
proof (cases "intr_get s")
  case True
  with assms(4) have "i" by simp
  with True assms(1,2) unlocked_triv [OF assms(3)] show ?thesis
    by (cases "cpus s (unat (h_tp (harts s (cur s))))"; intro kbase.equality; simp add: base_effects bit_simps)
next
  case False
  with assms(4) have "\<not> i" by simp
  with False assms(1,2) unlocked_triv [OF assms(3)] show ?thesis
    by (cases "cpus s (unat (h_tp (harts s (cur s))))"; intro kbase.equality; simp add: base_effects bit_simps)
qed

lemma c_proc_commute [simp]:
  "acquired l (upd_mycpu (c_proc_update f) s) = upd_mycpu (c_proc_update f) (acquired l s)"
  "released l (upd_mycpu (c_proc_update f) s) = upd_mycpu (c_proc_update f) (released l s)"
  "cycled (upd_mycpu (c_proc_update f) s) = upd_mycpu (c_proc_update f) (cycled s)"
  by (cases "cpus s (unat (h_tp (harts s (cur s))))"; intro kbase.equality; simp add: base_effects)+

lemma upd_mycpu_locks [simp]:
  "holding l (upd_mycpu f s) = holding l s" "unlocked l (upd_mycpu f s) = unlocked l s"
  "holding l (sie_on s) = holding l s" "unlocked l (sie_on s) = unlocked l s"
  "holding l (sie_off s) = holding l s" "unlocked l (sie_off s) = unlocked l s"
  by (simp_all add: holding_def unlocked_def)

lemma virtio_disk_intr_run:
  assumes "intr_sane s" "unlocked L_vdisk s" "others_unlocked s"
    and "us_idx (vq_used (vq s)) = vused_idx s + 1" "unat (fst (us_ring (vq_used (vq s)) (unat (vused_idx s) mod NUM))) = h"
    and "in_status (vq_info (vq s) h) = 0" "in_b (vq_info (vq s) h) = Some b"
  shows "\<exists>r. virtio_disk_intr s = Ok () ((cycled s)\<lparr>vregs := r, bufs := (bufs s)(b := (bufs s b)\<lparr>b_disk := 0\<rparr>),
    procs := roused {Ch_buf b} (c_proc (mycpu s)) (procs s), vused_idx := vused_idx s + 1\<rparr>)"
proof -
  obtain r where r: "wr_reg VIRTIO_MMIO_INTERRUPT_ACK (rd_reg VIRTIO_MMIO_INTERRUPT_STATUS (acquired L_vdisk s) AND 3) (acquired L_vdisk s)
      = Ok () ((acquired L_vdisk s)\<lparr>vregs := r\<rparr>)"
    by (simp add: wr_reg_def run_simps)
  let ?a = "(acquired L_vdisk s)\<lparr>vregs := r\<rparr>"
  let ?u = "?a\<lparr>bufs := (bufs s)(b := (bufs s b)\<lparr>b_disk := 0\<rparr>), procs := roused {Ch_buf b} (c_proc (mycpu s)) (procs s), vused_idx := vused_idx s + 1\<rparr>"
  have "virtio_intr_entry ?a = Ok () ?u"
    using assms by (simp add: virtio_intr_entry_def run_simps wakeup_rouses)
  moreover have "virtio_intr_loop ?u = Ok () ?u"
    using assms(4) by (subst virtio_intr_loop.simps) simp
  ultimately have "virtio_intr_loop ?a = Ok () ?u"
    using assms(4) by (subst virtio_intr_loop.simps) simp
  moreover have "release L_vdisk ?u = Ok () (released L_vdisk ?u)"
    using assms(1) by (simp add: run_simps intr_sane_def)
  moreover have "released L_vdisk ?u = (cycled s)\<lparr>vregs := r, bufs := (bufs s)(b := (bufs s b)\<lparr>b_disk := 0\<rparr>),
    procs := roused {Ch_buf b} (c_proc (mycpu s)) (procs s), vused_idx := vused_idx s + 1\<rparr>"
    using assms(1,2) by simp
  moreover have "lk_locked (locks s L_vdisk) = 0" using assms(2) by (simp add: unlocked_def)
  ultimately show ?thesis using assms(2) r by (intro exI [of _ r]) (simp add: virtio_disk_intr_def run_simps)
qed

lemma sie_twice [simp]: "sie_off (sie_on s) = sie_off s" "sie_on (sie_off s) = sie_on s"
  by (simp_all add: sie_on_def sie_off_def upd_hart_def)

lemma roused_back:
  assumes "p_state (ps p) = RUNNING" "p_chan (ps p) = None" "p < NPROC"
  shows "p_state (roused {Ch_buf b} None (ps(p := asleep (Ch_buf b) (ps p))) p) = RUNNABLE"
    "(roused {Ch_buf b} None (ps(p := asleep (Ch_buf b) (ps p))))(p := (roused {Ch_buf b} None (ps(p := asleep (Ch_buf b) (ps p))) p)\<lparr>p_state := RUNNING, p_chan := None\<rparr>)
      = roused {Ch_buf b} (Some p) ps"
proof -
  have "(ps p)\<lparr>p_chan := None, p_state := RUNNING\<rparr> = ps p" "(ps p)\<lparr>p_state := RUNNING, p_chan := None\<rparr> = ps p" using assms(1,2) by (cases "ps p", simp)+
  then show "(roused {Ch_buf b} None (ps(p := asleep (Ch_buf b) (ps p))))(p := (roused {Ch_buf b} None (ps(p := asleep (Ch_buf b) (ps p))) p)\<lparr>p_state := RUNNING, p_chan := None\<rparr>)
      = roused {Ch_buf b} (Some p) ps"
    using assms(3) by (auto simp: roused_def asleep_def fun_eq_iff)
  show "p_state (roused {Ch_buf b} None (ps(p := asleep (Ch_buf b) (ps p))) p) = RUNNABLE"
    using assms(3) by (simp add: roused_def asleep_def)
qed

lemma disk_sleep_run:
  fixes s :: "'r diskst_scheme"
  assumes q: "quiet p s" and dev: "vdev s (vq s, \<lambda>i. b_data (bufs s i), medium s) = (blk_done (vq s) h len, d, m)"
    and idx: "vused_idx s = us_idx (vq_used (vq s))" and inb: "in_b (vq_info (vq s) h) = Some b" and h: "h < NUM"
    and pw: "power s \<noteq> Some 0"
  shows "\<exists>r. disk_sleep b (acquired L_vdisk s) = Ok () ((acquired L_vdisk s)\<lparr>vregs := r, vq := blk_done (vq s) h len,
    bufs := (\<lambda>i. (bufs s i)\<lparr>b_data := d i\<rparr>)(b := (bufs s b)\<lparr>b_data := d b, b_disk := 0\<rparr>),
    medium := m, power := spend (power s), procs := roused {Ch_buf b} (Some p) (procs s), vused_idx := vused_idx s + 1\<rparr>)"
proof -
  note Q = quietD [OF q]
  have p: "p_state (procs s p) = RUNNING" "p_chan (procs s p) = None" "p < NPROC" using q by (simp_all add: quiet_def)
  let ?A = "acquired L_vdisk s" and ?as = "(procs s)(p := asleep (Ch_buf b) (procs s p))"
  have the_p: "the_proc ?A = Ok p ?A" using Q by (simp add: the_proc_run)
  have "sleep_begin (Ch_buf b) L_vdisk ?A = Ok (c_intena (mycpu ?A)) ((released L_vdisk (acquired (L_proc p) ?A))\<lparr>procs := (procs ?A)(p := asleep (Ch_buf b) (procs ?A p))\<rparr>)"
    by (rule sleep_begin_run) (use Q in simp_all)
  moreover have "released L_vdisk (acquired (L_proc p) ?A) = acquired (L_proc p) s"
    by (rule released_acquired_over) (use Q in simp_all)
  moreover have "c_intena (mycpu ?A) = intr_get s" using Q(3) by (simp add: acquired_def)
  ultimately have sb: "sleep_begin (Ch_buf b) L_vdisk ?A = Ok (intr_get s) ((acquired (L_proc p) s)\<lparr>procs := ?as\<rparr>)" by simp
  let ?S = "upd_mycpu (c_proc_update (\<lambda>_. None)) (cycled s)"
  let ?v = "(sie_off ?S)\<lparr>procs := ?as, vq := blk_done (vq s) h len, bufs := \<lambda>i. (bufs s i)\<lparr>b_data := d i\<rparr>, medium := m, power := spend (power s)\<rparr>"
  have v: "intr_sane ?v" "unlocked L_vdisk ?v" "others_unlocked ?v" "c_proc (mycpu ?v) = None"
    using Q(1,3) by (simp_all add: intr_sane_def others_unlocked_def)
  have h': "unat (word_of_nat h :: 32 word) = h" using h by (simp add: unat_of_nat)
  have ring: "us_idx (vq_used (vq ?v)) = vused_idx ?v + 1" "unat (fst (us_ring (vq_used (vq ?v)) (unat (vused_idx ?v) mod NUM))) = h"
    "in_status (vq_info (vq ?v) h) = 0" "in_b (vq_info (vq ?v) h) = Some b"
    using idx inb h' by (simp_all add: blk_done_def)
  from virtio_disk_intr_run [OF v(1-3) ring] v(4) obtain r where
    intr: "virtio_disk_intr ?v = Ok () ((cycled ?v)\<lparr>vregs := r, bufs := (bufs ?v)(b := (bufs ?v b)\<lparr>b_disk := 0\<rparr>),
      procs := roused {Ch_buf b} None (procs ?v), vused_idx := vused_idx ?v + 1\<rparr>)" by auto
  have lp: "lk_locked (locks s l) = 0" "unlocked l s" for l using Q(1,2) by simp_all
  show ?thesis
    using Q(3,4,5) the_p sb dev pw intr lp roused_back [of "procs s" p b, OF p]
      switch_back [OF Q(3,4) Q(1) refl, of L_vdisk "L_proc p"]
    by (intro exI [of _ r]) (simp add: disk_sleep_def run_simps scheduler_leave_def device_runs_def scheduler_enter_def sleep_end_def sched_end_def)
qed

section \<open>Closed form of a transfer\<close>

definition vdisk_ready :: "'r diskst_scheme \<Rightarrow> bool" where
  "vdisk_ready s \<longleftrightarrow> virtio_blk (vdev s) \<and> (\<forall>i<NUM. vfree s i) \<and> vused_idx s = us_idx (vq_used (vq s))
     \<and> av_idx (vq_avail (vq s)) = us_idx (vq_used (vq s))"

definition sector_of :: "u32 \<Rightarrow> u64" where
  "sector_of bn = ucast (bn * of_nat (BSIZE div 512))"

lemma upt_8: "[0..<8] = [0, 1, 2, 3, 4, 5, 6, 7]"
  by (simp add: upt_rec)

lemma alloc3_desc_run:
  assumes "\<forall>i<NUM. vfree s i"
  shows "alloc3_desc s = Ok (Some [0, 1, 2]) (s\<lparr>vfree := (vfree s)(0 := False, 1 := False, 2 := False)\<rparr>)"
  using assms by (simp add: alloc3_desc_def alloc_desc_def run_simps upt_8 numeral_3_eq_3)

lemma free_desc_run:
  assumes "intr_sane s" "others_unlocked s" "c_noff (mycpu s) \<noteq> 0" "i < NUM" "\<not> vfree s i"
  shows "free_desc i s = Ok () (s\<lparr>vq := (vq s)\<lparr>vq_desc := (vq_desc (vq s))(i := zero_desc)\<rparr>, vfree := (vfree s)(i := True),
    procs := roused {Ch_disk_free} (c_proc (mycpu s)) (procs s)\<rparr>)"
  using assms by (simp add: free_desc_def run_simps wakeup_rouses cycled_nested)

lemma free_chain3_run:
  assumes "intr_sane s" "others_unlocked s" "c_noff (mycpu s) \<noteq> 0" "\<not> vfree s 0" "\<not> vfree s 1" "\<not> vfree s 2"
    and "d_flags (vq_desc (vq s) 0) = 1" "d_next (vq_desc (vq s) 0) = 1" "d_flags (vq_desc (vq s) 1) AND 1 \<noteq> 0"
    and "d_next (vq_desc (vq s) 1) = 2" "d_flags (vq_desc (vq s) 2) = 2"
  shows "\<exists>d. free_chain 0 s = Ok () (s\<lparr>vq := (vq s)\<lparr>vq_desc := d\<rparr>, vfree := (vfree s)(0 := True, 1 := True, 2 := True),
    procs := roused {Ch_disk_free} (c_proc (mycpu s)) (procs s)\<rparr>)"
proof -
  let ?d = "vq_desc (vq s)" and ?f = "vfree s" and ?ps = "roused {Ch_disk_free} (c_proc (mycpu s)) (procs s)"
  let ?s1 = "s\<lparr>vq := (vq s)\<lparr>vq_desc := ?d(0 := zero_desc)\<rparr>, vfree := ?f(0 := True), procs := ?ps\<rparr>"
  let ?s2 = "s\<lparr>vq := (vq s)\<lparr>vq_desc := ?d(0 := zero_desc, 1 := zero_desc)\<rparr>, vfree := ?f(0 := True, 1 := True), procs := ?ps\<rparr>"
  let ?s3 = "s\<lparr>vq := (vq s)\<lparr>vq_desc := ?d(0 := zero_desc, 1 := zero_desc, 2 := zero_desc)\<rparr>, vfree := ?f(0 := True, 1 := True, 2 := True), procs := ?ps\<rparr>"
  have 1: "free_desc 0 s = Ok () ?s1" using assms by (simp add: free_desc_run)
  have 2: "free_desc 1 ?s1 = Ok () ?s2" using assms by (simp add: free_desc_run)
  have 3: "free_desc 2 ?s2 = Ok () ?s3" using assms by (simp add: free_desc_run)
  have "free_chain 2 ?s2 = Ok () ?s3" using 3 assms by (subst free_chain.simps) simp
  then have "free_chain 1 ?s1 = Ok () ?s3" using 2 assms by (subst free_chain.simps) simp
  then have "free_chain 0 s = Ok () ?s3" using 1 assms by (subst free_chain.simps) simp
  then show ?thesis by (intro exI)
qed

lemma buf_data_triv: "(\<lambda>i. (f i)\<lparr>b_data := b_data (f i)\<rparr>) = f"
  by (rule ext) simp


text \<open>The shared structures after the request has been made available.\<close>

definition vq_request :: "nat \<Rightarrow> bool \<Rightarrow> u64 \<Rightarrow> vqueue \<Rightarrow> vqueue" where
  "vq_request b w sec q = q\<lparr>
     vq_ops := (vq_ops q)(0 := \<lparr>rq_type = (if w then VIRTIO_BLK_T_OUT else VIRTIO_BLK_T_IN), rq_reserved = 0, rq_sector = sec\<rparr>),
     vq_desc := (vq_desc q)(
       0 := \<lparr>d_addr = Dma_op 0, d_len = 16, d_flags = VRING_DESC_F_NEXT, d_next = 1\<rparr>,
       1 := \<lparr>d_addr = Dma_data b, d_len = 1024, d_flags = (if w then 0 else VRING_DESC_F_WRITE) OR VRING_DESC_F_NEXT, d_next = 2\<rparr>,
       2 := \<lparr>d_addr = Dma_status 0, d_len = 1, d_flags = VRING_DESC_F_WRITE, d_next = 0\<rparr>),
     vq_info := (vq_info q)(0 := (vq_info q 0)\<lparr>in_status := 0xff, in_b := Some b\<rparr>),
     vq_avail := (vq_avail q)\<lparr>av_ring := (av_ring (vq_avail q))(unat (av_idx (vq_avail q)) mod NUM := 0), av_idx := av_idx (vq_avail q) + 1\<rparr>\<rparr>"

lemma virtio_request_run:
  "\<exists>r. block [virtio_format b w 0 1 2, virtio_submit b 0] s = Ok () (s\<lparr>vregs := r,
     vq := vq_request b w (sector_of (b_blockno (bufs s b))) (vq s), bufs := (bufs s)(b := (bufs s b)\<lparr>b_disk := 1\<rparr>)\<rparr>)"
  by (intro exI [of _ "vdev_reg s (vregs s) VIRTIO_MMIO_QUEUE_NOTIFY 0"])
    (simp add: virtio_format_def virtio_submit_def run_simps wr_reg_def vq_request_def sector_of_def)

lemma vq_request_ok: "blk_request (vq_request b w sec q) 0 b w" "rq_sector (vq_ops (vq_request b w sec q) 0) = sec"
  by (simp_all add: blk_request_def vq_request_def)


text \<open>The buffer and the medium after a transfer.\<close>

definition xfer_buf :: "bool \<Rightarrow> medium \<Rightarrow> buf \<Rightarrow> buf" where
  "xfer_buf w m b = (if w then b\<lparr>b_disk := 0\<rparr> else b\<lparr>b_disk := 0, b_data := blk_read m (sector_of (b_blockno b))\<rparr>)"

definition xfer_medium :: "bool \<Rightarrow> buf \<Rightarrow> medium \<Rightarrow> medium" where
  "xfer_medium w b m = (if w then blk_write m (sector_of (b_blockno b)) (b_data b) else m)"

lemma unat_sector_of:
  assumes "unat bn < FSSIZE"
  shows "unat (sector_of bn) = 2 * unat bn"
proof -
  have "unat (bn * 2 :: u32) = 2 * unat bn"
    using assms by (subst unat_mult_lem [THEN iffD1]) simp_all
  then show ?thesis by (simp add: sector_of_def unsigned_ucast_eq take_bit_nat_eq_self)
qed

lemma virtio_blkD:
  assumes "virtio_blk dev" "av_idx (vq_avail q) = us_idx (vq_used q) + 1"
    and "unat (av_ring (vq_avail q) (unat (us_idx (vq_used q)) mod NUM)) = h" "blk_request q h b w"
    and "unat (rq_sector (vq_ops q h)) + 2 \<le> 2 * FSSIZE"
  shows "\<exists>len. dev (q, data, m) = (blk_done q h len, if w then data else data(b := blk_read m (rq_sector (vq_ops q h))),
    if w then blk_write m (rq_sector (vq_ops q h)) (data b) else m)"
  using assms unfolding virtio_blk_def by blast

lemma disk_wait_run:
  fixes s :: "'r diskst_scheme" and f :: "nat \<Rightarrow> bool" and r1 :: "u64 \<Rightarrow> u32" and w :: bool
  assumes q: "quiet p s" and ready: "vdisk_ready s" and bn: "unat (b_blockno (bufs s b)) < FSSIZE" and pw: "power s \<noteq> Some 0"
  defines "s1 \<equiv> s\<lparr>vfree := f, vregs := r1, vq := vq_request b w (sector_of (b_blockno (bufs s b))) (vq s), bufs := (bufs s)(b := (bufs s b)\<lparr>b_disk := 1\<rparr>)\<rparr>"
  shows "\<exists>r len. disk_wait b (acquired L_vdisk s1) = Ok () ((acquired L_vdisk s)\<lparr>vfree := f, vregs := r,
    vq := blk_done (vq_request b w (sector_of (b_blockno (bufs s b))) (vq s)) 0 len, bufs := (bufs s)(b := xfer_buf w (medium s) (bufs s b)),
    medium := xfer_medium w (bufs s b) (medium s), power := spend (power s), procs := roused {Ch_buf b} (Some p) (procs s), vused_idx := vused_idx s + 1\<rparr>)"
proof -
  let ?bn = "b_blockno (bufs s b)" and ?q = "vq_request b w (sector_of (b_blockno (bufs s b))) (vq s)"
  let ?data = "\<lambda>i. b_data (bufs s1 i)"
  have sec: "unat (sector_of ?bn) + 2 \<le> 2 * FSSIZE" using bn unat_sector_of [OF bn] by simp
  have vq1: "vq s1 = ?q" "vused_idx s1 = us_idx (vq_used ?q)" "in_b (vq_info ?q 0) = Some b" "vdev s1 = vdev s" "medium s1 = medium s"
    using ready by (simp_all add: s1_def vq_request_def vdisk_ready_def)
  have ring: "av_idx (vq_avail ?q) = us_idx (vq_used ?q) + 1" "unat (av_ring (vq_avail ?q) (unat (us_idx (vq_used ?q)) mod NUM)) = 0"
    using ready by (simp_all add: vq_request_def vdisk_ready_def)
  from ready have "virtio_blk (vdev s)" by (simp add: vdisk_ready_def)
  then have "\<exists>len. vdev s (?q, ?data, medium s) = (blk_done ?q 0 len, if w then ?data else ?data(b := blk_read (medium s) (rq_sector (vq_ops ?q 0))),
      if w then blk_write (medium s) (rq_sector (vq_ops ?q 0)) (?data b) else medium s)"
    by (rule virtio_blkD [OF _ ring vq_request_ok(1)]) (simp only: vq_request_ok(2) sec)
  then obtain len where
    dev: "vdev s (?q, ?data, medium s) = (blk_done ?q 0 len, if w then ?data else ?data(b := blk_read (medium s) (sector_of ?bn)),
      if w then blk_write (medium s) (sector_of ?bn) (?data b) else medium s)" unfolding vq_request_ok(2) by blast
  have q1: "quiet p s1" using q by (simp add: s1_def quiet_def)
  have "vused_idx s1 = us_idx (vq_used (vq s1))" "in_b (vq_info (vq s1) 0) = Some b"
    "vdev s1 (vq s1, ?data, medium s1) = (blk_done (vq s1) 0 len, if w then ?data else ?data(b := blk_read (medium s) (sector_of ?bn)),
      if w then blk_write (medium s) (sector_of ?bn) (?data b) else medium s)"
    using vq1 dev by simp_all
  moreover have "power s1 \<noteq> Some 0" using pw by (simp add: s1_def)
  ultimately obtain r where
    sl: "disk_sleep b (acquired L_vdisk s1) = Ok () ((acquired L_vdisk s1)\<lparr>vregs := r, vq := blk_done ?q 0 len,
      bufs := (\<lambda>i. (bufs s1 i)\<lparr>b_data := (if w then ?data else ?data(b := blk_read (medium s) (sector_of ?bn))) i\<rparr>)
        (b := (bufs s1 b)\<lparr>b_data := (if w then ?data else ?data(b := blk_read (medium s) (sector_of ?bn))) b, b_disk := 0\<rparr>),
      medium := if w then blk_write (medium s) (sector_of ?bn) (?data b) else medium s, power := spend (power s1),
      procs := roused {Ch_buf b} (Some p) (procs s1), vused_idx := vused_idx s1 + 1\<rparr>)"
    using disk_sleep_run [OF q1 _ _ _ _ \<open>power s1 \<noteq> Some 0\<close>, of 0 len] unfolding vq1 by auto
  have bf: "(\<lambda>i. (bufs s1 i)\<lparr>b_data := (if w then ?data else ?data(b := blk_read (medium s) (sector_of ?bn))) i\<rparr>)
        (b := (bufs s1 b)\<lparr>b_data := (if w then ?data else ?data(b := blk_read (medium s) (sector_of ?bn))) b, b_disk := 0\<rparr>)
      = (bufs s)(b := xfer_buf w (medium s) (bufs s b))"
    by (auto simp: s1_def xfer_buf_def fun_eq_iff)
  have md: "(if w then blk_write (medium s) (sector_of ?bn) (?data b) else medium s) = xfer_medium w (bufs s b) (medium s)"
    by (simp add: xfer_medium_def s1_def)
  note sl' = sl [unfolded bf md]
  show ?thesis
    by (intro exI [of _ r] exI [of _ len]) (use sl' in \<open>simp add: disk_wait_def run_simps s1_def xfer_buf_def\<close>)
qed


lemma vfree_restore:
  "vfree s = g \<Longrightarrow> s\<lparr>vfree := f, vregs := r, bufs := b, medium := m, power := w, procs := ps, vused_idx := u, vq := q, vq := q', vfree := g, procs := ps'\<rparr>
    = s\<lparr>vregs := r, vq := q', bufs := b, medium := m, power := w, procs := ps', vused_idx := u\<rparr>"
  by (rule diskst.equality) simp_all

lemma virtio_disk_rw_run:
  fixes s :: "'r diskst_scheme"
  assumes q: "quiet p s" and ready: "vdisk_ready s" and bn: "unat (b_blockno (bufs s b)) < FSSIZE" and pw: "power s \<noteq> Some 0"
  shows "\<exists>r v. let t = (cycled s)\<lparr>vregs := r, vq := v, vused_idx := vused_idx s + 1, bufs := (bufs s)(b := xfer_buf w (medium s) (bufs s b)),
      medium := xfer_medium w (bufs s b) (medium s), power := spend (power s), procs := roused {Ch_buf b, Ch_disk_free} (Some p) (procs s)\<rparr>
    in virtio_disk_rw b w s = Ok () t \<and> quiet p t \<and> vdisk_ready t"
proof -
  note Q = quietD [OF q]
  let ?f = "(vfree s)(0 := False, 1 := False, 2 := False)" and ?q = "vq_request b w (sector_of (b_blockno (bufs s b))) (vq s)"
  let ?A = "acquired L_vdisk s"
  have free: "\<forall>i<NUM. vfree s i" and idx: "vused_idx s = us_idx (vq_used (vq s))" "av_idx (vq_avail (vq s)) = us_idx (vq_used (vq s))"
    and dev: "virtio_blk (vdev s)" using ready by (simp_all add: vdisk_ready_def)
  have alloc: "alloc3_desc ?A = Ok (Some [0, 1, 2]) (?A\<lparr>vfree := ?f\<rparr>)" using alloc3_desc_run [of ?A] free by simp
  obtain r1 where "block [virtio_format b w 0 1 2, virtio_submit b 0] (?A\<lparr>vfree := ?f\<rparr>) = Ok () (?A\<lparr>vfree := ?f, vregs := r1, vq := ?q,
      bufs := (bufs s)(b := (bufs s b)\<lparr>b_disk := 1\<rparr>)\<rparr>)"
    using virtio_request_run [of b w "?A\<lparr>vfree := ?f\<rparr>"] by auto
  then obtain f1 where req: "virtio_format b w 0 1 2 (?A\<lparr>vfree := ?f\<rparr>) = Ok () f1"
    "virtio_submit b 0 f1 = Ok () (?A\<lparr>vfree := ?f, vregs := r1, vq := ?q, bufs := (bufs s)(b := (bufs s b)\<lparr>b_disk := 1\<rparr>)\<rparr>)"
    by (auto simp: run_simps obind_Ok_iff)
  obtain r len where wait: "disk_wait b (?A\<lparr>vfree := ?f, vregs := r1, vq := ?q, bufs := (bufs s)(b := (bufs s b)\<lparr>b_disk := 1\<rparr>)\<rparr>)
      = Ok () (?A\<lparr>vfree := ?f, vregs := r, vq := blk_done ?q 0 len, bufs := (bufs s)(b := xfer_buf w (medium s) (bufs s b)),
         medium := xfer_medium w (bufs s b) (medium s), power := spend (power s), procs := roused {Ch_buf b} (Some p) (procs s), vused_idx := vused_idx s + 1\<rparr>)"
    using disk_wait_run [OF q ready bn pw, where f = ?f and w = w and ?r1.0 = r1] by auto
  let ?q2 = "(blk_done ?q 0 len)\<lparr>vq_info := (vq_info (blk_done ?q 0 len))(0 := (vq_info (blk_done ?q 0 len) 0)\<lparr>in_b := None\<rparr>)\<rparr>"
  let ?W = "?A\<lparr>vfree := ?f, vregs := r, bufs := (bufs s)(b := xfer_buf w (medium s) (bufs s b)),
         medium := xfer_medium w (bufs s b) (medium s), power := spend (power s), procs := roused {Ch_buf b} (Some p) (procs s), vused_idx := vused_idx s + 1, vq := ?q2\<rparr>"
  have "\<exists>d. free_chain 0 ?W = Ok () (?W\<lparr>vq := (vq ?W)\<lparr>vq_desc := d\<rparr>, vfree := (vfree ?W)(0 := True, 1 := True, 2 := True),
    procs := roused {Ch_disk_free} (c_proc (mycpu ?W)) (procs ?W)\<rparr>)"
    by (rule free_chain3_run) (use Q in \<open>simp_all add: blk_done_def vq_request_def\<close>)
  then obtain d where d: "free_chain 0 ?W = Ok () (?W\<lparr>vq := ?q2\<lparr>vq_desc := d\<rparr>, vfree := (vfree ?W)(0 := True, 1 := True, 2 := True),
    procs := roused {Ch_buf b, Ch_disk_free} (Some p) (procs s)\<rparr>)"
    using Q(4) by (auto simp: insert_commute)
  have "vfree ?A = (vfree ?W)(0 := True, 1 := True, 2 := True)" using free by (auto simp: fun_eq_iff)
  note chain = d [unfolded vfree_restore [OF this]]
  let ?t = "(cycled s)\<lparr>vregs := r, vq := ?q2\<lparr>vq_desc := d\<rparr>, vused_idx := vused_idx s + 1, bufs := (bufs s)(b := xfer_buf w (medium s) (bufs s b)),
      medium := xfer_medium w (bufs s b) (medium s), power := spend (power s), procs := roused {Ch_buf b, Ch_disk_free} (Some p) (procs s)\<rparr>"
  have "virtio_disk_rw b w s = Ok () ?t"
    using Q alloc req wait chain by (simp add: virtio_disk_rw_def run_simps obind_assoc)
  moreover have "quiet p ?t" using q by (simp add: quiet_def)
  moreover have "vdisk_ready ?t" using free idx dev by (simp add: vdisk_ready_def blk_done_def vq_request_def)
  ultimately show ?thesis unfolding Let_def by blast
qed


lemma disk_wait_crash:
  fixes s :: "'r diskst_scheme"
  assumes q: "quiet p s" and pw: "power s = Some 0" and d: "b_disk (bufs s b) = 1"
  shows "\<exists>t. disk_wait b (acquired L_vdisk s) = Crash t \<and> medium t = medium s"
proof -
  note Q = quietD [OF q]
  let ?A = "acquired L_vdisk s" and ?as = "(procs s)(p := asleep (Ch_buf b) (procs s p))"
  have the_p: "the_proc ?A = Ok p ?A" using Q by (simp add: the_proc_run)
  have "sleep_begin (Ch_buf b) L_vdisk ?A = Ok (c_intena (mycpu ?A)) ((released L_vdisk (acquired (L_proc p) ?A))\<lparr>procs := (procs ?A)(p := asleep (Ch_buf b) (procs ?A p))\<rparr>)"
    by (rule sleep_begin_run) (use Q in simp_all)
  moreover have "released L_vdisk (acquired (L_proc p) ?A) = acquired (L_proc p) s"
    by (rule released_acquired_over) (use Q in simp_all)
  ultimately have sb: "sleep_begin (Ch_buf b) L_vdisk ?A = Ok (c_intena (mycpu ?A)) ((acquired (L_proc p) s)\<lparr>procs := ?as\<rparr>)" by simp
  have lp: "lk_locked (locks s l) = 0" "unlocked l s" for l using Q(1,2) by simp_all
  show ?thesis using d pw Q(3,4,5) the_p sb lp
    by (simp add: disk_wait_def disk_sleep_def run_simps scheduler_leave_def device_runs_def)
qed

lemma virtio_disk_rw_crash:
  fixes s :: "'r diskst_scheme"
  assumes q: "quiet p s" and ready: "vdisk_ready s" and pw: "power s = Some 0"
  shows "\<exists>t. virtio_disk_rw b w s = Crash t \<and> medium t = medium s"
proof -
  note Q = quietD [OF q]
  let ?f = "(vfree s)(0 := False, 1 := False, 2 := False)" and ?A = "acquired L_vdisk s"
  let ?q = "vq_request b w (sector_of (b_blockno (bufs s b))) (vq s)"
  have alloc: "alloc3_desc ?A = Ok (Some [0, 1, 2]) (?A\<lparr>vfree := ?f\<rparr>)"
    using alloc3_desc_run [of ?A] ready by (simp add: vdisk_ready_def)
  obtain r1 where "block [virtio_format b w 0 1 2, virtio_submit b 0] (?A\<lparr>vfree := ?f\<rparr>) = Ok () (?A\<lparr>vfree := ?f, vregs := r1, vq := ?q,
      bufs := (bufs s)(b := (bufs s b)\<lparr>b_disk := 1\<rparr>)\<rparr>)"
    using virtio_request_run [of b w "?A\<lparr>vfree := ?f\<rparr>"] by auto
  then obtain f1 where req: "virtio_format b w 0 1 2 (?A\<lparr>vfree := ?f\<rparr>) = Ok () f1"
    "virtio_submit b 0 f1 = Ok () (?A\<lparr>vfree := ?f, vregs := r1, vq := ?q, bufs := (bufs s)(b := (bufs s b)\<lparr>b_disk := 1\<rparr>)\<rparr>)"
    by (auto simp: run_simps obind_Ok_iff)
  let ?s = "s\<lparr>vfree := ?f, vregs := r1, vq := ?q, bufs := (bufs s)(b := (bufs s b)\<lparr>b_disk := 1\<rparr>)\<rparr>"
  have "quiet p ?s" using q by (simp add: quiet_def)
  from disk_wait_crash [OF this, of b] pw obtain t where "disk_wait b (acquired L_vdisk ?s) = Crash t" "medium t = medium s" by auto
  then show ?thesis using Q alloc req by (simp add: virtio_disk_rw_def run_simps)
qed

text \<open>A transfer as a step of a caller that the power may interrupt.\<close>

lemma wpc_virtio_disk_rw:
  fixes s :: "'r diskst_scheme"
  assumes "quiet p s" "vdisk_ready s" "unat (b_blockno (bufs s b)) < FSSIZE"
    and "\<And>t. power s \<noteq> None \<Longrightarrow> medium t = medium s \<Longrightarrow> C t"
    and "\<And>r v t. t = (cycled s)\<lparr>vregs := r, vq := v, vused_idx := vused_idx s + 1, bufs := (bufs s)(b := xfer_buf w (medium s) (bufs s b)),
      medium := xfer_medium w (bufs s b) (medium s), power := spend (power s), procs := roused {Ch_buf b, Ch_disk_free} (Some p) (procs s)\<rparr>
      \<Longrightarrow> quiet p t \<Longrightarrow> vdisk_ready t \<Longrightarrow> Q () t"
  shows "wpc (virtio_disk_rw b w) Q C s"
proof (cases "power s = Some 0")
  case True
  from virtio_disk_rw_crash [OF assms(1,2) True, of b w] assms(4) True show ?thesis by (auto simp: wpc_def)
next
  case False
  from virtio_disk_rw_run [OF assms(1-3) False, of w] assms(5) show ?thesis by (auto simp: wpc_def Let_def)
qed

section \<open>Blocks of the medium\<close>

definition dblock :: "medium \<Rightarrow> u32 \<Rightarrow> u8 list" where
  "dblock m bn = blk_read m (sector_of bn)"

lemma sector_of_apart:
  assumes "unat a < FSSIZE" "unat b < FSSIZE" "a \<noteq> b"
  shows "sector_of a \<noteq> sector_of b" "sector_of a \<noteq> sector_of b + 1" "sector_of a + 1 \<noteq> sector_of b + 1"
proof -
  have n: "unat (sector_of a) = 2 * unat a" "unat (sector_of b) = 2 * unat b" using assms(1,2) by (simp_all add: unat_sector_of)
  have ne: "unat a \<noteq> unat b" using assms(3) by (simp add: word_unat_eq_iff)
  then show "sector_of a \<noteq> sector_of b" "sector_of a + 1 \<noteq> sector_of b + 1" using n by auto
  have "unat (sector_of b + 1) = 2 * unat b + 1" using n(2) assms(2) by (subst unat_add_lem [THEN iffD1]) simp_all
  then have "unat (sector_of a) \<noteq> unat (sector_of b + 1)" using n(1) by presburger
  then show "sector_of a \<noteq> sector_of b + 1" by metis
qed

lemma dblock_write_same: "length d = BSIZE \<Longrightarrow> dblock (blk_write m (sector_of bn) d) bn = d"
  by (simp add: dblock_def blk_read_def blk_write_def)

lemma dblock_write_other:
  assumes "unat a < FSSIZE" "unat b < FSSIZE" "a \<noteq> b"
  shows "dblock (blk_write m (sector_of b) d) a = dblock m a"
proof -
  have "sector_of a + 1 \<noteq> sector_of b" using sector_of_apart(2) [OF assms(2,1)] assms(3) by metis
  then show ?thesis using sector_of_apart [OF assms] by (simp add: dblock_def blk_read_def blk_write_def)
qed

section \<open>Descriptor allocation\<close>

abbreviation free_set :: "'r diskst_scheme \<Rightarrow> nat set" where
  "free_set s \<equiv> {i. i < NUM \<and> vfree s i}"

lemma alloc_desc_scan_run:
  "alloc_desc_scan xs s = (case find (vfree s) xs of None \<Rightarrow> Ok None s | Some i \<Rightarrow> Ok (Some i) (s\<lparr>vfree := (vfree s)(i := False)\<rparr>))"
  by (induction xs) (auto simp: run_simps)

lemma alloc_desc_run:
  "free_set s = {} \<Longrightarrow> alloc_desc s = Ok None s"
  "free_set s \<noteq> {} \<Longrightarrow> \<exists>i \<in> free_set s. alloc_desc s = Ok (Some i) (s\<lparr>vfree := (vfree s)(i := False)\<rparr>)"
proof -
  assume "free_set s = {}"
  then have "find (vfree s) [0..<NUM] = None" unfolding find_None_iff by auto
  then show "alloc_desc s = Ok None s" by (simp add: alloc_desc_def alloc_desc_scan_run)
next
  assume "free_set s \<noteq> {}"
  then have "find (vfree s) [0..<NUM] \<noteq> None" unfolding find_None_iff by auto
  then obtain i where i: "find (vfree s) [0..<NUM] = Some i" by blast
  then have "i < NUM" "vfree s i" unfolding find_Some_iff by auto
  with i show "\<exists>i \<in> free_set s. alloc_desc s = Ok (Some i) (s\<lparr>vfree := (vfree s)(i := False)\<rparr>)"
    by (auto simp: alloc_desc_def alloc_desc_scan_run)
qed

lemma alloc3_from_enough:
  "n \<le> card (free_set s) \<Longrightarrow> \<exists>is. alloc3_from n got s = Ok (Some (got @ is)) (s\<lparr>vfree := \<lambda>i. vfree s i \<and> i \<notin> set is\<rparr>)
    \<and> length is = n \<and> distinct is \<and> set is \<subseteq> free_set s"
proof (induction n arbitrary: got s)
  case 0
  then show ?case by (intro exI [of _ "[]"]) (simp add: run_simps)
next
  case (Suc n)
  then have "card (free_set s) \<noteq> 0" by linarith
  then have "free_set s \<noteq> {}" by (metis card.empty)
  from alloc_desc_run(2) [OF this] obtain i where i: "i \<in> free_set s" "alloc_desc s = Ok (Some i) (s\<lparr>vfree := (vfree s)(i := False)\<rparr>)" ..
  let ?s = "s\<lparr>vfree := (vfree s)(i := False)\<rparr>"
  have fs: "free_set ?s = free_set s - {i}" by auto
  have "n \<le> card (free_set ?s)" unfolding fs using Suc.prems i(1) by simp
  from Suc.IH [OF this, of "got @ [i]"] obtain js where
    js: "alloc3_from n (got @ [i]) ?s = Ok (Some ((got @ [i]) @ js)) (?s\<lparr>vfree := \<lambda>j. vfree ?s j \<and> j \<notin> set js\<rparr>)"
    "length js = n" "distinct js" "set js \<subseteq> free_set s - {i}" unfolding fs by blast
  moreover have "(\<lambda>j. vfree ?s j \<and> j \<notin> set js) = (\<lambda>j. vfree s j \<and> j \<notin> set (i # js))" by auto
  ultimately show ?case using i by (intro exI [of _ "i # js"]) (auto simp: run_simps)
qed

lemma free_descs_run:
  assumes "intr_sane s" "others_unlocked s" "c_noff (mycpu s) \<noteq> 0" "distinct xs" "\<forall>i\<in>set xs. i < NUM \<and> \<not> vfree s i"
  shows "\<exists>t. forK free_desc xs s = Ok () t \<and> vfree t = (\<lambda>i. vfree s i \<or> i \<in> set xs)"
  using assms
proof (induction xs arbitrary: s)
  case (Cons i xs)
  let ?s = "s\<lparr>vq := (vq s)\<lparr>vq_desc := (vq_desc (vq s))(i := zero_desc)\<rparr>, vfree := (vfree s)(i := True),
    procs := roused {Ch_disk_free} (c_proc (mycpu s)) (procs s)\<rparr>"
  have "free_desc i s = Ok () ?s" using Cons.prems by (simp add: free_desc_run)
  moreover have "\<exists>t. forK free_desc xs ?s = Ok () t \<and> vfree t = (\<lambda>j. vfree ?s j \<or> j \<in> set xs)"
    by (rule Cons.IH) (use Cons.prems in auto)
  ultimately show ?case by (auto simp: run_simps fun_eq_iff)
qed (auto simp: run_simps)

lemma alloc3_from_short:
  assumes "card (free_set s) < n" "intr_sane s" "others_unlocked s" "c_noff (mycpu s) \<noteq> 0" "distinct got" "\<forall>i\<in>set got. i < NUM \<and> \<not> vfree s i"
  shows "\<exists>t. alloc3_from n got s = Ok None t \<and> vfree t = (\<lambda>i. vfree s i \<or> i \<in> set got)"
  using assms
proof (induction n arbitrary: got s)
  case (Suc n)
  show ?case
  proof (cases "free_set s = {}")
    case True
    from free_descs_run [OF Suc.prems(2-6)] show ?thesis by (auto simp: alloc_desc_run(1) [OF True] run_simps)
  next
    case False
    from alloc_desc_run(2) [OF this] obtain i where i: "i \<in> free_set s" "alloc_desc s = Ok (Some i) (s\<lparr>vfree := (vfree s)(i := False)\<rparr>)" ..
    let ?s = "s\<lparr>vfree := (vfree s)(i := False)\<rparr>"
    have fs: "free_set ?s = free_set s - {i}" by auto
    have "card (free_set s) = Suc (card (free_set s - {i}))" using i(1) by (intro card.remove) simp_all
    then have "card (free_set ?s) < n" unfolding fs using Suc.prems(1) by simp
    then have "\<exists>t. alloc3_from n (got @ [i]) ?s = Ok None t \<and> vfree t = (\<lambda>j. vfree ?s j \<or> j \<in> set (got @ [i]))"
      by (rule Suc.IH) (use Suc.prems i in auto)
    moreover have "(\<lambda>j. vfree ?s j \<or> j \<in> set (got @ [i])) = (\<lambda>j. vfree s j \<or> j \<in> set got)" using i(1) by auto
    ultimately show ?thesis using i by (auto simp: run_simps)
  qed
qed simp


section \<open>A concrete disk\<close>

text \<open>Process 1 runs on a machine with a disk whose sector \<open>k\<close> holds 512 bytes \<open>k mod 256\<close>; buffer 0 is for block 7.\<close>

definition demo_buf :: buf where
  "demo_buf = \<lparr>b_valid = 0, b_disk = 0, b_dev = 1, b_blockno = 7, b_refcnt = 1, b_prev = 0, b_next = 0, b_data = replicate 1024 0\<rparr>"

definition demo_disk :: diskst where
  "demo_disk = slst.extend demo_sl \<lparr>bufs = \<lambda>_. demo_buf,
     vq = \<lparr>vq_desc = \<lambda>_. zero_desc, vq_avail = \<lparr>av_flags = 0, av_idx = 0, av_ring = \<lambda>_. 0\<rparr>,
       vq_used = \<lparr>us_flags = 0, us_idx = 0, us_ring = \<lambda>_. (0, 0)\<rparr>, vq_info = \<lambda>_. \<lparr>in_b = None, in_status = 0\<rparr>,
       vq_ops = \<lambda>_. \<lparr>rq_type = 0, rq_reserved = 0, rq_sector = 0\<rparr>\<rparr>,
     vq_pages = (0, 0, 0), vfree = \<lambda>_. True, vused_idx = 0, vregs = \<lambda>_. 0, vdev_reg = \<lambda>m r v. m(r := v), vdev = simple_disk,
     medium = \<lambda>k. replicate 512 (ucast k), power = None\<rparr>"

lemma slst_extend_base [simp]:
  "cpuid (slst.extend s x) = cpuid s" "mycpu (slst.extend s x) = mycpu s" "locks (slst.extend s x) = locks s"
  "unlocked l (slst.extend s x) = unlocked l s" "procs (slst.extend s x) = procs s" "slocks (slst.extend s x) = slocks s"
  "intr_get (slst.extend s x) = intr_get s"
  by (simp_all add: slst.extend_def cpuid_def r_tp_def mycpu_def unlocked_def intr_get_bit)

lemma demo_disk_sel:
  "bufs demo_disk = (\<lambda>_. demo_buf)" "vfree demo_disk = (\<lambda>_. True)" "medium demo_disk = (\<lambda>k. replicate 512 (ucast k))"
  "vdev demo_disk = simple_disk" "power demo_disk = None"
  by (simp_all add: demo_disk_def slst.extend_def)

lemma demo_disk_ok: "quiet 0 demo_disk" "vdisk_ready demo_disk"
proof -
  have "quiet 0 demo_disk = quiet 0 demo_sl" by (simp add: demo_disk_def quiet_def)
  then show "quiet 0 demo_disk" by (simp add: demo_sl_ok)
  show "vdisk_ready demo_disk" by (simp add: vdisk_ready_def demo_disk_def slst.extend_def simple_disk_ok)
qed

section \<open>The properties\<close>

text \<open>C21.  \<^verbatim>\<open>virtio_disk_rw\<close> returns when the device behaves as its specification says.  A read fills the buffer
  with the block and leaves the medium alone; a write puts the buffer in the block and changes no other
  block.  No other buffer changes, and all descriptors are free and all locks released again.\<close>

theorem disk_transfer:
  fixes s :: "'r diskst_scheme"
  assumes "quiet p s" "vdisk_ready s" "unat (b_blockno (bufs s b)) < FSSIZE" "power s \<noteq> Some 0" "length (b_data (bufs s b)) = BSIZE"
  defines "bn \<equiv> b_blockno (bufs s b)"
  shows "(\<exists>t. virtio_disk_rw b False s = Ok () t \<and> bufs t = (bufs s)(b := (bufs s b)\<lparr>b_disk := 0, b_data := dblock (medium s) bn\<rparr>)
        \<and> medium t = medium s \<and> quiet p t \<and> vdisk_ready t)
    \<and> (\<exists>t. virtio_disk_rw b True s = Ok () t \<and> bufs t = (bufs s)(b := (bufs s b)\<lparr>b_disk := 0\<rparr>)
        \<and> dblock (medium t) bn = b_data (bufs s b)
        \<and> (\<forall>k. unat k < FSSIZE \<and> k \<noteq> bn \<longrightarrow> dblock (medium t) k = dblock (medium s) k) \<and> quiet p t \<and> vdisk_ready t)"
proof (intro conjI)
  from virtio_disk_rw_run [OF assms(1-4), where w = False] show "\<exists>t. virtio_disk_rw b False s = Ok () t
      \<and> bufs t = (bufs s)(b := (bufs s b)\<lparr>b_disk := 0, b_data := dblock (medium s) bn\<rparr>) \<and> medium t = medium s \<and> quiet p t \<and> vdisk_ready t"
    unfolding Let_def xfer_buf_def xfer_medium_def bn_def dblock_def by auto
  from virtio_disk_rw_run [OF assms(1-4), where w = True] obtain t where
    t: "virtio_disk_rw b True s = Ok () t" "bufs t = (bufs s)(b := (bufs s b)\<lparr>b_disk := 0\<rparr>)"
      "medium t = blk_write (medium s) (sector_of bn) (b_data (bufs s b))" "quiet p t" "vdisk_ready t"
    unfolding Let_def xfer_buf_def xfer_medium_def bn_def by auto
  have "dblock (medium t) bn = b_data (bufs s b)" using assms(5) unfolding t(3) by (rule dblock_write_same)
  moreover have "dblock (medium t) k = dblock (medium s) k" if "unat k < FSSIZE \<and> k \<noteq> bn" for k
    unfolding t(3) using that assms(3) by (intro dblock_write_other) (simp_all add: bn_def)
  ultimately show "\<exists>t. virtio_disk_rw b True s = Ok () t \<and> bufs t = (bufs s)(b := (bufs s b)\<lparr>b_disk := 0\<rparr>)
        \<and> dblock (medium t) bn = b_data (bufs s b)
        \<and> (\<forall>k. unat k < FSSIZE \<and> k \<noteq> bn \<longrightarrow> dblock (medium t) k = dblock (medium s) k) \<and> quiet p t \<and> vdisk_ready t"
    using t by blast
qed

theorem disk_transfer_witness:
  "\<exists>t. virtio_disk_rw 0 False demo_disk = Ok () t \<and> b_data (bufs t 0) = replicate 512 14 @ replicate 512 15"
proof -
  have "unat (b_blockno (bufs demo_disk 0)) < FSSIZE" "power demo_disk \<noteq> Some 0" "length (b_data (bufs demo_disk 0)) = BSIZE"
    by (simp_all add: demo_disk_sel demo_buf_def)
  from disk_transfer [OF demo_disk_ok this] show ?thesis
    by (auto simp: demo_disk_sel dblock_def blk_read_def sector_of_def demo_buf_def)
qed

text \<open>C24.  \<^verbatim>\<open>alloc3_desc\<close> takes three different free descriptors, or, when there are fewer, fails and gives back
  those it had taken, so that exactly the same descriptors are free as before.\<close>

theorem alloc3_all_or_nothing:
  assumes "intr_sane s" "others_unlocked s" "c_noff (mycpu s) \<noteq> 0"
  shows "(3 \<le> card (free_set s) \<longrightarrow> (\<exists>i j k t. alloc3_desc s = Ok (Some [i, j, k]) t \<and> distinct [i, j, k]
        \<and> {i, j, k} \<subseteq> free_set s \<and> free_set t = free_set s - {i, j, k}))
    \<and> (card (free_set s) < 3 \<longrightarrow> (\<exists>t. alloc3_desc s = Ok None t \<and> vfree t = vfree s))"
proof (intro conjI impI)
  assume "3 \<le> card (free_set s)"
  from alloc3_from_enough [OF this, of "[]"] obtain js where
    js: "alloc3_desc s = Ok (Some js) (s\<lparr>vfree := \<lambda>i. vfree s i \<and> i \<notin> set js\<rparr>)" "length js = 3" "distinct js" "set js \<subseteq> free_set s"
    by (auto simp: alloc3_desc_def)
  from js(2) obtain i j k where "js = [i, j, k]" by (auto simp: numeral_3_eq_3 length_Suc_conv)
  with js show "\<exists>i j k t. alloc3_desc s = Ok (Some [i, j, k]) t \<and> distinct [i, j, k] \<and> {i, j, k} \<subseteq> free_set s \<and> free_set t = free_set s - {i, j, k}"
    by (intro exI [of _ i] exI [of _ j] exI [of _ k] exI [of _ "s\<lparr>vfree := \<lambda>i. vfree s i \<and> i \<notin> set js\<rparr>"]) auto
next
  assume "card (free_set s) < 3"
  from alloc3_from_short [OF this assms, of "[]"] show "\<exists>t. alloc3_desc s = Ok None t \<and> vfree t = vfree s"
    by (simp add: alloc3_desc_def)
qed

theorem alloc3_all_or_nothing_witness:
  "(\<exists>i j k t. alloc3_desc (acquired L_vdisk demo_disk) = Ok (Some [i, j, k]) t \<and> distinct [i, j, k])
    \<and> (\<exists>t. alloc3_desc (acquired L_vdisk (demo_disk\<lparr>vfree := \<lambda>i. i = 2\<rparr>)) = Ok None t \<and> vfree t = (\<lambda>i. i = 2))"
proof -
  note Q = quietD [OF demo_disk_ok(1)]
  let ?s = "acquired L_vdisk demo_disk" and ?t = "acquired L_vdisk (demo_disk\<lparr>vfree := \<lambda>i. i = 2\<rparr>)"
  have s: "intr_sane ?s" "others_unlocked ?s" "c_noff (mycpu ?s) \<noteq> 0" "3 \<le> card (free_set ?s)"
    using Q by (simp_all add: demo_disk_sel)
  have t: "intr_sane ?t" "others_unlocked ?t" "c_noff (mycpu ?t) \<noteq> 0" using Q by simp_all
  have "free_set ?t = {2}" by auto
  then have "card (free_set ?t) < 3" by simp
  with alloc3_all_or_nothing [OF t] alloc3_all_or_nothing [OF s(1-3)] s(4) show ?thesis by (auto simp del: acquired_simps)
qed

end
