(* ===== verification/Xv6_Bio.thy ===== *)
theory Xv6_Bio
  imports Xv6_Disk
begin

text \<open>
  The buffer cache \<^verbatim>\<open>kernel/bio.c\<close>.  The buffers are kept in a doubly linked list in the order of their
  last use; \<open>bcache_head\<close> is the list head, and a pointer to a buffer is its index.  A walk over the list
  that has not come back to the head after as many steps as there are nodes is in a cycle and never
  does, so \<open>bget_find\<close> hangs there.  The lemmas relate the links to the list of the buffers in order of use,
  and give what a reader of the cache sees: the cached copy of a block, or else the block on the medium.
\<close>

section \<open>Operations\<close>

abbreviation bcache_head :: nat where
  "bcache_head \<equiv> NBUF"

definition binit_one :: "nat \<Rightarrow> ('r diskst_scheme, unit) kprog" where
  "binit_one b = block [
     (\<lambda>s. upd_buf b (b_next_update (\<lambda>_. b_next (bufs s bcache_head))) s),
     upd_buf b (b_prev_update (\<lambda>_. bcache_head)),
     initsleeplock (Sl_buf b) ''buffer'',
     (\<lambda>s. upd_buf (b_next (bufs s bcache_head)) (b_prev_update (\<lambda>_. b)) s),
     upd_buf bcache_head (b_next_update (\<lambda>_. b))]"

definition binit :: "('r diskst_scheme, unit) kprog" where
  "binit = block [
     initlock L_bcache ''bcache'',
     upd_buf bcache_head (b_prev_update (\<lambda>_. bcache_head)),
     upd_buf bcache_head (b_next_update (\<lambda>_. bcache_head)),
     forK binit_one [0..<NBUF]]"

fun bget_find :: "nat \<Rightarrow> (buf \<Rightarrow> bool) \<Rightarrow> (buf \<Rightarrow> nat) \<Rightarrow> nat \<Rightarrow> ('r diskst_scheme, nat option) kprog" where
  "bget_find 0 P dir b = (\<lambda>s. Hang)"
| "bget_find (Suc n) P dir b = (if b = bcache_head then ret None
     else ifS (\<lambda>s. P (bufs s b)) (ret (Some b)) (\<lambda>s. bget_find n P dir (dir (bufs s b)) s))"

definition bget :: "u32 \<Rightarrow> u32 \<Rightarrow> ('r diskst_scheme, nat) kprog" where
  "bget dev blockno = seqK [acquire L_bcache]
     (bind (\<lambda>s. bget_find (NBUF + 1) (\<lambda>b. b_dev b = dev \<and> b_blockno b = blockno) b_next (b_next (bufs s bcache_head)) s) (\<lambda>r. case r of
        Some b \<Rightarrow> seqK [
          upd_buf b (b_refcnt_update (\<lambda>n. n + 1)),
          release L_bcache,
          acquiresleep (Sl_buf b)] (ret b)
      | None \<Rightarrow> bind (\<lambda>s. bget_find (NBUF + 1) (\<lambda>b. b_refcnt b = 0) b_prev (b_prev (bufs s bcache_head)) s) (\<lambda>r. case r of
          Some b \<Rightarrow> seqK [
            upd_buf b (b_dev_update (\<lambda>_. dev)),
            upd_buf b (b_blockno_update (\<lambda>_. blockno)),
            upd_buf b (b_valid_update (\<lambda>_. 0)),
            upd_buf b (b_refcnt_update (\<lambda>_. 1)),
            release L_bcache,
            acquiresleep (Sl_buf b)] (ret b)
        | None \<Rightarrow> panicK ''bget: no buffers'')))"

definition bread :: "u32 \<Rightarrow> u32 \<Rightarrow> ('r diskst_scheme, nat) kprog" where
  "bread dev blockno = bind (bget dev blockno) (\<lambda>b. seqK [
     whenS (\<lambda>s. b_valid (bufs s b) = 0) (block [
       virtio_disk_rw b False,
       upd_buf b (b_valid_update (\<lambda>_. 1))])] (ret b))"

definition bwrite :: "nat \<Rightarrow> ('r diskst_scheme, unit) kprog" where
  "bwrite b = block [
     bind (holdingsleep (Sl_buf b)) (\<lambda>h. whenK (\<not> h) (panicK ''bwrite'')),
     virtio_disk_rw b True]"

text \<open>Unlinking a buffer and linking it behind the head.\<close>

definition brelse_move :: "nat \<Rightarrow> ('r diskst_scheme, unit) kprog" where
  "brelse_move b = block [
     (\<lambda>s. upd_buf (b_next (bufs s b)) (b_prev_update (\<lambda>_. b_prev (bufs s b))) s),
     (\<lambda>s. upd_buf (b_prev (bufs s b)) (b_next_update (\<lambda>_. b_next (bufs s b))) s),
     (\<lambda>s. upd_buf b (b_next_update (\<lambda>_. b_next (bufs s bcache_head))) s),
     upd_buf b (b_prev_update (\<lambda>_. bcache_head)),
     (\<lambda>s. upd_buf (b_next (bufs s bcache_head)) (b_prev_update (\<lambda>_. b)) s),
     upd_buf bcache_head (b_next_update (\<lambda>_. b))]"

definition brelse :: "nat \<Rightarrow> ('r diskst_scheme, unit) kprog" where
  "brelse b = block [
     bind (holdingsleep (Sl_buf b)) (\<lambda>h. whenK (\<not> h) (panicK ''brelse'')),
     releasesleep (Sl_buf b),
     acquire L_bcache,
     upd_buf b (b_refcnt_update (\<lambda>n. n - 1)),
     whenS (\<lambda>s. b_refcnt (bufs s b) = 0) (brelse_move b),
     release L_bcache]"

definition bpin :: "nat \<Rightarrow> ('r diskst_scheme, unit) kprog" where
  "bpin b = block [acquire L_bcache, upd_buf b (b_refcnt_update (\<lambda>n. n + 1)), release L_bcache]"

definition bunpin :: "nat \<Rightarrow> ('r diskst_scheme, unit) kprog" where
  "bunpin b = block [acquire L_bcache, upd_buf b (b_refcnt_update (\<lambda>n. n - 1)), release L_bcache]"

section \<open>The linked list\<close>

fun chain :: "(nat \<Rightarrow> buf) \<Rightarrow> nat list \<Rightarrow> bool" where
  "chain f (x # y # zs) \<longleftrightarrow> b_next (f x) = y \<and> b_prev (f y) = x \<and> chain f (y # zs)"
| "chain f _ \<longleftrightarrow> True"

text \<open>The buffers in order of use, the most recently used one first.\<close>

definition bring :: "(nat \<Rightarrow> buf) \<Rightarrow> nat list \<Rightarrow> bool" where
  "bring f bs \<longleftrightarrow> distinct bs \<and> set bs = {..<NBUF} \<and> chain f (bcache_head # bs @ [bcache_head])"

lemma chain_append: "chain f (xs @ y # zs) \<longleftrightarrow> chain f (xs @ [y]) \<and> chain f (y # zs)"
proof (induction xs)
  case (Cons x xs)
  then show ?case by (cases xs) simp_all
qed simp

lemma chain_cong:
  assumes "chain f xs" "\<And>x. x \<in> set (butlast xs) \<Longrightarrow> b_next (g x) = b_next (f x)" "\<And>x. x \<in> set (tl xs) \<Longrightarrow> b_prev (g x) = b_prev (f x)"
  shows "chain g xs"
  using assms by (induction f xs rule: chain.induct) auto

definition unlink :: "nat \<Rightarrow> (nat \<Rightarrow> buf) \<Rightarrow> nat \<Rightarrow> buf" where
  "unlink b f = (let f1 = f(b_next (f b) := (f (b_next (f b)))\<lparr>b_prev := b_prev (f b)\<rparr>)
     in f1(b_prev (f1 b) := (f1 (b_prev (f1 b)))\<lparr>b_next := b_next (f1 b)\<rparr>))"

definition link_front :: "nat \<Rightarrow> (nat \<Rightarrow> buf) \<Rightarrow> nat \<Rightarrow> buf" where
  "link_front b f = (let f1 = f(b := (f b)\<lparr>b_next := b_next (f bcache_head), b_prev := bcache_head\<rparr>);
     f2 = f1(b_next (f1 bcache_head) := (f1 (b_next (f1 bcache_head)))\<lparr>b_prev := b\<rparr>)
     in f2(bcache_head := (f2 bcache_head)\<lparr>b_next := b\<rparr>))"

lemma chain_unlink:
  assumes "chain f (h # us @ b # vs @ [h])" "distinct (us @ b # vs)" "h \<notin> set (us @ b # vs)"
  shows "chain (unlink b f) (h # us @ vs @ [h])"
proof -
  obtain A x where A: "h # us = A @ [x]" by (cases "h # us" rule: rev_cases) simp_all
  obtain y B where B: "vs @ [h] = y # B" by (cases "vs @ [h]") simp_all
  have eq: "h # us @ zs = A @ x # zs" for zs proof -
    have "A @ x # zs = (A @ [x]) @ zs" by simp
    then show ?thesis unfolding A [symmetric] by simp
  qed
  have "chain f (A @ x # b # y # B)" using assms(1) unfolding B eq .
  then have c: "chain f (A @ [x])" "b_next (f x) = b" "b_prev (f b) = x" "b_next (f b) = y" "b_prev (f y) = b" "chain f (y # B)"
    unfolding chain_append [of f A x "b # y # B"] by simp_all
  have dA: "distinct (A @ [x])" "set (A @ [x]) = insert h (set us)" "tl (A @ [x]) = us"
    using assms(2,3) unfolding A [symmetric] by simp_all
  have dB: "distinct (y # B)" "set (y # B) = insert h (set vs)" "butlast (y # B) = vs"
    using assms(2,3) unfolding B [symmetric] by simp_all
  have "x \<in> insert h (set us)" "y \<in> insert h (set vs)" using dA(2) dB(2) by auto
  then have xb: "x \<noteq> b" "y \<noteq> b" and y: "y \<notin> set us" and x: "x \<notin> set vs" using assms(2,3) by auto
  let ?f = "unlink b f"
  have f: "?f = (f(y := (f y)\<lparr>b_prev := x\<rparr>))(x := ((f(y := (f y)\<lparr>b_prev := x\<rparr>)) x)\<lparr>b_next := y\<rparr>)"
    using c xb by (simp add: unlink_def)
  have yx: "b_next (?f x) = y" "b_prev (?f y) = x" unfolding f by simp_all
  have same: "z \<noteq> x \<Longrightarrow> b_next (?f z) = b_next (f z)" "z \<noteq> y \<Longrightarrow> b_prev (?f z) = b_prev (f z)" for z
    unfolding f by simp_all
  have "x \<notin> set (butlast (A @ [x]))" using dA(1) by simp
  with y dA(3) have 1: "chain ?f (A @ [x])"
    by (intro chain_cong [OF c(1)] same) metis+
  have "y \<notin> set (tl (y # B))" using dB(1) by simp
  with x dB(3) have 2: "chain ?f (y # B)"
    by (intro chain_cong [OF c(6)] same) metis+
  have "chain ?f (A @ x # y # B)" using 1 2 yx unfolding chain_append [of ?f A x "y # B"] by simp
  then show ?thesis unfolding B eq .
qed

lemma chain_link_front:
  assumes "chain f (bcache_head # ws @ [bcache_head])" "distinct ws" "bcache_head \<notin> set ws" "b \<notin> set ws" "b \<noteq> bcache_head"
  shows "chain (link_front b f) (bcache_head # b # ws @ [bcache_head])"
proof -
  obtain y B where B: "ws @ [bcache_head] = y # B" by (cases "ws @ [bcache_head]") simp_all
  have dB: "distinct (y # B)" "set (y # B) = insert bcache_head (set ws)" "butlast (y # B) = ws"
    using assms(2,3) unfolding B [symmetric] by (simp_all del: NBUF_def)
  have y: "b_next (f bcache_head) = y" and c: "chain f (y # B)" using assms(1) unfolding B by simp_all
  have "y \<in> insert bcache_head (set ws)" using dB(2) by auto
  then have yb: "y \<noteq> b" using assms(4,5) by auto
  let ?f = "link_front b f"
  have f: "b_next (?f bcache_head) = b" "b_prev (?f b) = bcache_head" "b_next (?f b) = y" "b_prev (?f y) = b"
    "\<And>x. x \<noteq> b \<Longrightarrow> x \<noteq> bcache_head \<Longrightarrow> b_next (?f x) = b_next (f x)" "\<And>x. x \<noteq> b \<Longrightarrow> x \<noteq> y \<Longrightarrow> b_prev (?f x) = b_prev (f x)"
    using y yb assms(5) by (auto simp: link_front_def Let_def simp del: NBUF_def)
  have "chain ?f (y # B)"
  proof (rule chain_cong [OF c])
    fix x
    assume "x \<in> set (butlast (y # B))"
    then have "x \<in> set ws" by (simp only: dB(3))
    then show "b_next (?f x) = b_next (f x)" using assms(3,4) by (intro f(5)) metis+
  next
    fix x
    assume x: "x \<in> set (tl (y # B))"
    then have "x \<in> set (y # B)" "x \<noteq> y" using dB(1) by auto
    then have "x \<noteq> b" unfolding dB(2) using assms(4,5) by blast
    with \<open>x \<noteq> y\<close> show "b_prev (?f x) = b_prev (f x)" by (intro f(6))
  qed
  then show ?thesis unfolding B using f(1-4) by simp
qed

lemma links_frame:
  "(unlink b f i)\<lparr>b_prev := x, b_next := y\<rparr> = (f i)\<lparr>b_prev := x, b_next := y\<rparr>"
  "(link_front b f i)\<lparr>b_prev := x, b_next := y\<rparr> = (f i)\<lparr>b_prev := x, b_next := y\<rparr>"
  by (simp_all add: unlink_def link_front_def Let_def)

lemma bring_move:
  assumes "bring f bs" "b < NBUF"
  shows "bring (link_front b (unlink b f)) (b # remove1 b bs)"
proof -
  from assms have m: "b \<in> set bs" by (auto simp: bring_def)
  then obtain us vs where bs: "bs = us @ b # vs" "b \<notin> set us" by (meson split_list_first)
  then have r: "remove1 b bs = us @ vs" by (simp add: remove1_append)
  have h: "bcache_head \<notin> set bs" using assms(1) by (auto simp: bring_def)
  have d: "distinct bs" using assms(1) by (simp add: bring_def)
  have "chain (unlink b f) (bcache_head # us @ vs @ [bcache_head])"
    using assms(1) d h by (intro chain_unlink) (simp_all add: bring_def bs)
  then have "chain (link_front b (unlink b f)) (bcache_head # b # (us @ vs) @ [bcache_head])"
    using d h assms(2) by (intro chain_link_front) (simp_all add: bs)
  moreover have "insert b (set us \<union> set vs) = {..<NBUF}" using assms(1) by (auto simp: bring_def bs(1))
  ultimately show ?thesis using d unfolding bring_def r by (simp add: bs(1))
qed

lemma brelse_move_run: "b < NBUF \<Longrightarrow> brelse_move b s = Ok () (s\<lparr>bufs := link_front b (unlink b (bufs s))\<rparr>)"
  by (simp add: brelse_move_def run_simps link_front_def unlink_def Let_def)

lemma bget_find_next:
  assumes "chain (bufs s) (xs @ [bcache_head])" "bcache_head \<notin> set xs" "length xs < n"
  shows "bget_find n P b_next (hd (xs @ [bcache_head])) s = Ok (find (\<lambda>i. P (bufs s i)) xs) s"
  using assms
proof (induction xs arbitrary: n)
  case Nil
  then show ?case by (cases n) (simp_all add: run_simps)
next
  case (Cons x xs)
  then obtain m where n: "n = Suc m" "length xs < m" by (cases n) auto
  have c: "chain (bufs s) (xs @ [bcache_head])" "b_next (bufs s x) = hd (xs @ [bcache_head])"
    using Cons.prems(1) by (cases xs; simp)+
  have "bget_find m P b_next (hd (xs @ [bcache_head])) s = Ok (find (\<lambda>i. P (bufs s i)) xs) s"
    using Cons.IH [OF c(1) _ n(2)] Cons.prems(2) by simp
  then show ?case using Cons.prems(2) c(2) by (auto simp: n(1) run_simps simp del: NBUF_def)
qed

lemma bget_find_step:
  "b \<noteq> bcache_head \<Longrightarrow> bget_find (Suc n) P dir b s = (if P (bufs s b) then Ok (Some b) s else bget_find n P dir (dir (bufs s b)) s)"
  "bget_find (Suc n) P dir bcache_head s = Ok None s"
  by (simp_all add: run_simps del: NBUF_def)

lemma bget_find_prev:
  assumes "chain (bufs s) (bcache_head # xs)" "bcache_head \<notin> set xs" "length xs < n"
  shows "bget_find n P b_prev (last (bcache_head # xs)) s = Ok (find (\<lambda>i. P (bufs s i)) (rev xs)) s"
  using assms
proof (induction xs arbitrary: n rule: rev_induct)
  case Nil
  from Nil(3) obtain m where "n = Suc m" by (cases n) simp_all
  then show ?case by (simp add: bget_find_step del: bget_find.simps NBUF_def)
next
  case (snoc x xs)
  from snoc.prems(3) obtain m where n: "n = Suc m" "length xs < m" by (cases n) simp_all
  define A where "A = butlast (bcache_head # xs)"
  define z where "z = last (bcache_head # xs)"
  have A: "bcache_head # xs = A @ [z]" unfolding A_def z_def by (rule append_butlast_last_id [symmetric]) (rule list.distinct)
  have "(bcache_head # xs) @ [x] = A @ z # [x]" unfolding A append_assoc append_Cons append_Nil ..
  then have "chain (bufs s) (A @ z # [x])" using snoc.prems(1) by (simp only: append_Cons)
  then have c: "chain (bufs s) (bcache_head # xs)" "b_prev (bufs s x) = last (bcache_head # xs)"
    unfolding A chain_append [of "bufs s" A z "[x]"] by (simp_all only: chain.simps last_snoc)
  have x: "x \<noteq> bcache_head" "bcache_head \<notin> set xs" using snoc.prems(2) by auto
  have IH: "bget_find m P b_prev (last (bcache_head # xs)) s = Ok (find (\<lambda>i. P (bufs s i)) (rev xs)) s"
    using snoc.IH [OF c(1) x(2) n(2)] .
  have l: "last (bcache_head # xs @ [x]) = x" by simp
  show ?case unfolding l n(1) bget_find_step(1) [OF x(1)] c(2) IH by simp
qed

section \<open>What the cache holds\<close>

text \<open>The buffer of a block of the root device, and what a reader of the block sees.\<close>

definition bidx :: "(nat \<Rightarrow> buf) \<Rightarrow> u32 \<Rightarrow> nat option" where
  "bidx B bn = find (\<lambda>i. b_dev (B i) = ROOTDEV \<and> b_blockno (B i) = bn) [0..<NBUF]"

definition bdisk :: "medium \<Rightarrow> u32 \<Rightarrow> u8 list" where
  "bdisk m bn = (if unat bn < FSSIZE then dblock m bn else [])"

definition bview :: "'r diskst_scheme \<Rightarrow> u32 \<Rightarrow> u8 list" where
  "bview s bn = (case bidx (bufs s) bn of
     Some i \<Rightarrow> if b_valid (bufs s i) \<noteq> 0 then b_data (bufs s i) else bdisk (medium s) bn
   | None \<Rightarrow> bdisk (medium s) bn)"

definition brefs :: "'r diskst_scheme \<Rightarrow> u32 \<Rightarrow> nat" where
  "brefs s bn = (case bidx (bufs s) bn of Some i \<Rightarrow> unat (b_refcnt (bufs s i)) | None \<Rightarrow> 0)"

definition blocked :: "'r diskst_scheme \<Rightarrow> u32 \<Rightarrow> bool" where
  "blocked s bn = (case bidx (bufs s) bn of Some i \<Rightarrow> sl_locked (slocks s (Sl_buf i)) \<noteq> 0 | None \<Rightarrow> False)"

text \<open>The invariant of the cache.  No block has two buffers, and a buffer that nobody refers to is not
  locked and, if it holds data, holds what is on the medium.\<close>

definition bufs_ok :: "(nat \<Rightarrow> buf) \<Rightarrow> (sleeplk \<Rightarrow> sleeplock) \<Rightarrow> medium \<Rightarrow> bool" where
  "bufs_ok B L m \<longleftrightarrow> (\<exists>bs. bring B bs)
     \<and> (\<forall>i<NBUF. \<forall>j<NBUF. b_dev (B i) = ROOTDEV \<and> b_dev (B j) = ROOTDEV \<and> b_blockno (B i) = b_blockno (B j) \<longrightarrow> i = j)
     \<and> (\<forall>i<NBUF. b_dev (B i) \<in> {0, ROOTDEV}
         \<and> (b_dev (B i) = 0 \<longrightarrow> b_refcnt (B i) = 0 \<and> b_valid (B i) = 0)
         \<and> (b_dev (B i) = ROOTDEV \<longrightarrow> unat (b_blockno (B i)) < FSSIZE)
         \<and> (b_valid (B i) \<noteq> 0 \<longrightarrow> length (b_data (B i)) = BSIZE)
         \<and> (b_refcnt (B i) = 0 \<longrightarrow> sl_locked (L (Sl_buf i)) = 0 \<and> (b_valid (B i) \<noteq> 0 \<longrightarrow> b_data (B i) = dblock m (b_blockno (B i)))))
     \<and> (\<forall>bn. unat bn < FSSIZE \<longrightarrow> length (dblock m bn) = BSIZE)"

definition binv :: "nat \<Rightarrow> 'r diskst_scheme \<Rightarrow> bool" where
  "binv p s \<longleftrightarrow> quiet p s \<and> vdisk_ready s \<and> bufs_ok (bufs s) (slocks s) (medium s)"

text \<open>What the operations of the cache leave as it is.\<close>

definition bframe :: "nat \<Rightarrow> 'r diskst_scheme \<Rightarrow> 'r diskst_scheme \<Rightarrow> bool" where
  "bframe p s t \<longleftrightarrow> (power s = None \<longrightarrow> power t = None) \<and> diskst.more t = diskst.more s \<and> mem t = mem s \<and> freelist t = freelist s \<and> kend t = kend s
     \<and> procs t p = procs s p \<and> initproc t = initproc s \<and> (\<forall>i. slocks t (Sl_inode i) = slocks s (Sl_inode i))"

lemma bframe_refl [simp]: "bframe p s s"
  by (simp add: bframe_def)

lemma bframe_trans: "bframe p s t \<Longrightarrow> bframe p t u \<Longrightarrow> bframe p s u"
  by (simp add: bframe_def)

lemma bidx_Some_iff:
  assumes "\<forall>i<NBUF. \<forall>j<NBUF. b_dev (B i) = ROOTDEV \<and> b_dev (B j) = ROOTDEV \<and> b_blockno (B i) = b_blockno (B j) \<longrightarrow> i = j"
  shows "bidx B bn = Some i \<longleftrightarrow> i < NBUF \<and> b_dev (B i) = ROOTDEV \<and> b_blockno (B i) = bn"
proof
  assume "bidx B bn = Some i"
  then show "i < NBUF \<and> b_dev (B i) = ROOTDEV \<and> b_blockno (B i) = bn" unfolding bidx_def find_Some_iff by auto
next
  assume i: "i < NBUF \<and> b_dev (B i) = ROOTDEV \<and> b_blockno (B i) = bn"
  then have "\<forall>j<i. \<not> (b_dev (B j) = ROOTDEV \<and> b_blockno (B j) = bn)"
  proof (intro allI impI notI)
    fix j
    assume j: "j < i" "b_dev (B j) = ROOTDEV \<and> b_blockno (B j) = bn"
    then have "j = i" using i by (intro assms [rule_format]) simp_all
    with j show False by simp
  qed
  with i show "bidx B bn = Some i" unfolding bidx_def find_Some_iff by auto
qed

lemma bidx_None_iff: "bidx B bn = None \<longleftrightarrow> (\<forall>i<NBUF. \<not> (b_dev (B i) = ROOTDEV \<and> b_blockno (B i) = bn))"
  unfolding bidx_def find_None_iff by auto

lemma find_unique: "x \<in> set xs \<Longrightarrow> P x \<Longrightarrow> (\<And>y. y \<in> set xs \<Longrightarrow> P y \<Longrightarrow> y = x) \<Longrightarrow> find P xs = Some x"
proof (induction xs)
  case (Cons a xs)
  show ?case
  proof (cases "P a")
    case True
    then have "a = x" by (intro Cons.prems(3)) simp_all
    with True show ?thesis by simp
  next
    case False
    with Cons.prems(1,2) have "x \<in> set xs" by auto
    then have "find P xs = Some x" by (rule Cons.IH [OF _ Cons.prems(2)]) (rule Cons.prems(3); simp)
    with False show ?thesis by simp
  qed
qed simp

lemma find_bring:
  assumes "bring B bs" "\<forall>i<NBUF. \<forall>j<NBUF. b_dev (B i) = ROOTDEV \<and> b_dev (B j) = ROOTDEV \<and> b_blockno (B i) = b_blockno (B j) \<longrightarrow> i = j"
  shows "find (\<lambda>i. b_dev (B i) = ROOTDEV \<and> b_blockno (B i) = bn) bs = bidx B bn"
proof (cases "bidx B bn")
  case None
  then have "\<forall>i<NBUF. \<not> (b_dev (B i) = ROOTDEV \<and> b_blockno (B i) = bn)" unfolding bidx_None_iff .
  then show ?thesis using assms(1) unfolding None find_None_iff bring_def by auto
next
  case (Some i)
  then have "i < NBUF" "b_dev (B i) = ROOTDEV" "b_blockno (B i) = bn" unfolding bidx_Some_iff [OF assms(2)] by simp_all
  then show ?thesis unfolding Some using assms by (intro find_unique) (auto simp: bring_def)
qed

lemma bring_cong:
  assumes "bring B bs" "\<And>i. b_next (B' i) = b_next (B i)" "\<And>i. b_prev (B' i) = b_prev (B i)"
  shows "bring B' bs"
  using assms chain_cong [of B "bcache_head # bs @ [bcache_head]" B'] by (simp add: bring_def)

lemma bget_find_bring:
  assumes "bring (bufs s) bs"
  shows "bget_find (NBUF + 1) P b_next (b_next (bufs s bcache_head)) s = Ok (find (\<lambda>i. P (bufs s i)) bs) s"
    "bget_find (NBUF + 1) P b_prev (b_prev (bufs s bcache_head)) s = Ok (find (\<lambda>i. P (bufs s i)) (rev bs)) s"
proof -
  have d: "distinct bs" "set bs = {..<NBUF}" and c: "chain (bufs s) (bcache_head # bs @ [bcache_head])"
    using assms by (simp_all add: bring_def)
  then have len: "length bs = NBUF" by (metis card_lessThan distinct_card)
  have h: "bcache_head \<notin> set bs" using d(2) by simp
  have c1: "chain (bufs s) (bs @ [bcache_head])" "b_next (bufs s bcache_head) = hd (bs @ [bcache_head])"
    using c by (cases bs; simp)+
  define A where "A = butlast (bcache_head # bs)"
  define z where "z = last (bcache_head # bs)"
  have A: "bcache_head # bs = A @ [z]" unfolding A_def z_def by (rule append_butlast_last_id [symmetric]) (rule list.distinct)
  have "bcache_head # bs @ [bcache_head] = A @ z # [bcache_head]" using A by (metis append_Cons append_Nil append_assoc)
  then have "chain (bufs s) (A @ z # [bcache_head])" using c by (simp only:)
  then have c2: "chain (bufs s) (bcache_head # bs)" "b_prev (bufs s bcache_head) = last (bcache_head # bs)"
    unfolding A chain_append [of "bufs s" A z "[bcache_head]"] by (simp_all only: chain.simps last_snoc)
  show "bget_find (NBUF + 1) P b_next (b_next (bufs s bcache_head)) s = Ok (find (\<lambda>i. P (bufs s i)) bs) s"
    unfolding c1(2) by (rule bget_find_next [OF c1(1) h]) (simp add: len)
  show "bget_find (NBUF + 1) P b_prev (b_prev (bufs s bcache_head)) s = Ok (find (\<lambda>i. P (bufs s i)) (rev bs)) s"
    unfolding c2(2) by (rule bget_find_prev [OF c2(1) h]) (simp add: len)
qed

definition buniq :: "(nat \<Rightarrow> buf) \<Rightarrow> bool" where
  "buniq B \<longleftrightarrow> (\<forall>i<NBUF. \<forall>j<NBUF. b_dev (B i) = ROOTDEV \<and> b_dev (B j) = ROOTDEV \<and> b_blockno (B i) = b_blockno (B j) \<longrightarrow> i = j)"

definition buf_ok :: "sleeplock \<Rightarrow> medium \<Rightarrow> buf \<Rightarrow> bool" where
  "buf_ok l m b \<longleftrightarrow> b_dev b \<in> {0, ROOTDEV} \<and> (b_dev b = 0 \<longrightarrow> b_refcnt b = 0 \<and> b_valid b = 0) \<and> (b_dev b = ROOTDEV \<longrightarrow> unat (b_blockno b) < FSSIZE)
     \<and> (b_valid b \<noteq> 0 \<longrightarrow> length (b_data b) = BSIZE)
     \<and> (b_refcnt b = 0 \<longrightarrow> sl_locked l = 0 \<and> (b_valid b \<noteq> 0 \<longrightarrow> b_data b = dblock m (b_blockno b)))"

lemma bufs_ok_parts:
  "bufs_ok B L m \<longleftrightarrow> (\<exists>bs. bring B bs) \<and> buniq B \<and> (\<forall>i<NBUF. buf_ok (L (Sl_buf i)) m (B i)) \<and> (\<forall>bn. unat bn < FSSIZE \<longrightarrow> length (dblock m bn) = BSIZE)"
  by (simp only: bufs_ok_def buniq_def buf_ok_def)

lemmas bidx_Some = bidx_Some_iff [folded buniq_def]

lemma bidx_upd_same:
  "b_dev X = b_dev (B i) \<Longrightarrow> b_blockno X = b_blockno (B i) \<Longrightarrow> bidx (B(i := X)) = bidx B"
  unfolding bidx_def fun_eq_iff by (intro allI find_cong) auto

lemma buniq_upd_same: "b_dev X = b_dev (B i) \<Longrightarrow> b_blockno X = b_blockno (B i) \<Longrightarrow> buniq B \<Longrightarrow> buniq (B(i := X))"
proof -
  assume X: "b_dev X = b_dev (B i)" "b_blockno X = b_blockno (B i)" and B: "buniq B"
  then have "b_dev ((B(i := X)) j) = b_dev (B j)" "b_blockno ((B(i := X)) j) = b_blockno (B j)" for j by simp_all
  with B show "buniq (B(i := X))" by (simp only: buniq_def)
qed

lemma buniq_upd_new:
  assumes "buniq B" "bidx B bn = None" "b_blockno X = bn"
  shows "buniq (B(i := X))"
  unfolding buniq_def
proof (intro allI impI, elim conjE)
  fix j k
  assume jk: "j < NBUF" "k < NBUF" "b_dev ((B(i := X)) j) = ROOTDEV" "b_dev ((B(i := X)) k) = ROOTDEV"
    "b_blockno ((B(i := X)) j) = b_blockno ((B(i := X)) k)"
  have no: "l < NBUF \<Longrightarrow> b_dev (B l) = ROOTDEV \<Longrightarrow> b_blockno (B l) \<noteq> bn" for l using assms(2) unfolding bidx_None_iff by blast
  show "j = k"
  proof (cases "j = i"; cases "k = i")
    assume "j \<noteq> i" "k \<noteq> i"
    with jk show ?thesis using assms(1) unfolding buniq_def by (simp del: NBUF_def ROOTDEV_def)
  qed (use jk no assms(3) in \<open>auto simp del: NBUF_def ROOTDEV_def\<close>)
qed

lemma bidx_upd_new:
  assumes "buniq B" "bidx B bn = None" "b_dev X = ROOTDEV" "b_blockno X = bn" "i < NBUF"
  shows "bidx (B(i := X)) k = (if k = bn then Some i else if bidx B k = Some i then None else bidx B k)"
proof -
  let ?B = "B(i := X)"
  note u = buniq_upd_new [OF assms(1,2,4), of i]
  consider "k = bn" | "k \<noteq> bn" "bidx B k = Some i" | "k \<noteq> bn" "bidx B k = None" | j where "k \<noteq> bn" "bidx B k = Some j" "j \<noteq> i"
    by (cases "bidx B k") auto
  then show ?thesis
  proof cases
    case 1
    moreover have "bidx ?B bn = Some i" unfolding bidx_Some [OF u] using assms(3-5) by simp
    ultimately show ?thesis by simp
  next
    case 2
    then have "i < NBUF" "b_dev (B i) = ROOTDEV" "b_blockno (B i) = k" unfolding bidx_Some [OF assms(1)] by simp_all
    have "bidx ?B k = None" unfolding bidx_None_iff
    proof (intro allI impI notI)
      fix j
      assume j: "j < NBUF" "b_dev (?B j) = ROOTDEV \<and> b_blockno (?B j) = k"
      then have "j \<noteq> i" using 2 assms(4) by auto
      with j have "bidx B k = Some j" unfolding bidx_Some [OF assms(1)] by simp
      with 2 \<open>j \<noteq> i\<close> show False by simp
    qed
    with 2 show ?thesis by simp
  next
    case 3
    then have "bidx ?B k = None" using assms(4) unfolding bidx_None_iff by auto
    with 3 show ?thesis by simp
  next
    case 4
    then have "j < NBUF" "b_dev (B j) = ROOTDEV" "b_blockno (B j) = k" unfolding bidx_Some [OF assms(1)] by simp_all
    with 4 have "bidx ?B k = Some j" unfolding bidx_Some [OF u] by simp
    with 4 show ?thesis by simp
  qed
qed

lemma bufs_ok_upd:
  assumes "bufs_ok B L m" "buniq (B(i := X))" "buf_ok (L' (Sl_buf i)) m X" "b_next X = b_next (B i)" "b_prev X = b_prev (B i)"
    and "\<And>j. j \<noteq> i \<Longrightarrow> L' (Sl_buf j) = L (Sl_buf j)"
  shows "bufs_ok (B(i := X)) L' m"
proof -
  from assms(1) obtain bs where "bring B bs" by (auto simp: bufs_ok_parts)
  then have "bring (B(i := X)) bs" by (rule bring_cong) (auto simp: assms(4,5))
  with assms show ?thesis unfolding bufs_ok_parts by (auto simp del: NBUF_def)
qed

lemma find_SomeD: "find P xs = Some x \<Longrightarrow> x \<in> set xs \<and> P x"
  by (induction xs) (auto split: if_splits)

section \<open>Getting a buffer\<close>

definition bheld :: "nat \<Rightarrow> 'r diskst_scheme \<Rightarrow> nat \<Rightarrow> bool" where
  "bheld p s b \<longleftrightarrow> sl_locked (slocks s (Sl_buf b)) \<noteq> 0 \<and> sl_pid (slocks s (Sl_buf b)) = p_pid (procs s p)"

lemma bidx_inj: "buniq B \<Longrightarrow> bidx B k = Some i \<Longrightarrow> bidx B k' = Some i \<Longrightarrow> k = k'"
  by (auto simp: bidx_Some)

text \<open>Process \<open>p\<close> holds buffer \<open>i\<close>, the valid buffer of block \<open>bn\<close>.\<close>

definition bowned :: "nat \<Rightarrow> 'r diskst_scheme \<Rightarrow> u32 \<Rightarrow> nat \<Rightarrow> bool" where
  "bowned p s bn i \<longleftrightarrow> binv p s \<and> bidx (bufs s) bn = Some i \<and> b_valid (bufs s i) \<noteq> 0 \<and> bheld p s i \<and> i < NBUF \<and> unat bn < FSSIZE"

lemma bownedD:
  assumes "bowned p s bn i"
  shows "quiet p s" "vdisk_ready s" "bufs_ok (bufs s) (slocks s) (medium s)" "buniq (bufs s)" "bidx (bufs s) bn = Some i"
    "i < NBUF" "b_dev (bufs s i) = ROOTDEV" "b_blockno (bufs s i) = bn" "b_valid (bufs s i) \<noteq> 0"
    "buf_ok (slocks s (Sl_buf i)) (medium s) (bufs s i)" "bview s bn = b_data (bufs s i)" "brefs s bn = unat (b_refcnt (bufs s i))"
    "b_refcnt (bufs s i) \<noteq> 0" "sl_locked (slocks s (Sl_buf i)) \<noteq> 0" "blocked s bn"
proof -
  show *: "quiet p s" "vdisk_ready s" "bufs_ok (bufs s) (slocks s) (medium s)" "bidx (bufs s) bn = Some i" "i < NBUF" "b_valid (bufs s i) \<noteq> 0"
    "sl_locked (slocks s (Sl_buf i)) \<noteq> 0"
    using assms by (simp_all add: bowned_def binv_def bheld_def)
  then show u: "buniq (bufs s)" and o: "buf_ok (slocks s (Sl_buf i)) (medium s) (bufs s i)" by (auto simp: bufs_ok_parts)
  show "b_dev (bufs s i) = ROOTDEV" "b_blockno (bufs s i) = bn" using *(4) unfolding bidx_Some [OF u] by simp_all
  show "bview s bn = b_data (bufs s i)" "brefs s bn = unat (b_refcnt (bufs s i))" "blocked s bn"
    using * by (simp_all add: bview_def brefs_def blocked_def)
  show "b_refcnt (bufs s i) \<noteq> 0" using o *(7) by (auto simp: buf_ok_def)
qed

text \<open>A process keeps the buffers of the other blocks that it holds.\<close>

definition bkeep :: "nat \<Rightarrow> 'r diskst_scheme \<Rightarrow> u32 \<Rightarrow> 'r diskst_scheme \<Rightarrow> bool" where
  "bkeep p s bn t \<longleftrightarrow> (\<forall>k j. k \<noteq> bn \<and> bowned p s k j \<longrightarrow> bidx (bufs t) k = Some j \<and> b_valid (bufs t j) \<noteq> 0 \<and> bheld p t j)"

lemma bkeepD: "bkeep p s bn t \<Longrightarrow> binv p t \<Longrightarrow> bowned p s k j \<Longrightarrow> k \<noteq> bn \<Longrightarrow> bowned p t k j"
  unfolding bkeep_def bowned_def by blast

lemma bkeepI:
  assumes "procs t p = procs s p"
    and "\<And>k j. k \<noteq> bn \<Longrightarrow> bowned p s k j \<Longrightarrow> bidx (bufs t) k = Some j \<and> b_valid (bufs t j) = b_valid (bufs s j) \<and> slocks t (Sl_buf j) = slocks s (Sl_buf j)"
  shows "bkeep p s bn t"
  unfolding bkeep_def
proof (intro allI impI)
  fix k j
  assume kj: "k \<noteq> bn \<and> bowned p s k j"
  then have "b_valid (bufs s j) \<noteq> 0" "bheld p s j" by (simp_all add: bowned_def)
  with assms(2) [of k j] kj assms(1) show "bidx (bufs t) k = Some j \<and> b_valid (bufs t j) \<noteq> 0 \<and> bheld p t j"
    unfolding bheld_def by metis
qed

lemma bkeep_trans: "bkeep p s bn t \<Longrightarrow> binv p t \<Longrightarrow> bkeep p t bn u \<Longrightarrow> bkeep p s bn u"
  unfolding bkeep_def bowned_def by blast

text \<open>An operation that works on the buffer of one block.\<close>

lemma bkeep_one:
  assumes "buniq (bufs s)" "bidx (bufs s) bn = Some i" "bidx (bufs t) = bidx (bufs s)" "procs t p = procs s p"
    and "\<And>j. j \<noteq> i \<Longrightarrow> b_valid (bufs t j) = b_valid (bufs s j) \<and> slocks t (Sl_buf j) = slocks s (Sl_buf j)"
  shows "bkeep p s bn t"
proof (rule bkeepI [OF assms(4)])
  fix k j
  assume k: "k \<noteq> bn" and own: "bowned p s k j"
  then have ix: "bidx (bufs s) k = Some j" by (simp add: bowned_def)
  have "j \<noteq> i"
  proof
    assume "j = i"
    with ix bidx_inj [OF assms(1) _ assms(2)] k show False by blast
  qed
  with ix assms(3,5) show "bidx (bufs t) k = Some j \<and> b_valid (bufs t j) = b_valid (bufs s j) \<and> slocks t (Sl_buf j) = slocks s (Sl_buf j)" by simp
qed

lemma quiet_bufs [simp]: "quiet p (bufs_update f s) = quiet p s" "quiet p (medium_update g s) = quiet p s"
  "quiet p (vq_update h s) = quiet p s" "quiet p (power_update k s) = quiet p s"
  by (simp_all add: quiet_def)

lemma vdisk_ready_frame [simp]:
  "vdisk_ready (cycled s) = vdisk_ready s" "vdisk_ready (slocks_update f s) = vdisk_ready s" "vdisk_ready (bufs_update g s) = vdisk_ready s"
  "vdisk_ready (procs_update h s) = vdisk_ready s"
  by (simp_all add: vdisk_ready_def)

abbreviation locked_by :: "nat \<Rightarrow> 'r slst_scheme \<Rightarrow> nat \<Rightarrow> sleeplk \<Rightarrow> sleeplock" where
  "locked_by p s i \<equiv> (slocks s)(Sl_buf i := (slocks s (Sl_buf i))\<lparr>sl_locked := 1, sl_pid := p_pid (procs s p)\<rparr>)"

lemma bget_hit:
  assumes "quiet p s" "bring (bufs s) bs" "buniq (bufs s)" "bidx (bufs s) bn = Some i" "sl_locked (slocks s (Sl_buf i)) = 0"
  shows "bget ROOTDEV bn s = Ok i ((cycled s)\<lparr>bufs := (bufs s)(i := b_refcnt_update (\<lambda>n. n + 1) (bufs s i)), slocks := locked_by p s i\<rparr>)"
proof -
  note Q = quietD [OF assms(1)]
  have f: "find (\<lambda>i. b_dev (bufs s i) = ROOTDEV \<and> b_blockno (bufs s i) = bn) bs = Some i"
    using find_bring [OF assms(2,3) [unfolded buniq_def]] assms(4) by simp
  have g: "bget_find (NBUF + 1) P b_next (b_next (bufs s bcache_head)) (acquired L_bcache s) = Ok (find (\<lambda>i. P (bufs s i)) bs) (acquired L_bcache s)" for P
    using bget_find_bring(1) [of "acquired L_bcache s" bs P] assms(2) by simp
  let ?t = "(cycled s)\<lparr>bufs := (bufs s)(i := b_refcnt_update (\<lambda>n. n + 1) (bufs s i))\<rparr>"
  have "quiet p ?t" using assms(1) by simp
  from acquiresleep_free [OF this, of "Sl_buf i"] assms(5)
  have a: "acquiresleep (Sl_buf i) ?t = Ok () (?t\<lparr>slocks := locked_by p s i\<rparr>)" by simp
  show ?thesis
    unfolding bget_def using Q g f a by (simp add: run_simps del: NBUF_def bget_find.simps ROOTDEV_def)
qed

lemma bget_miss:
  assumes "quiet p s" "bring (bufs s) bs" "buniq (bufs s)" "bidx (bufs s) bn = None" "\<exists>j<NBUF. b_refcnt (bufs s j) = 0"
    and "\<And>j. j < NBUF \<Longrightarrow> b_refcnt (bufs s j) = 0 \<Longrightarrow> sl_locked (slocks s (Sl_buf j)) = 0"
  shows "\<exists>i<NBUF. find (\<lambda>j. b_refcnt (bufs s j) = 0) (rev bs) = Some i \<and> b_refcnt (bufs s i) = 0 \<and> bget ROOTDEV bn s = Ok i ((cycled s)\<lparr>
    bufs := (bufs s)(i := (bufs s i)\<lparr>b_dev := ROOTDEV, b_blockno := bn, b_valid := 0, b_refcnt := 1\<rparr>), slocks := locked_by p s i\<rparr>)"
proof -
  note Q = quietD [OF assms(1)]
  have f: "find (\<lambda>i. b_dev (bufs s i) = ROOTDEV \<and> b_blockno (bufs s i) = bn) bs = None"
    using find_bring [OF assms(2,3) [unfolded buniq_def]] assms(4) by simp
  have "find (\<lambda>j. b_refcnt (bufs s j) = 0) (rev bs) \<noteq> None"
    using assms(2,5) unfolding find_None_iff by (auto simp: bring_def)
  then obtain i where i: "find (\<lambda>j. b_refcnt (bufs s j) = 0) (rev bs) = Some i" by blast
  then have "i \<in> set (rev bs)" and r: "b_refcnt (bufs s i) = 0" by (auto dest: find_SomeD)
  then have n: "i < NBUF" using assms(2) by (simp add: bring_def)
  have g: "bget_find (NBUF + 1) P b_next (b_next (bufs s bcache_head)) (acquired L_bcache s) = Ok (find (\<lambda>i. P (bufs s i)) bs) (acquired L_bcache s)"
    "bget_find (NBUF + 1) P b_prev (b_prev (bufs s bcache_head)) (acquired L_bcache s) = Ok (find (\<lambda>i. P (bufs s i)) (rev bs)) (acquired L_bcache s)" for P
    using bget_find_bring [of "acquired L_bcache s" bs P] assms(2) by simp_all
  let ?t = "(cycled s)\<lparr>bufs := (bufs s)(i := (bufs s i)\<lparr>b_dev := ROOTDEV, b_blockno := bn, b_valid := 0, b_refcnt := 1\<rparr>)\<rparr>"
  have "quiet p ?t" using assms(1) by simp
  from acquiresleep_free [OF this, of "Sl_buf i"] assms(6) [OF n r]
  have a: "acquiresleep (Sl_buf i) ?t = Ok () (?t\<lparr>slocks := locked_by p s i\<rparr>)" by simp
  have "bget ROOTDEV bn s = Ok i (?t\<lparr>slocks := locked_by p s i\<rparr>)"
    unfolding bget_def using Q g f i a by (simp add: run_simps del: NBUF_def bget_find.simps ROOTDEV_def)
  with i r n show ?thesis by blast
qed

lemma diskst_more_frame [simp]:
  "diskst.more (acquired l s) = diskst.more s" "diskst.more (released l s) = diskst.more s" "diskst.more (cycled s) = diskst.more s"
  by (simp_all add: base_effects)

text \<open>Changing a buffer that stays the buffer of its block.\<close>

lemma bview_upd:
  assumes "buniq (bufs s)" "bidx (bufs s) bn = Some i" "b_dev X = b_dev (bufs s i)" "b_blockno X = b_blockno (bufs s i)"
    and "bufs t = (bufs s)(i := X)" "medium t = medium s"
  shows "bview t = (bview s)(bn := if b_valid X \<noteq> 0 then b_data X else bdisk (medium s) bn)"
proof
  fix k
  have b: "bidx (bufs t) = bidx (bufs s)" unfolding assms(5) by (rule bidx_upd_same) (simp_all add: assms(3,4))
  show "bview t k = ((bview s)(bn := if b_valid X \<noteq> 0 then b_data X else bdisk (medium s) bn)) k"
  proof (cases "k = bn")
    case True
    then show ?thesis unfolding bview_def b using assms by simp
  next
    case False
    then have "bidx (bufs s) k \<noteq> Some i" using bidx_inj [OF assms(1,2)] by blast
    with False show ?thesis unfolding bview_def b using assms(5,6) by (auto split: option.split)
  qed
qed

lemma brefs_upd:
  assumes "buniq (bufs s)" "bidx (bufs s) bn = Some i" "b_dev X = b_dev (bufs s i)" "b_blockno X = b_blockno (bufs s i)"
    and "bufs t = (bufs s)(i := X)"
  shows "brefs t = (brefs s)(bn := unat (b_refcnt X))"
proof
  fix k
  have b: "bidx (bufs t) = bidx (bufs s)" unfolding assms(5) by (rule bidx_upd_same) (simp_all add: assms(3,4))
  show "brefs t k = ((brefs s)(bn := unat (b_refcnt X))) k"
  proof (cases "k = bn")
    case True
    then show ?thesis unfolding brefs_def b using assms by simp
  next
    case False
    then have "bidx (bufs s) k \<noteq> Some i" using bidx_inj [OF assms(1,2)] by blast
    with False show ?thesis unfolding brefs_def b using assms(5) by (auto split: option.split)
  qed
qed

lemma blocked_upd:
  assumes "buniq (bufs s)" "bidx (bufs s) bn = Some i" "bidx (bufs t) = bidx (bufs s)"
    and "\<And>j. j \<noteq> i \<Longrightarrow> slocks t (Sl_buf j) = slocks s (Sl_buf j)"
  shows "blocked t = (blocked s)(bn := sl_locked (slocks t (Sl_buf i)) \<noteq> 0)"
proof
  fix k
  show "blocked t k = ((blocked s)(bn := sl_locked (slocks t (Sl_buf i)) \<noteq> 0)) k"
  proof (cases "k = bn")
    case True
    then show ?thesis using assms by (simp add: blocked_def)
  next
    case False
    then have "bidx (bufs s) k \<noteq> Some i" using bidx_inj [OF assms(1,2)] by blast
    with False show ?thesis using assms(3,4) by (auto simp: blocked_def split: option.split)
  qed
qed

lemma unat_Suc32: "unat x < 2 ^ 32 - 1 \<Longrightarrow> unat (x + 1 :: u32) = Suc (unat x)"
  by (subst unat_add_lem [THEN iffD1]) simp_all

definition bget_post :: "nat \<Rightarrow> 'r diskst_scheme \<Rightarrow> u32 \<Rightarrow> nat \<Rightarrow> 'r diskst_scheme \<Rightarrow> bool" where
  "bget_post p s bn i t \<longleftrightarrow> i < NBUF \<and> binv p t \<and> bframe p s t \<and> medium t = medium s \<and> bidx (bufs t) bn = Some i \<and> bheld p t i
     \<and> bview t = bview s \<and> brefs t = (brefs s)(bn := Suc (brefs s bn)) \<and> blocked t = (blocked s)(bn := True)
     \<and> bkeep p s bn t"

lemma bget_hit_post:
  fixes s :: "'r diskst_scheme"
  assumes inv: "binv p s" and i: "bidx (bufs s) bn = Some i" and "\<not> blocked s bn" "brefs s bn < 2 ^ 32 - 1"
  shows "\<exists>t. bget ROOTDEV bn s = Ok i t \<and> bget_post p s bn i t \<and> power t = power s"
proof -
  from inv have q: "quiet p s" and r: "vdisk_ready s" and ok: "bufs_ok (bufs s) (slocks s) (medium s)" by (simp_all add: binv_def)
  from ok obtain bs where bs: "bring (bufs s) bs" and u: "buniq (bufs s)" by (auto simp: bufs_ok_parts)
  have n: "i < NBUF" "b_dev (bufs s i) = ROOTDEV" "b_blockno (bufs s i) = bn" using i unfolding bidx_Some [OF u] by simp_all
  have free: "sl_locked (slocks s (Sl_buf i)) = 0" using assms(3) i by (simp add: blocked_def)
  let ?X = "b_refcnt_update (\<lambda>n. n + 1) (bufs s i)"
  let ?t = "(cycled s)\<lparr>bufs := (bufs s)(i := ?X), slocks := locked_by p s i\<rparr>"
  have c: "unat (b_refcnt ?X) = Suc (brefs s bn)" using assms(4) i by (simp add: brefs_def unat_Suc32)
  have "buf_ok (slocks s (Sl_buf i)) (medium s) (bufs s i)" using ok n(1) by (simp add: bufs_ok_parts)
  then have X: "buf_ok (slocks ?t (Sl_buf i)) (medium s) ?X" using c n(2) by (auto simp: buf_ok_def)
  have "bufs_ok ((bufs s)(i := ?X)) (slocks ?t) (medium s)"
    by (rule bufs_ok_upd [OF ok]) (use u X in \<open>simp_all add: buniq_upd_same\<close>)
  then have "binv p ?t" using q r by (simp add: binv_def)
  moreover have "bview ?t = bview s"
    using bview_upd [OF u i, of ?X ?t] i by (auto simp: bview_def fun_eq_iff)
  moreover have "brefs ?t = (brefs s)(bn := Suc (brefs s bn))"
    using brefs_upd [OF u i, of ?X ?t] c by simp
  moreover have "blocked ?t = (blocked s)(bn := True)"
    using blocked_upd [OF u i, of ?t] by (simp add: bidx_upd_same)
  moreover have "bkeep p s bn ?t" by (rule bkeep_one [OF u i]) (simp_all add: bidx_upd_same)
  ultimately have "bget_post p s bn i ?t" using n(1) i by (simp add: bget_post_def bframe_def bheld_def bidx_upd_same)
  with bget_hit [OF q bs u i free] show ?thesis by (intro exI [of _ ?t]) simp
qed

lemma free_buffer:
  assumes "bufs_ok (bufs s) L m" "card {k. 0 < brefs s k} < NBUF"
  shows "\<exists>j<NBUF. b_refcnt (bufs s j) = 0"
proof (rule ccontr)
  assume "\<not> (\<exists>j<NBUF. b_refcnt (bufs s j) = 0)"
  then have r: "b_refcnt (bufs s j) \<noteq> 0" if "j < NBUF" for j using that by blast
  have u: "buniq (bufs s)" and ok: "\<And>j. j < NBUF \<Longrightarrow> buf_ok (L (Sl_buf j)) m (bufs s j)" using assms(1) by (auto simp: bufs_ok_parts)
  have d: "b_dev (bufs s j) = ROOTDEV" if "j < NBUF" for j using ok [OF that] r [OF that] by (auto simp: buf_ok_def)
  have ix: "bidx (bufs s) (b_blockno (bufs s j)) = Some j" if "j < NBUF" for j using that d unfolding bidx_Some [OF u] by simp
  let ?f = "\<lambda>j. b_blockno (bufs s j)"
  have inj: "inj_on ?f {..<NBUF}"
  proof (rule inj_onI)
    fix i j
    assume i: "i \<in> {..<NBUF}" and j: "j \<in> {..<NBUF}" and e: "?f i = ?f j"
    have "bidx (bufs s) (?f j) = Some i" using ix [of i] i unfolding e by (simp only: lessThan_iff)
    moreover have "bidx (bufs s) (?f j) = Some j" using ix [of j] j by (simp only: lessThan_iff)
    ultimately show "i = j" by simp
  qed
  have sub: "?f ` {..<NBUF} \<subseteq> {k. 0 < brefs s k}"
  proof
    fix k
    assume "k \<in> ?f ` {..<NBUF}"
    then obtain j where j: "j < NBUF" "k = ?f j" by auto
    with ix [OF j(1)] r [OF j(1)] show "k \<in> {k. 0 < brefs s k}" by (simp add: brefs_def unat_gt_0)
  qed
  have "card (?f ` {..<NBUF}) \<le> card {k. 0 < brefs s k}" by (rule card_mono [OF _ sub]) simp
  moreover have "card (?f ` {..<NBUF}) = NBUF" using inj by (simp add: card_image)
  ultimately show False using assms(2) by simp
qed

lemma bget_miss_post:
  fixes s :: "'r diskst_scheme"
  assumes inv: "binv p s" and none: "bidx (bufs s) bn = None" and bn: "unat bn < FSSIZE" and fr: "card {k. 0 < brefs s k} < NBUF"
  shows "\<exists>i t. bget ROOTDEV bn s = Ok i t \<and> bget_post p s bn i t \<and> power t = power s \<and> b_valid (bufs t i) = 0"
proof -
  from inv have q: "quiet p s" and r: "vdisk_ready s" and ok: "bufs_ok (bufs s) (slocks s) (medium s)" by (simp_all add: binv_def)
  from ok obtain bs where bs: "bring (bufs s) bs" and u: "buniq (bufs s)" and bo: "\<And>j. j < NBUF \<Longrightarrow> buf_ok (slocks s (Sl_buf j)) (medium s) (bufs s j)"
    by (auto simp: bufs_ok_parts)
  have un: "sl_locked (slocks s (Sl_buf j)) = 0" if "j < NBUF" "b_refcnt (bufs s j) = 0" for j
    using bo [OF that(1)] that(2) by (simp add: buf_ok_def)
  from bget_miss [OF q bs u none free_buffer [OF ok fr] un] obtain i where i: "i < NBUF" "b_refcnt (bufs s i) = 0" and
    g: "bget ROOTDEV bn s = Ok i ((cycled s)\<lparr>bufs := (bufs s)(i := (bufs s i)\<lparr>b_dev := ROOTDEV, b_blockno := bn, b_valid := 0, b_refcnt := 1\<rparr>), slocks := locked_by p s i\<rparr>)"
    by blast
  let ?X = "(bufs s i)\<lparr>b_dev := ROOTDEV, b_blockno := bn, b_valid := 0, b_refcnt := 1\<rparr>"
  let ?t = "(cycled s)\<lparr>bufs := (bufs s)(i := ?X), slocks := locked_by p s i\<rparr>"
  have ix: "bidx ((bufs s)(i := ?X)) k = (if k = bn then Some i else if bidx (bufs s) k = Some i then None else bidx (bufs s) k)" for k
    by (rule bidx_upd_new [OF u none]) (use i in simp_all)
  have un': "buniq ((bufs s)(i := ?X))" by (rule buniq_upd_new [OF u none]) simp
  have X: "buf_ok (slocks ?t (Sl_buf i)) (medium s) ?X" using bn by (simp add: buf_ok_def)
  have "bufs_ok ((bufs s)(i := ?X)) (slocks ?t) (medium s)"
    by (rule bufs_ok_upd [OF ok un']) (use X in simp_all)
  then have "binv p ?t" using q r by (simp add: binv_def)
  moreover have "bview ?t = bview s"
  proof
    fix k
    have old: "bview s k = bdisk (medium s) k" if "bidx (bufs s) k = Some i"
    proof -
      have "b_blockno (bufs s i) = k" "b_dev (bufs s i) = ROOTDEV" using that unfolding bidx_Some [OF u] by simp_all
      then show ?thesis using bo [OF i(1)] i(2) that by (auto simp: bview_def buf_ok_def bdisk_def)
    qed
    show "bview ?t k = bview s k"
    proof (cases "k = bn")
      case True
      then show ?thesis using none ix [of bn] by (simp add: bview_def)
    next
      case False
      then show ?thesis using ix [of k] old by (auto simp: bview_def split: option.split)
    qed
  qed
  moreover have "brefs ?t = (brefs s)(bn := Suc (brefs s bn))"
  proof
    fix k
    show "brefs ?t k = ((brefs s)(bn := Suc (brefs s bn))) k"
      using none ix [of k] i by (auto simp: brefs_def split: option.split)
  qed
  moreover have "blocked ?t = (blocked s)(bn := True)"
  proof
    fix k
    show "blocked ?t k = ((blocked s)(bn := True)) k"
      using none ix [of k] un [OF i] by (auto simp: blocked_def split: option.split)
  qed
  moreover have "bkeep p s bn ?t"
  proof (rule bkeepI)
    fix k j
    assume k: "k \<noteq> bn" and own: "bowned p s k j"
    then have "j \<noteq> i" "bidx (bufs s) k = Some j" using bownedD(5,13) [OF own] i(2) by auto
    with k ix [of k] show "bidx (bufs ?t) k = Some j \<and> b_valid (bufs ?t j) = b_valid (bufs s j) \<and> slocks ?t (Sl_buf j) = slocks s (Sl_buf j)" by simp
  qed simp
  ultimately have "bget_post p s bn i ?t" using i(1) ix [of bn] by (simp add: bget_post_def bframe_def bheld_def)
  with g show ?thesis by (intro exI [of _ i] exI [of _ ?t]) simp
qed

text \<open>A block that nobody refers to reads as it is on the medium.\<close>

lemma unreferenced_clean:
  assumes "binv p s" "brefs s bn = 0"
  shows "bview s bn = bdisk (medium s) bn"
proof (cases "bidx (bufs s) bn")
  case (Some i)
  have u: "buniq (bufs s)" and bo: "\<And>j. j < NBUF \<Longrightarrow> buf_ok (slocks s (Sl_buf j)) (medium s) (bufs s j)"
    using assms(1) by (auto simp: binv_def bufs_ok_parts)
  have i: "i < NBUF" "b_dev (bufs s i) = ROOTDEV" "b_blockno (bufs s i) = bn" using Some unfolding bidx_Some [OF u] by simp_all
  have "b_refcnt (bufs s i) = 0" using assms(2) Some by (simp add: brefs_def unat_eq_0)
  with Some i bo [OF i(1)] show ?thesis by (auto simp: bview_def buf_ok_def bdisk_def)
qed (simp add: bview_def)

text \<open>What a caller of \<^verbatim>\<open>bread\<close> may rely on.\<close>

definition bread_post :: "nat \<Rightarrow> 'r diskst_scheme \<Rightarrow> u32 \<Rightarrow> nat \<Rightarrow> 'r diskst_scheme \<Rightarrow> bool" where
  "bread_post p s bn i t \<longleftrightarrow> bget_post p s bn i t \<and> b_valid (bufs t i) \<noteq> 0 \<and> b_data (bufs t i) = bview s bn"

definition bread_pre :: "nat \<Rightarrow> 'r diskst_scheme \<Rightarrow> u32 \<Rightarrow> bool" where
  "bread_pre p s bn \<longleftrightarrow> binv p s \<and> unat bn < FSSIZE \<and> \<not> blocked s bn \<and> brefs s bn < 2 ^ 32 - 1
     \<and> (brefs s bn = 0 \<longrightarrow> card {k. 0 < brefs s k} < NBUF)"

lemma bget_post_ex:
  assumes "bread_pre p s bn"
  shows "\<exists>i t. bget ROOTDEV bn s = Ok i t \<and> bget_post p s bn i t \<and> power t = power s"
proof (cases "bidx (bufs s) bn")
  case None
  then have "brefs s bn = 0" by (simp add: brefs_def)
  with None bget_miss_post [of p s bn] assms show ?thesis by (auto simp: bread_pre_def)
next
  case (Some i)
  with bget_hit_post [of p s bn i] assms show ?thesis by (auto simp: bread_pre_def)
qed

lemma bread_fill:
  fixes u :: "'r diskst_scheme"
  assumes "bget_post p s bn i u" "b_valid (bufs u i) = 0"
    and t: "t = (cycled u)\<lparr>vregs := r, vq := v, vused_idx := vused_idx u + 1, bufs := (bufs u)(i := (xfer_buf False (medium u) (bufs u i))\<lparr>b_valid := 1\<rparr>),
      medium := medium u, power := spend (power u), procs := roused C (Some p) (procs u)\<rparr>" "quiet p t" "vdisk_ready t"
  shows "bread_post p s bn i t"
proof -
  have inv: "binv p u" and ix: "bidx (bufs u) bn = Some i" and m: "medium u = medium s" and bv: "bview u = bview s"
    using assms(1) by (simp_all add: bget_post_def)
  then have ok: "bufs_ok (bufs u) (slocks u) (medium u)" and un: "buniq (bufs u)" by (auto simp: binv_def bufs_ok_parts)
  have n: "i < NBUF" "b_dev (bufs u i) = ROOTDEV" "b_blockno (bufs u i) = bn" using ix unfolding bidx_Some [OF un] by simp_all
  have bo: "buf_ok (slocks u (Sl_buf i)) (medium u) (bufs u i)" and len: "\<And>k. unat k < FSSIZE \<Longrightarrow> length (dblock (medium u) k) = BSIZE"
    using ok n(1) by (auto simp: bufs_ok_parts)
  let ?X = "(xfer_buf False (medium u) (bufs u i))\<lparr>b_valid := 1\<rparr>"
  have X: "b_dev ?X = b_dev (bufs u i)" "b_blockno ?X = b_blockno (bufs u i)" "b_next ?X = b_next (bufs u i)" "b_prev ?X = b_prev (bufs u i)"
    "b_data ?X = dblock (medium u) bn" "b_refcnt ?X = b_refcnt (bufs u i)" "b_valid ?X = 1"
    using n(3) by (simp_all add: xfer_buf_def dblock_def)
  have bt: "bufs t = (bufs u)(i := ?X)" "medium t = medium u" "slocks t = slocks u" unfolding t(1) by simp_all
  have same: "bidx (bufs t) = bidx (bufs u)" unfolding bt by (rule bidx_upd_same) (simp_all add: X)
  have lt: "unat bn < FSSIZE" using bo n(2,3) by (simp add: buf_ok_def)
  have view: "bview s bn = dblock (medium u) bn" using ix assms(2) lt by (simp add: bv [symmetric] bview_def bdisk_def)
  have "buf_ok (slocks u (Sl_buf i)) (medium u) ?X"
    using bo len [of bn] n by (simp add: buf_ok_def X)
  then have "bufs_ok (bufs t) (slocks u) (medium u)" unfolding bt(1)
    by (intro bufs_ok_upd [OF ok]) (use un in \<open>simp_all add: buniq_upd_same X\<close>)
  then have "binv p t" using t(2,3) by (simp add: binv_def bt)
  moreover have "bview t = (bview u)(bn := bview s bn)"
    using bview_upd [OF un ix X(1,2) bt(1,2)] X(5,7) view by simp
  then have "bview t = bview s" unfolding bv by simp
  moreover have "brefs u bn = unat (b_refcnt ?X)" using ix X(6) by (simp add: brefs_def)
  then have "brefs t = brefs u" unfolding brefs_upd [OF un ix X(1,2) bt(1)] by (metis fun_upd_triv)
  moreover have "blocked t = blocked u" unfolding blocked_def same bt(3) ..
  moreover have "bframe p u t" unfolding t(1) bframe_def by simp
  moreover have "bkeep p s bn t"
  proof (rule bkeep_trans)
    show "bkeep p s bn u" using assms(1) by (simp add: bget_post_def)
    show "binv p u" by (rule inv)
    show "bkeep p u bn t" by (rule bkeep_one [OF un ix same]) (simp_all add: t(1))
  qed
  ultimately show ?thesis using assms(1) same X(5,7) view bt
    by (simp add: bread_post_def bget_post_def bheld_def t(1) bframe_def)
qed

lemma wpc_bread:
  fixes s :: "'r diskst_scheme"
  assumes "bread_pre p s bn" "\<And>t. power s \<noteq> None \<Longrightarrow> medium t = medium s \<Longrightarrow> C t" "\<And>i t. bread_post p s bn i t \<Longrightarrow> Q i t"
  shows "wpc (bread ROOTDEV bn) Q C s"
proof -
  from bget_post_ex [OF assms(1)] obtain i u where g: "bget ROOTDEV bn s = Ok i u" and post: "bget_post p s bn i u" and pw: "power u = power s" by blast
  have "wpc (seqK [whenS (\<lambda>s. b_valid (bufs s i) = 0) (block [virtio_disk_rw i False, upd_buf i (b_valid_update (\<lambda>_. 1))])] (ret i)) Q C u"
  proof (cases "b_valid (bufs u i) = 0")
    case False
    moreover have "bidx (bufs u) bn = Some i" using post by (simp add: bget_post_def)
    ultimately have "bview u bn = b_data (bufs u i)" by (simp add: bview_def)
    then have "bread_post p s bn i u" using post False by (simp add: bread_post_def bget_post_def)
    with assms(3) False show ?thesis by (simp add: wp_simps)
  next
    case True
    have inv: "quiet p u" "vdisk_ready u" "unat (b_blockno (bufs u i)) < FSSIZE" and m: "medium u = medium s"
      using post assms(1) by (auto simp: bget_post_def binv_def bread_pre_def bufs_ok_parts bidx_Some)
    have "wpc (virtio_disk_rw i False) (\<lambda>_ t. Q i (t\<lparr>bufs := (bufs t)(i := b_valid_update (\<lambda>_. 1) (bufs t i))\<rparr>)) C u"
    proof (rule wpc_virtio_disk_rw [OF inv])
      show "C t" if "power u \<noteq> None" "medium t = medium u" for t using that assms(2) m pw by simp
    next
      fix r v t
      assume t: "t = (cycled u)\<lparr>vregs := r, vq := v, vused_idx := vused_idx u + 1, bufs := (bufs u)(i := xfer_buf False (medium u) (bufs u i)),
        medium := xfer_medium False (bufs u i) (medium u), power := spend (power u), procs := roused {Ch_buf i, Ch_disk_free} (Some p) (procs u)\<rparr>"
        "quiet p t" "vdisk_ready t"
      show "Q i (t\<lparr>bufs := (bufs t)(i := b_valid_update (\<lambda>_. 1) (bufs t i))\<rparr>)"
        by (rule assms(3), rule bread_fill [OF post True, where r = r and v = v and C = "{Ch_buf i, Ch_disk_free}"])
          (use t in \<open>simp_all add: xfer_medium_def quiet_def vdisk_ready_def\<close>)
    qed
    with True show ?thesis by (simp add: wp_simps)
  qed
  with g show ?thesis by (simp add: bread_def wp_simps wpc_def)
qed


section \<open>Writing, releasing and pinning\<close>

lemma bread_post_owned: "bread_post p s bn i t \<Longrightarrow> unat bn < FSSIZE \<Longrightarrow> bowned p t bn i"
  by (simp add: bread_post_def bget_post_def bowned_def)

text \<open>The owner changes the data of a block.\<close>

lemma bset_owned:
  fixes s :: "'r diskst_scheme"
  assumes "bowned p s bn i" "length d = BSIZE"
  defines "t \<equiv> s\<lparr>bufs := (bufs s)(i := (bufs s i)\<lparr>b_data := d\<rparr>)\<rparr>"
  shows "bowned p t bn i" "bview t = (bview s)(bn := d)" "brefs t = brefs s" "blocked t = blocked s" "bframe p s t" "medium t = medium s" "bkeep p s bn t"
proof -
  note D = bownedD [OF assms(1)]
  let ?X = "(bufs s i)\<lparr>b_data := d\<rparr>"
  have bt: "bufs t = (bufs s)(i := ?X)" by (simp add: t_def)
  have same: "bidx (bufs t) = bidx (bufs s)" unfolding bt by (rule bidx_upd_same) simp_all
  have "buf_ok (slocks s (Sl_buf i)) (medium s) ?X" using D(7,10,13) assms(2) by (simp add: buf_ok_def)
  then have "bufs_ok (bufs t) (slocks s) (medium s)" unfolding bt
    by (intro bufs_ok_upd [OF D(3)]) (use D(4) in \<open>simp_all add: buniq_upd_same\<close>)
  then show "bowned p t bn i" using assms(1) same by (simp add: bowned_def binv_def bheld_def t_def)
  show "bview t = (bview s)(bn := d)" using bview_upd [OF D(4,5), of ?X t] D(9) by (simp add: t_def)
  have "brefs t = (brefs s)(bn := unat (b_refcnt ?X))" by (rule brefs_upd [OF D(4,5) _ _ bt]) simp_all
  also have "unat (b_refcnt ?X) = brefs s bn" using D(12) by simp
  finally show "brefs t = brefs s" by simp
  have "slocks t = slocks s" by (simp add: t_def)
  then show "blocked t = blocked s" unfolding blocked_def same by (simp only:)
  show "bframe p s t" "medium t = medium s" by (simp_all add: bframe_def t_def)
  show "bkeep p s bn t" by (rule bkeep_one [OF D(4,5) same]) (simp_all add: t_def)
qed

definition bwrite_post :: "nat \<Rightarrow> 'r diskst_scheme \<Rightarrow> u32 \<Rightarrow> nat \<Rightarrow> 'r diskst_scheme \<Rightarrow> bool" where
  "bwrite_post p s bn i t \<longleftrightarrow> bowned p t bn i \<and> bframe p s t \<and> bview t = bview s \<and> brefs t = brefs s \<and> blocked t = blocked s
     \<and> bdisk (medium t) = (bdisk (medium s))(bn := bview s bn) \<and> bkeep p s bn t"

lemma bwrite_effect:
  fixes s :: "'r diskst_scheme"
  assumes "bowned p s bn i"
    and t: "t = (cycled s)\<lparr>vregs := r, vq := v, vused_idx := vused_idx s + 1, bufs := (bufs s)(i := xfer_buf True (medium s) (bufs s i)),
      medium := xfer_medium True (bufs s i) (medium s), power := spend (power s), procs := roused C (Some p) (procs s)\<rparr>" "quiet p t" "vdisk_ready t"
  shows "bwrite_post p s bn i t"
proof -
  note D = bownedD [OF assms(1)]
  let ?X = "(bufs s i)\<lparr>b_disk := 0\<rparr>" and ?m = "blk_write (medium s) (sector_of bn) (b_data (bufs s i))"
  have bt: "bufs t = (bufs s)(i := ?X)" "medium t = ?m" "slocks t = slocks s" unfolding t(1) using D(8) by (simp_all add: xfer_buf_def xfer_medium_def)
  have same: "bidx (bufs t) = bidx (bufs s)" unfolding bt by (rule bidx_upd_same) simp_all
  have len: "length (b_data (bufs s i)) = BSIZE" using D(9,10) by (simp add: buf_ok_def)
  have lt: "unat bn < FSSIZE" using assms(1) by (simp add: bowned_def)
  have dm: "dblock ?m k = (if k = bn then b_data (bufs s i) else dblock (medium s) k)" if "unat k < FSSIZE" for k
    using that lt len by (simp add: dblock_write_same dblock_write_other)
  have bo: "buf_ok (slocks s (Sl_buf j)) ?m (bufs s j)" if j: "j < NBUF" for j
  proof -
    have o: "buf_ok (slocks s (Sl_buf j)) (medium s) (bufs s j)" using D(3) j by (simp add: bufs_ok_parts)
    show ?thesis
    proof (cases "b_refcnt (bufs s j) = 0 \<and> b_valid (bufs s j) \<noteq> 0")
      case True
      then have d: "b_dev (bufs s j) = ROOTDEV" using o by (auto simp: buf_ok_def)
      have "b_blockno (bufs s j) \<noteq> bn"
      proof
        assume "b_blockno (bufs s j) = bn"
        then have "bidx (bufs s) bn = Some j" using j d unfolding bidx_Some [OF D(4)] by simp
        with D(5,13) True show False by simp
      qed
      moreover have "unat (b_blockno (bufs s j)) < FSSIZE" using o d by (simp add: buf_ok_def)
      ultimately have "dblock ?m (b_blockno (bufs s j)) = dblock (medium s) (b_blockno (bufs s j))" using dm by simp
      with o show ?thesis unfolding buf_ok_def by simp
    next
      case False
      then show ?thesis using o unfolding buf_ok_def by blast
    qed
  qed
  have l: "\<And>k. unat k < FSSIZE \<Longrightarrow> length (dblock ?m k) = BSIZE" using dm D(3) len by (simp add: bufs_ok_parts)
  have ok: "bufs_ok (bufs s) (slocks s) ?m" unfolding bufs_ok_parts using D(3) bo l by (simp add: bufs_ok_parts del: NBUF_def)
  have "buf_ok (slocks s (Sl_buf i)) ?m ?X" using bo [OF D(6)] by (simp add: buf_ok_def)
  then have "bufs_ok (bufs t) (slocks t) (medium t)" unfolding bt
    by (intro bufs_ok_upd [OF ok]) (use D(4) in \<open>simp_all add: buniq_upd_same\<close>)
  then have own: "bowned p t bn i" using assms(1) t(2,3) same bt by (simp add: bowned_def binv_def bheld_def t(1) xfer_buf_def)
  have disk: "bdisk (medium t) = (bdisk (medium s))(bn := b_data (bufs s i))"
    unfolding bt fun_eq_iff using dm lt by (simp add: bdisk_def)
  have view: "bview t = bview s"
  proof
    fix k
    show "bview t k = bview s k"
    proof (cases "k = bn")
      case True
      then show ?thesis unfolding bview_def same using D(5,9) by (simp add: bt)
    next
      case False
      then have "bidx (bufs s) k \<noteq> Some i" using bidx_inj [OF D(4,5)] by blast
      with False show ?thesis unfolding bview_def same disk by (auto simp: bt(1) split: option.split)
    qed
  qed
  have "brefs t = (brefs s)(bn := unat (b_refcnt ?X))" by (rule brefs_upd [OF D(4,5) _ _ bt(1)]) simp_all
  also have "unat (b_refcnt ?X) = brefs s bn" using D(12) by simp
  finally have "brefs t = brefs s" by simp
  moreover have "blocked t = blocked s" unfolding blocked_def same bt(3) ..
  moreover have "bframe p s t" unfolding t(1) bframe_def by simp
  moreover have "bkeep p s bn t" by (rule bkeep_one [OF D(4,5) same]) (simp_all add: t(1))
  ultimately show ?thesis using own view disk D(11) by (simp add: bwrite_post_def)
qed

lemma wpc_bwrite:
  fixes s :: "'r diskst_scheme"
  assumes "bowned p s bn i" "\<And>t. power s \<noteq> None \<Longrightarrow> medium t = medium s \<Longrightarrow> C t" "\<And>t. bwrite_post p s bn i t \<Longrightarrow> Q () t"
  shows "wpc (bwrite i) Q C s"
proof -
  note D = bownedD [OF assms(1)]
  have h: "holdingsleep (Sl_buf i) s = Ok True (cycled s)"
    using holdingsleep_run [OF D(1), of "Sl_buf i"] assms(1) by (simp add: bowned_def bheld_def)
  have lt: "unat (b_blockno (bufs s i)) < FSSIZE" using D(8) assms(1) by (simp add: bowned_def)
  have "wpc (virtio_disk_rw i True) Q C (cycled s)"
  proof (rule wpc_virtio_disk_rw)
    show "quiet p (cycled s)" "vdisk_ready (cycled s)" "unat (b_blockno (bufs (cycled s) i)) < FSSIZE" using D(1,2) lt by simp_all
    show "C t" if "power (cycled s) \<noteq> None" "medium t = medium (cycled s)" for t using that assms(2) by simp
    fix r v t
    assume t: "t = (cycled (cycled s))\<lparr>vregs := r, vq := v, vused_idx := vused_idx (cycled s) + 1, bufs := (bufs (cycled s))(i := xfer_buf True (medium (cycled s)) (bufs (cycled s) i)),
      medium := xfer_medium True (bufs (cycled s) i) (medium (cycled s)), power := spend (power (cycled s)), procs := roused {Ch_buf i, Ch_disk_free} (Some p) (procs (cycled s))\<rparr>"
      "quiet p t" "vdisk_ready t"
    show "Q () t" by (rule assms(3), rule bwrite_effect [OF assms(1) _ t(2,3)]) (simp add: t(1))
  qed
  with h show ?thesis by (simp add: bwrite_def wp_simps) (simp add: wpc_def wp_simps)
qed

lemma links_sel [simp]:
  "b_dev (unlink b f i) = b_dev (f i)" "b_blockno (unlink b f i) = b_blockno (f i)" "b_valid (unlink b f i) = b_valid (f i)"
  "b_data (unlink b f i) = b_data (f i)" "b_refcnt (unlink b f i) = b_refcnt (f i)" "b_disk (unlink b f i) = b_disk (f i)"
  "b_dev (link_front b f i) = b_dev (f i)" "b_blockno (link_front b f i) = b_blockno (f i)" "b_valid (link_front b f i) = b_valid (f i)"
  "b_data (link_front b f i) = b_data (f i)" "b_refcnt (link_front b f i) = b_refcnt (f i)" "b_disk (link_front b f i) = b_disk (f i)"
  by (simp_all add: unlink_def link_front_def Let_def)

lemma refcnt_change:
  assumes ok: "bufs_ok (bufs s) (slocks s) (medium s)" and i: "bidx (bufs s) bn = Some i"
    and same: "\<And>j. b_dev (bufs t j) = b_dev (bufs s j)" "\<And>j. b_blockno (bufs t j) = b_blockno (bufs s j)"
      "\<And>j. b_valid (bufs t j) = b_valid (bufs s j)" "\<And>j. b_data (bufs t j) = b_data (bufs s j)"
    and others: "\<And>j. j \<noteq> i \<Longrightarrow> b_refcnt (bufs t j) = b_refcnt (bufs s j)" "\<And>j. j \<noteq> i \<Longrightarrow> slocks t (Sl_buf j) = slocks s (Sl_buf j)"
    and ring: "\<exists>bs. bring (bufs t) bs" and bo: "buf_ok (slocks t (Sl_buf i)) (medium s) (bufs t i)" and m: "medium t = medium s"
  shows "bufs_ok (bufs t) (slocks t) (medium t)" "bidx (bufs t) = bidx (bufs s)" "bview t = bview s"
    "brefs t = (brefs s)(bn := unat (b_refcnt (bufs t i)))" "blocked t = (blocked s)(bn := sl_locked (slocks t (Sl_buf i)) \<noteq> 0)"
proof -
  have u: "buniq (bufs s)" using ok by (simp add: bufs_ok_parts)
  show ix: "bidx (bufs t) = bidx (bufs s)" unfolding bidx_def same ..
  have "buniq (bufs t)" using u unfolding buniq_def same .
  moreover have "buf_ok (slocks t (Sl_buf j)) (medium s) (bufs t j)" if "j < NBUF" for j
  proof (cases "j = i")
    case False
    then show ?thesis using ok that others same by (simp add: bufs_ok_parts buf_ok_def del: NBUF_def)
  qed (use bo in simp)
  ultimately show "bufs_ok (bufs t) (slocks t) (medium t)" using ring ok m unfolding bufs_ok_parts by (simp only:) blast
  show "bview t = bview s" unfolding bview_def ix same m ..
  have ne: "k \<noteq> bn \<Longrightarrow> bidx (bufs s) k \<noteq> Some i" for k using bidx_inj [OF u i] by blast
  show "brefs t = (brefs s)(bn := unat (b_refcnt (bufs t i)))"
  proof
    fix k
    show "brefs t k = ((brefs s)(bn := unat (b_refcnt (bufs t i)))) k"
      unfolding brefs_def ix using i ne [of k] others(1) by (auto split: option.split)
  qed
  show "blocked t = (blocked s)(bn := sl_locked (slocks t (Sl_buf i)) \<noteq> 0)" by (rule blocked_upd [OF u i ix others(2)])
qed

definition brelse_post :: "nat \<Rightarrow> 'r diskst_scheme \<Rightarrow> u32 \<Rightarrow> 'r diskst_scheme \<Rightarrow> bool" where
  "brelse_post p s bn t \<longleftrightarrow> binv p t \<and> bframe p s t \<and> bview t = bview s \<and> medium t = medium s
     \<and> brefs t = (brefs s)(bn := brefs s bn - 1) \<and> blocked t = (blocked s)(bn := False) \<and> bkeep p s bn t"

definition brelse_bufs :: "nat \<Rightarrow> (nat \<Rightarrow> buf) \<Rightarrow> nat \<Rightarrow> buf" where
  "brelse_bufs i B = (let B1 = B(i := b_refcnt_update (\<lambda>n. n - 1) (B i)) in
     if b_refcnt (B1 i) = 0 then link_front i (unlink i B1) else B1)"

lemma brelse_run:
  assumes "quiet p s" "bheld p s i" "i < NBUF"
  shows "brelse i s = Ok () ((cycled s)\<lparr>slocks := (slocks s)(Sl_buf i := (slocks s (Sl_buf i))\<lparr>sl_locked := 0, sl_pid := 0\<rparr>),
    procs := roused {Ch_sleeplock (Sl_buf i)} (Some p) (procs s), bufs := brelse_bufs i (bufs s)\<rparr>)"
proof -
  have h: "holdingsleep (Sl_buf i) s = Ok True (cycled s)"
    using holdingsleep_run [OF assms(1), of "Sl_buf i"] assms(2) by (simp add: bheld_def)
  let ?u = "(cycled s)\<lparr>slocks := (slocks s)(Sl_buf i := (slocks s (Sl_buf i))\<lparr>sl_locked := 0, sl_pid := 0\<rparr>),
    procs := roused {Ch_sleeplock (Sl_buf i)} (Some p) (procs s)\<rparr>"
  have r: "releasesleep (Sl_buf i) (cycled s) = Ok () ?u"
    using releasesleep_run [of p "cycled s" "Sl_buf i"] assms(1) by simp
  note Q = quietD [OF assms(1)]
  show ?thesis using h r Q assms(3) unfolding brelse_def brelse_bufs_def Let_def
    by (simp add: run_simps brelse_move_run del: NBUF_def)
qed

lemma unat_pred: "x \<noteq> 0 \<Longrightarrow> unat (x - 1 :: u32) = unat x - 1"
  by (rule unat_minus_one)

lemma brelse_bring:
  assumes "bring B bs" "i < NBUF"
  shows "\<exists>bs. bring (brelse_bufs i B) bs"
proof -
  have "bring (B(i := b_refcnt_update (\<lambda>n. n - 1) (B i))) bs" using assms(1) by (rule bring_cong) auto
  with bring_move [OF this assms(2)] show ?thesis unfolding brelse_bufs_def Let_def by (simp only: split: if_split) blast
qed

lemma wp_brelse:
  fixes s :: "'r diskst_scheme"
  assumes own: "bowned p s bn i" and cl: "brefs s bn = 1 \<Longrightarrow> bview s bn = bdisk (medium s) bn"
  shows "wp (brelse i) (\<lambda>_. brelse_post p s bn) s"
proof -
  note D = bownedD [OF own]
  have h: "bheld p s i" and lt: "unat bn < FSSIZE" using own by (simp_all add: bowned_def)
  define t where "t = (cycled s)\<lparr>slocks := (slocks s)(Sl_buf i := (slocks s (Sl_buf i))\<lparr>sl_locked := 0, sl_pid := 0\<rparr>),
    procs := roused {Ch_sleeplock (Sl_buf i)} (Some p) (procs s), bufs := brelse_bufs i (bufs s)\<rparr>"
  have B: "b_dev (bufs t j) = b_dev (bufs s j)" "b_blockno (bufs t j) = b_blockno (bufs s j)"
    "b_valid (bufs t j) = b_valid (bufs s j)" "b_data (bufs t j) = b_data (bufs s j)"
    "b_refcnt (bufs t j) = (if j = i then b_refcnt (bufs s i) - 1 else b_refcnt (bufs s j))" for j
    by (simp_all add: t_def brelse_bufs_def Let_def)
  have t: "slocks t = (slocks s)(Sl_buf i := (slocks s (Sl_buf i))\<lparr>sl_locked := 0, sl_pid := 0\<rparr>)" "medium t = medium s" "quiet p t" "vdisk_ready t" "bframe p s t"
    using D(1,2) by (simp_all add: t_def bframe_def) (simp add: quiet_def)
  obtain bs where "bring (bufs s) bs" using D(3) by (auto simp: bufs_ok_parts)
  then have ring: "\<exists>bs. bring (bufs t) bs" using brelse_bring [OF _ D(6)] by (simp add: t_def)
  have r: "unat (b_refcnt (bufs t i)) = brefs s bn - 1" using D(12,13) B(5) [of i] by (simp add: unat_pred)
  have "b_data (bufs s i) = dblock (medium s) bn" if "b_refcnt (bufs t i) = 0"
  proof -
    have "brefs s bn \<noteq> 0" using D(12,13) by (simp add: unat_gt_0)
    with r that have "brefs s bn = 1" by simp
    from cl [OF this] D(11) lt show ?thesis by (simp add: bdisk_def)
  qed
  then have bo: "buf_ok (slocks t (Sl_buf i)) (medium s) (bufs t i)"
    using D(7,8,10,13) lt unfolding buf_ok_def t(1) B(1-4) by simp
  have o: "j \<noteq> i \<Longrightarrow> b_refcnt (bufs t j) = b_refcnt (bufs s j)" "j \<noteq> i \<Longrightarrow> slocks t (Sl_buf j) = slocks s (Sl_buf j)" for j
    by (simp_all add: B(5) t(1))
  note R = refcnt_change [OF D(3,5) B(1-4) o ring bo t(2)]
  have "blocked t = (blocked s)(bn := False)" using R(5) t(1) by simp
  moreover have "bkeep p s bn t" by (rule bkeep_one [OF D(4,5) R(2)]) (use t(5) in \<open>simp_all add: B o bframe_def\<close>)
  ultimately have "brelse_post p s bn t" using R(1,3,4) t r by (simp add: brelse_post_def binv_def)
  with brelse_run [OF D(1) h D(6)] show ?thesis by (simp add: wp_def t_def)
qed

lemma wp_bpin:
  fixes s :: "'r diskst_scheme"
  assumes own: "bowned p s bn i" and lt: "brefs s bn < 2 ^ 32 - 1"
  shows "wp (bpin i) (\<lambda>_ t. bowned p t bn i \<and> bframe p s t \<and> bview t = bview s \<and> medium t = medium s
    \<and> brefs t = (brefs s)(bn := Suc (brefs s bn)) \<and> blocked t = blocked s \<and> bkeep p s bn t) s"
proof -
  note D = bownedD [OF own] and Q = quietD [OF bownedD(1) [OF own]]
  let ?X = "b_refcnt_update (\<lambda>n. n + 1) (bufs s i)"
  define t where "t = (cycled s)\<lparr>bufs := (bufs s)(i := ?X)\<rparr>"
  have run: "bpin i s = Ok () t" using Q by (simp add: bpin_def run_simps t_def)
  have B: "b_dev (bufs t j) = b_dev (bufs s j)" "b_blockno (bufs t j) = b_blockno (bufs s j)"
    "b_valid (bufs t j) = b_valid (bufs s j)" "b_data (bufs t j) = b_data (bufs s j)"
    "b_next (bufs t j) = b_next (bufs s j)" "b_prev (bufs t j) = b_prev (bufs s j)" for j
    by (simp_all add: t_def)
  have t: "slocks t = slocks s" "medium t = medium s" "quiet p t" "vdisk_ready t" "bframe p s t"
    using D(1,2) by (simp_all add: t_def bframe_def)
  obtain bs where "bring (bufs s) bs" using D(3) by (auto simp: bufs_ok_parts)
  then have "bring (bufs t) bs" by (rule bring_cong) (simp_all add: B)
  then have ring: "\<exists>bs. bring (bufs t) bs" by blast
  have r: "unat (b_refcnt (bufs t i)) = Suc (brefs s bn)" using lt D(12) by (simp add: t_def unat_Suc32)
  then have "b_refcnt (bufs t i) \<noteq> 0" by auto
  then have bo: "buf_ok (slocks t (Sl_buf i)) (medium s) (bufs t i)" using D(7,10) by (simp add: buf_ok_def B t)
  have o: "j \<noteq> i \<Longrightarrow> b_refcnt (bufs t j) = b_refcnt (bufs s j)" "j \<noteq> i \<Longrightarrow> slocks t (Sl_buf j) = slocks s (Sl_buf j)" for j
    by (simp_all add: t_def)
  note R = refcnt_change [OF D(3,5) B(1-4) o ring bo t(2)]
  have "blocked t = (blocked s)(bn := True)" using R(5) D(14) t(1) by simp
  also have "\<dots> = blocked s" using D(15) by (intro fun_upd_idem) simp
  finally have "blocked t = blocked s" .
  moreover have "bkeep p s bn t" by (rule bkeep_one [OF D(4,5) R(2)]) (simp_all add: B t_def)
  moreover have "bowned p t bn i" using own R(1,2) t B by (simp add: bowned_def binv_def bheld_def bframe_def)
  ultimately show ?thesis using run R t r by (simp add: wp_def)
qed

lemma wp_bunpin:
  fixes s :: "'r diskst_scheme"
  assumes own: "bowned p s bn i" and gt: "1 < brefs s bn"
  shows "wp (bunpin i) (\<lambda>_ t. bowned p t bn i \<and> bframe p s t \<and> bview t = bview s \<and> medium t = medium s
    \<and> brefs t = (brefs s)(bn := brefs s bn - 1) \<and> blocked t = blocked s \<and> bkeep p s bn t) s"
proof -
  note D = bownedD [OF own] and Q = quietD [OF bownedD(1) [OF own]]
  let ?X = "b_refcnt_update (\<lambda>n. n - 1) (bufs s i)"
  define t where "t = (cycled s)\<lparr>bufs := (bufs s)(i := ?X)\<rparr>"
  have run: "bunpin i s = Ok () t" using Q by (simp add: bunpin_def run_simps t_def)
  have B: "b_dev (bufs t j) = b_dev (bufs s j)" "b_blockno (bufs t j) = b_blockno (bufs s j)"
    "b_valid (bufs t j) = b_valid (bufs s j)" "b_data (bufs t j) = b_data (bufs s j)"
    "b_next (bufs t j) = b_next (bufs s j)" "b_prev (bufs t j) = b_prev (bufs s j)" for j
    by (simp_all add: t_def)
  have t: "slocks t = slocks s" "medium t = medium s" "quiet p t" "vdisk_ready t" "bframe p s t"
    using D(1,2) by (simp_all add: t_def bframe_def)
  obtain bs where "bring (bufs s) bs" using D(3) by (auto simp: bufs_ok_parts)
  then have "bring (bufs t) bs" by (rule bring_cong) (simp_all add: B)
  then have ring: "\<exists>bs. bring (bufs t) bs" by blast
  have r: "unat (b_refcnt (bufs t i)) = brefs s bn - 1" using D(12,13) by (simp add: t_def unat_pred)
  then have "b_refcnt (bufs t i) \<noteq> 0" using gt by auto
  then have bo: "buf_ok (slocks t (Sl_buf i)) (medium s) (bufs t i)" using D(7,10) by (simp add: buf_ok_def B t)
  have o: "j \<noteq> i \<Longrightarrow> b_refcnt (bufs t j) = b_refcnt (bufs s j)" "j \<noteq> i \<Longrightarrow> slocks t (Sl_buf j) = slocks s (Sl_buf j)" for j
    by (simp_all add: t_def)
  note R = refcnt_change [OF D(3,5) B(1-4) o ring bo t(2)]
  have "blocked t = (blocked s)(bn := True)" using R(5) D(14) t(1) by simp
  also have "\<dots> = blocked s" using D(15) by (intro fun_upd_idem) simp
  finally have "blocked t = blocked s" .
  moreover have "bkeep p s bn t" by (rule bkeep_one [OF D(4,5) R(2)]) (simp_all add: B t_def)
  moreover have "bowned p t bn i" using own R(1,2) t B by (simp add: bowned_def binv_def bheld_def bframe_def)
  ultimately show ?thesis using run R t r by (simp add: wp_def)
qed

section \<open>Initialization\<close>

lemma binit_one_run: "b < NBUF \<Longrightarrow> \<exists>t. binit_one b s = Ok () t \<and> bufs t = link_front b (bufs s)"
  by (simp add: binit_one_def initsleeplock_def initlock_def run_simps link_front_def Let_def upd_lock_def)

lemma binit_run:
  "\<exists>t. binit s = Ok () t \<and> bring (bufs t) (rev [0..<NBUF])"
proof -
  let ?s = "(upd_lock L_bcache (\<lambda>_. \<lparr>lk_locked = 0, lk_name = ''bcache'', lk_cpu = None\<rparr>) s)\<lparr>bufs := (bufs s)(bcache_head := (bufs s bcache_head)\<lparr>b_prev := bcache_head, b_next := bcache_head\<rparr>)\<rparr>"
  have "wp (forK binit_one [0..<NBUF]) (\<lambda>_ t. chain (bufs t) (bcache_head # rev [0..<NBUF] @ [bcache_head])) ?s"
  proof (rule wp_forK [where I = "\<lambda>xs t. chain (bufs t) (bcache_head # rev xs @ [bcache_head])"])
    show "chain (bufs ?s) (bcache_head # rev [] @ [bcache_head])" by simp
    fix xs x ys and t :: "'a diskst_scheme"
    assume xs: "[0..<NBUF] = xs @ x # ys" and c: "chain (bufs t) (bcache_head # rev xs @ [bcache_head])"
    have d: "distinct (xs @ x # ys)" "set (xs @ x # ys) = {0..<NBUF}" unfolding xs [symmetric] by simp_all
    then have x: "x < NBUF" "x \<notin> set xs" "distinct (rev xs)" by auto
    have h: "bcache_head \<notin> set (rev xs)" using d(2) by auto
    have "chain (link_front x (bufs t)) (bcache_head # x # rev xs @ [bcache_head])"
      by (rule chain_link_front [OF c]) (use x h in auto)
    with binit_one_run [OF x(1), of t] show "wp (binit_one x) (\<lambda>_ t. chain (bufs t) (bcache_head # rev (xs @ [x]) @ [bcache_head])) t"
      by (auto simp: wp_iff)
  qed
  moreover have "binit s = forK binit_one [0..<NBUF] ?s"
    by (simp add: binit_def initlock_def run_simps upd_lock_def)
  ultimately show ?thesis unfolding wp_iff bring_def by (auto simp: atLeast0LessThan)
qed

section \<open>A concrete cache\<close>

text \<open>The machine of \<open>demo_disk\<close> with the buffers as \<^verbatim>\<open>binit\<close> links them.\<close>

definition demo_cache :: diskst where
  "demo_cache = demo_disk\<lparr>bufs := \<lambda>i. \<lparr>b_valid = 0, b_disk = 0, b_dev = 0, b_blockno = 0, b_refcnt = 0,
     b_prev = (if i = 30 then 0 else i + 1), b_next = (if i = 0 then 30 else i - 1), b_data = []\<rparr>\<rparr>"

lemma upt_30: "rev [0..<30] = [29, 28, 27, 26, 25, 24, 23, 22, 21, 20, 19, 18, 17, 16, 15, 14, 13, 12, 11, 10, 9, 8, 7, 6, 5, 4, 3, 2, 1, 0]"
  by (simp add: upt_rec)

lemma demo_cache_ring: "bring (bufs demo_cache) (rev [0..<NBUF])"
proof -
  have "set (rev [0..<30]) = {..<30::nat}" by (auto simp: atLeast0LessThan)
  moreover have "chain (bufs demo_cache) (30 # rev [0..<30] @ [30])" by (simp add: upt_30 demo_cache_def)
  ultimately show ?thesis by (simp add: bring_def)
qed

lemma demo_cache_ok: "binv 0 demo_cache" "brefs demo_cache = (\<lambda>_. 0)" "blocked demo_cache = (\<lambda>_. False)" "power demo_cache = None"
  "medium demo_cache = (\<lambda>k. replicate 512 (ucast k))"
proof -
  have "bufs_ok (bufs demo_cache) (slocks demo_cache) (medium demo_cache)"
    unfolding bufs_ok_parts using demo_cache_ring
    by (auto simp: demo_cache_def buniq_def buf_ok_def demo_disk_def slst.extend_def dblock_def blk_read_def)
      (simp_all add: demo_sl_def procst.extend_def)
  then show "binv 0 demo_cache" using demo_disk_ok by (simp add: binv_def demo_cache_def)
  have "bidx (bufs demo_cache) = (\<lambda>_. None)" unfolding fun_eq_iff bidx_None_iff by (simp add: demo_cache_def)
  then show "brefs demo_cache = (\<lambda>_. 0)" "blocked demo_cache = (\<lambda>_. False)"
    by (simp_all add: brefs_def blocked_def fun_eq_iff)
  show "power demo_cache = None" "medium demo_cache = (\<lambda>k. replicate 512 (ucast k))"
    by (simp_all add: demo_cache_def demo_disk_def slst.extend_def)
qed

section \<open>Properties\<close>

lemma bget_panics:
  assumes "quiet p s" "bring (bufs s) bs" "buniq (bufs s)" "bidx (bufs s) bn = None" "\<forall>j<NBUF. b_refcnt (bufs s j) \<noteq> 0"
  shows "bget ROOTDEV bn s = Panic ''bget: no buffers''"
proof -
  note Q = quietD [OF assms(1)]
  have f: "find (\<lambda>i. b_dev (bufs s i) = ROOTDEV \<and> b_blockno (bufs s i) = bn) bs = None"
    using find_bring [OF assms(2,3) [unfolded buniq_def]] assms(4) by simp
  have i: "find (\<lambda>j. b_refcnt (bufs s j) = 0) (rev bs) = None"
    using assms(2,5) unfolding find_None_iff by (auto simp: bring_def)
  have g: "bget_find (NBUF + 1) P b_next (b_next (bufs s bcache_head)) (acquired L_bcache s) = Ok (find (\<lambda>i. P (bufs s i)) bs) (acquired L_bcache s)"
    "bget_find (NBUF + 1) P b_prev (b_prev (bufs s bcache_head)) (acquired L_bcache s) = Ok (find (\<lambda>i. P (bufs s i)) (rev bs)) (acquired L_bcache s)" for P
    using bget_find_bring [of "acquired L_bcache s" bs P] assms(2) by simp_all
  show ?thesis
    unfolding bget_def using Q g f i by (simp add: run_simps del: NBUF_def bget_find.simps ROOTDEV_def)
qed

lemma brelse_bring_list:
  assumes "bring B bs" "i < NBUF"
  shows "bring (brelse_bufs i B) (if b_refcnt (B i) = 1 then i # remove1 i bs else bs)"
proof -
  have "bring (B(i := b_refcnt_update (\<lambda>n. n - 1) (B i))) bs" using assms(1) by (rule bring_cong) auto
  with bring_move [OF this assms(2)] show ?thesis by (simp add: brelse_bufs_def Let_def)
qed

text \<open>C22. The links of the buffers implement a list of the buffers in order of use.  \<^verbatim>\<open>bget\<close> of a cached
  block returns its buffer; of a block that is not cached it takes the buffer nearest to the end of
  the list that nobody refers to, and panics when there is none; neither changes the list.  \<^verbatim>\<open>brelse\<close>
  of the last reference moves the buffer to the front, and any other \<^verbatim>\<open>brelse\<close> leaves the list as it is.\<close>

theorem bcache_lru:
  fixes s :: "'r diskst_scheme"
  assumes inv: "binv p s" and bs: "bring (bufs s) bs"
  shows "(\<forall>bn i. bidx (bufs s) bn = Some i \<and> \<not> blocked s bn \<longrightarrow> (\<exists>t. bget ROOTDEV bn s = Ok i t \<and> bring (bufs t) bs))
    \<and> (\<forall>bn. bidx (bufs s) bn = None \<longrightarrow> (case find (\<lambda>j. b_refcnt (bufs s j) = 0) (rev bs) of
          None \<Rightarrow> bget ROOTDEV bn s = Panic ''bget: no buffers''
        | Some i \<Rightarrow> \<exists>t. bget ROOTDEV bn s = Ok i t \<and> bring (bufs t) bs))
    \<and> (\<forall>i<NBUF. bheld p s i \<longrightarrow> (\<exists>t. brelse i s = Ok () t
          \<and> bring (bufs t) (if b_refcnt (bufs s i) = 1 then i # remove1 i bs else bs)))"
proof (intro conjI allI impI)
  have q: "quiet p s" and u: "buniq (bufs s)" and bo: "\<And>j. j < NBUF \<Longrightarrow> buf_ok (slocks s (Sl_buf j)) (medium s) (bufs s j)"
    using inv by (auto simp: binv_def bufs_ok_parts)
  fix bn i
  {
    assume "bidx (bufs s) bn = Some i \<and> \<not> blocked s bn"
    then have i: "bidx (bufs s) bn = Some i" "sl_locked (slocks s (Sl_buf i)) = 0" by (auto simp: blocked_def)
    have "bring ((bufs s)(i := b_refcnt_update (\<lambda>n. n + 1) (bufs s i))) bs" using bs by (rule bring_cong) auto
    with bget_hit [OF q bs u i] show "\<exists>t. bget ROOTDEV bn s = Ok i t \<and> bring (bufs t) bs" by simp
  }
  {
    assume none: "bidx (bufs s) bn = None"
    show "case find (\<lambda>j. b_refcnt (bufs s j) = 0) (rev bs) of
          None \<Rightarrow> bget ROOTDEV bn s = Panic ''bget: no buffers''
        | Some i \<Rightarrow> \<exists>t. bget ROOTDEV bn s = Ok i t \<and> bring (bufs t) bs"
    proof (cases "find (\<lambda>j. b_refcnt (bufs s j) = 0) (rev bs)")
      case None
      then have "\<forall>j<NBUF. b_refcnt (bufs s j) \<noteq> 0" using bs unfolding find_None_iff by (auto simp: bring_def)
      from bget_panics [OF q bs u none this] None show ?thesis by simp
    next
      case (Some k)
      then have k: "k < NBUF" "b_refcnt (bufs s k) = 0" using bs find_SomeD [OF Some] by (auto simp: bring_def)
      have un: "sl_locked (slocks s (Sl_buf j)) = 0" if "j < NBUF" "b_refcnt (bufs s j) = 0" for j
        using bo [OF that(1)] that(2) by (simp add: buf_ok_def)
      from bget_miss [OF q bs u none _ un] k Some
      have "bget ROOTDEV bn s = Ok k ((cycled s)\<lparr>bufs := (bufs s)(k := (bufs s k)\<lparr>b_dev := ROOTDEV, b_blockno := bn, b_valid := 0, b_refcnt := 1\<rparr>), slocks := locked_by p s k\<rparr>)"
        by auto
      moreover have "bring ((bufs s)(k := (bufs s k)\<lparr>b_dev := ROOTDEV, b_blockno := bn, b_valid := 0, b_refcnt := 1\<rparr>)) bs"
        using bs by (rule bring_cong) auto
      ultimately show ?thesis using Some by simp
    qed
  }
  {
    assume "i < NBUF" "bheld p s i"
    with brelse_run [OF q this(2,1)] brelse_bring_list [OF bs this(1)]
    show "\<exists>t. brelse i s = Ok () t \<and> bring (bufs t) (if b_refcnt (bufs s i) = 1 then i # remove1 i bs else bs)" by simp
  }
qed

theorem bcache_lru_witness:
  "\<exists>t. bget ROOTDEV 7 demo_cache = Ok 0 t \<and> bring (bufs t) (rev [0..<NBUF])"
proof -
  have "bidx (bufs demo_cache) 7 = None" unfolding bidx_None_iff by (simp add: demo_cache_def)
  moreover have "find (\<lambda>j. b_refcnt (bufs demo_cache j) = 0) (rev (rev [0..<NBUF])) = Some 0"
    by (simp add: demo_cache_def upt_rec)
  ultimately show ?thesis using bcache_lru [OF demo_cache_ok(1) demo_cache_ring] by force
qed

text \<open>C23. A block read through the cache, changed, written and released holds the new data, on the medium
  and for the next reader, and no other block changes.\<close>

theorem bread_bwrite_roundtrip:
  fixes s :: "'r diskst_scheme"
  assumes pre: "bread_pre p s bn" and pw: "power s = None" and d: "length d = BSIZE"
  shows "\<exists>t i u. bind (bread ROOTDEV bn) (\<lambda>b. block [upd_buf b (b_data_update (\<lambda>_. d)), bwrite b, brelse b]) s = Ok () t
    \<and> dblock (medium t) bn = d \<and> (\<forall>k. k \<noteq> bn \<and> unat k < FSSIZE \<longrightarrow> dblock (medium t) k = dblock (medium s) k)
    \<and> bread ROOTDEV bn t = Ok i u \<and> b_data (bufs u i) = d \<and> (\<forall>k. k \<noteq> bn \<longrightarrow> bview u k = bview s k)"
proof -
  have bn: "unat bn < FSSIZE" using pre by (simp add: bread_pre_def)
  let ?Q = "\<lambda>t. bdisk (medium t) = (bdisk (medium s))(bn := d) \<and> bview t = (bview s)(bn := d) \<and> brefs t = brefs s \<and> blocked t = blocked s \<and> binv p t \<and> power t = None"
  have "wpc (bind (bread ROOTDEV bn) (\<lambda>b. block [upd_buf b (b_data_update (\<lambda>_. d)), bwrite b, brelse b])) (\<lambda>_. ?Q) (\<lambda>_. False) s"
    unfolding wpc_bind
  proof (rule wpc_bread [OF pre])
    fix i t
    assume post: "bread_post p s bn i t"
    note own = bread_post_owned [OF post bn]
    let ?t = "t\<lparr>bufs := (bufs t)(i := (bufs t i)\<lparr>b_data := d\<rparr>)\<rparr>"
    note B = bset_owned [OF own d]
    have T: "bview t = bview s" "brefs t = (brefs s)(bn := Suc (brefs s bn))" "blocked t = (blocked s)(bn := True)" "medium t = medium s" "power t = None"
      using post pw by (simp_all add: bread_post_def bget_post_def bframe_def)
    have bl: "\<not> blocked s bn" using pre by (simp add: bread_pre_def)
    have "wpc (bwrite i) (\<lambda>_. wpc (brelse i) (\<lambda>_. ?Q) (\<lambda>_. False)) (\<lambda>_. False) ?t"
    proof (rule wpc_bwrite [OF B(1)])
      fix u
      assume u: "bwrite_post p ?t bn i u"
      have "wp (brelse i) (\<lambda>_. brelse_post p u bn) u"
        by (rule wp_brelse) (use u B(2) in \<open>simp_all add: bwrite_post_def\<close>)
      then have "wpc (brelse i) (\<lambda>_. brelse_post p u bn) (\<lambda>_. False) u" by (rule wp_wpc)
      then show "wpc (brelse i) (\<lambda>_. ?Q) (\<lambda>_. False) u"
      proof (rule wpc_mono)
        fix v
        assume "brelse_post p u bn v"
        moreover have "(blocked s)(bn := False) = blocked s" using bl by (intro fun_upd_idem) simp
        ultimately show "?Q v" using u B(2-6) T
          by (simp add: brelse_post_def bwrite_post_def bframe_def)
      qed
    qed (use T in simp)
    then show "wpc (block [upd_buf i (b_data_update (\<lambda>_. d)), bwrite i, brelse i]) (\<lambda>_. ?Q) (\<lambda>_. False) t"
      by (simp add: wp_simps)
  qed (use pw in simp)
  then obtain t where run: "bind (bread ROOTDEV bn) (\<lambda>b. block [upd_buf b (b_data_update (\<lambda>_. d)), bwrite b, brelse b]) s = Ok () t" and Q: "?Q t"
    by (auto simp: wpc_def split: outcome.splits)
  have "bread_pre p t bn" using Q pre by (simp add: bread_pre_def)
  then have "wpc (bread ROOTDEV bn) (\<lambda>i u. b_data (bufs u i) = d \<and> bview u = bview t) (\<lambda>_. False) t"
    by (rule wpc_bread) (use Q in \<open>simp_all add: bread_post_def bget_post_def\<close>)
  then obtain i u where "bread ROOTDEV bn t = Ok i u" "b_data (bufs u i) = d" "bview u = bview t"
    by (auto simp: wpc_def split: outcome.splits)
  moreover have "dblock (medium t) bn = d" "k \<noteq> bn \<Longrightarrow> unat k < FSSIZE \<Longrightarrow> dblock (medium t) k = dblock (medium s) k" for k
  proof -
    have *: "bdisk (medium t) k = (if k = bn then d else bdisk (medium s) k)" for k using Q by simp
    show "dblock (medium t) bn = d" using * [of bn] bn by (simp add: bdisk_def)
    show "k \<noteq> bn \<Longrightarrow> unat k < FSSIZE \<Longrightarrow> dblock (medium t) k = dblock (medium s) k" using * [of k] by (simp add: bdisk_def)
  qed
  ultimately show ?thesis using run Q by (intro exI [of _ t] exI [of _ i] exI [of _ u]) simp
qed

theorem bread_bwrite_roundtrip_witness:
  "\<exists>t i u. bind (bread ROOTDEV 7) (\<lambda>b. block [upd_buf b (b_data_update (\<lambda>_. replicate 1024 5)), bwrite b, brelse b]) demo_cache = Ok () t
    \<and> dblock (medium t) 7 = replicate 1024 5 \<and> bread ROOTDEV 7 t = Ok i u \<and> b_data (bufs u i) = replicate 1024 5"
proof -
  have "bread_pre 0 demo_cache 7" using demo_cache_ok by (simp add: bread_pre_def)
  from bread_bwrite_roundtrip [OF this demo_cache_ok(4), of "replicate 1024 5"]
  have "\<exists>t i u. bind (bread ROOTDEV 7) (\<lambda>b. block [upd_buf b (b_data_update (\<lambda>_. replicate 1024 5)), bwrite b, brelse b]) demo_cache = Ok () t
    \<and> dblock (medium t) 7 = replicate 1024 5 \<and> bread ROOTDEV 7 t = Ok i u \<and> b_data (bufs u i) = replicate 1024 5"
    unfolding length_replicate by (simp add: BSIZE_def) blast
  then show ?thesis .
qed

section \<open>What the operations leave to the callers\<close>

text \<open>The operations of the disk driver and the cache change nothing that later parts of the kernel add to the state.\<close>

lemma keeps_more_locking [keeps_intros]:
  "keeps diskst.more (acquire l)" "keeps diskst.more (release l)" "keeps diskst.more push_off" "keeps diskst.more pop_off"
  "keeps diskst.more myproc" "keeps diskst.more the_proc" "keeps diskst.more (sleep c lk)" "keeps diskst.more (wakeup ch)"
  by (rule keeps_locking keeps_sleeping; simp add: base_effects)+

lemma keeps_more_switch [keeps_intros]:
  "keeps diskst.more sched_begin" "keeps diskst.more (sleep_begin c lk)" "keeps diskst.more (sleep_end p i lk)" "keeps diskst.more intr_on" "keeps diskst.more intr_off"
  "keeps diskst.more scheduler_leave" "keeps diskst.more (scheduler_enter p)" "keeps diskst.more device_runs"
proof -
  show 1: "keeps diskst.more sched_begin" unfolding sched_begin_def by (intro keeps_intros)
  then show "keeps diskst.more (sleep_begin c lk)" unfolding sleep_begin_def by (intro keeps_intros) simp_all
  show "keeps diskst.more intr_on" "keeps diskst.more intr_off" by (simp_all add: keeps_def run_intr_on run_intr_off base_effects)
  show "keeps diskst.more scheduler_leave" "keeps diskst.more (scheduler_enter p)"
    unfolding scheduler_leave_def scheduler_enter_def by (intro keeps_intros; simp add: base_effects)+
  show "keeps diskst.more (sleep_end p i lk)" unfolding sleep_end_def sched_end_def by (intro keeps_intros) (simp_all add: base_effects)
  show "keeps diskst.more device_runs" by (simp add: keeps_def device_runs_def split: prod.split)
qed

lemma keeps_more_wr_reg [keeps_intros]: "keeps diskst.more (wr_reg r v)"
  unfolding wr_reg_def by (intro keeps_intros) simp

lemma keeps_more_free_desc [keeps_intros]: "keeps diskst.more (free_desc i)"
  unfolding free_desc_def by (intro keeps_intros) simp_all

lemma keeps_more_alloc_desc [keeps_intros]: "keeps diskst.more alloc_desc"
proof -
  have "keeps diskst.more (alloc_desc_scan is)" for "is"
    by (induction "is") (auto intro!: keeps_intros)
  then show ?thesis by (simp add: alloc_desc_def)
qed

lemma keeps_more_alloc3 [keeps_intros]: "keeps diskst.more alloc3_desc"
proof -
  have "keeps diskst.more (alloc3_from n got)" for n got
    by (induction n arbitrary: got) (auto intro!: keeps_intros)
  then show ?thesis by (simp add: alloc3_desc_def)
qed

lemma keeps_function:
  assumes "\<And>s. case f s of Ok a t \<Rightarrow> F t = F s | Sleep c t \<Rightarrow> F t = F s | Exit t \<Rightarrow> F t = F s | _ \<Rightarrow> True"
  shows "keeps F f"
  using assms by (simp add: keeps_def)

lemma keeps_obind:
  assumes "keeps F f" "\<And>a t. f s = Ok a t \<Longrightarrow> case g a t of Ok b u \<Rightarrow> F u = F t | Sleep c u \<Rightarrow> F u = F t | Exit u \<Rightarrow> F u = F t | _ \<Rightarrow> True"
  shows "case obind (f s) g of Ok b u \<Rightarrow> F u = F s | Sleep c u \<Rightarrow> F u = F s | Exit u \<Rightarrow> F u = F s | _ \<Rightarrow> True"
proof (cases "f s")
  case (Ok a t)
  then show ?thesis using assms(2) [OF Ok] keepsD(1) [OF assms(1) Ok] by (cases "g a t") simp_all
qed (use keepsD(2,3) [OF assms(1)] in simp_all)

lemma keeps_more_free_chain [keeps_intros]: "keeps diskst.more (free_chain i)"
proof (rule keeps_function)
  fix s :: "'r diskst_scheme"
  show "case free_chain i s of Ok a t \<Rightarrow> diskst.more t = diskst.more s | Sleep c t \<Rightarrow> diskst.more t = diskst.more s | Exit t \<Rightarrow> diskst.more t = diskst.more s | _ \<Rightarrow> True"
  proof (induction i s rule: free_chain.induct)
    case (1 i s)
    show ?case by (subst free_chain.simps, rule keeps_obind [OF keeps_more_free_desc]) (use 1 in simp)
  qed
qed

lemma keeps_more_intr [keeps_intros]: "keeps diskst.more virtio_disk_intr"
proof -
  have e: "keeps diskst.more virtio_intr_entry" unfolding virtio_intr_entry_def by (intro keeps_intros) simp_all
  have "keeps diskst.more virtio_intr_loop"
  proof (rule keeps_function)
    fix s :: "'r diskst_scheme"
    show "case virtio_intr_loop s of Ok a t \<Rightarrow> diskst.more t = diskst.more s | Sleep c t \<Rightarrow> diskst.more t = diskst.more s | Exit t \<Rightarrow> diskst.more t = diskst.more s | _ \<Rightarrow> True"
    proof (induction s rule: virtio_intr_loop.induct)
      case (1 s)
      show ?case
      proof (cases "vused_idx s = us_idx (vq_used (vq s))")
        case True
        then show ?thesis by (simp add: virtio_intr_loop.simps)
      next
        case False
        then show ?thesis by (subst virtio_intr_loop.simps) (simp, rule keeps_obind [OF e], use 1 in simp)
      qed
    qed
  qed
  moreover have "keeps diskst.more (\<lambda>s. wr_reg VIRTIO_MMIO_INTERRUPT_ACK (rd_reg VIRTIO_MMIO_INTERRUPT_STATUS s AND 3) s)"
    by (rule keeps_arg) (intro keeps_intros)
  ultimately show ?thesis unfolding virtio_disk_intr_def by (intro keeps_intros)
qed

lemma keeps_more_rw [keeps_intros]: "keeps diskst.more (virtio_disk_rw b w)"
proof -
  have "keeps diskst.more (\<lambda>s. Sleep c s)" for c by (simp add: keeps_def)
  then have s: "keeps diskst.more (disk_wait b)" unfolding disk_wait_def disk_sleep_def by (intro keeps_intros)
  have "keeps diskst.more (virtio_format b w i0 i1 i2)" for i0 i1 i2 unfolding virtio_format_def by (intro keeps_intros) simp_all
  moreover have "keeps diskst.more (virtio_submit b i0)" for i0 unfolding virtio_submit_def by (intro keeps_intros) simp_all
  ultimately show ?thesis unfolding virtio_disk_rw_def using s
    by (auto intro!: keeps_intros split: option.split list.split)
qed

lemma keeps_more_sleeplock [keeps_intros]:
  "keeps diskst.more (acquiresleep l)" "keeps diskst.more (releasesleep l)" "keeps diskst.more (holdingsleep l)"
  unfolding acquiresleep_def acquiresleep_loop_def releasesleep_def holdingsleep_def by (intro keeps_intros; simp)+

lemma keeps_more_bget [keeps_intros]: "keeps diskst.more (bget d bn)"
proof -
  have f: "keeps diskst.more (\<lambda>s. bget_find n P dir (g s) s)" for n P dir and g :: "'r diskst_scheme \<Rightarrow> nat"
  proof (rule keeps_function)
    fix s :: "'r diskst_scheme"
    have "case bget_find n P dir b s of Ok a t \<Rightarrow> t = s | Sleep c t \<Rightarrow> t = s | Exit t \<Rightarrow> t = s | _ \<Rightarrow> True" for b
      by (induction n arbitrary: b) (simp_all add: run_simps)
    from this [of "g s"] show "case bget_find n P dir (g s) s of Ok a t \<Rightarrow> diskst.more t = diskst.more s | Sleep c t \<Rightarrow> diskst.more t = diskst.more s
      | Exit t \<Rightarrow> diskst.more t = diskst.more s | _ \<Rightarrow> True" by (simp split: outcome.splits)
  qed
  show ?thesis unfolding bget_def by (intro keeps_intros f) simp_all
qed

lemma keeps_more_bio [keeps_intros]:
  "keeps diskst.more (bread d bn)" "keeps diskst.more (bwrite b)" "keeps diskst.more (brelse b)" "keeps diskst.more (bpin b)" "keeps diskst.more (bunpin b)"
proof -
  show "keeps diskst.more (bread d bn)" "keeps diskst.more (bwrite b)" "keeps diskst.more (bpin b)" "keeps diskst.more (bunpin b)"
    unfolding bread_def bwrite_def bpin_def bunpin_def by (intro keeps_intros; simp)+
  have "keeps diskst.more (\<lambda>s. upd_buf (f s) (g s) s)" for f and g :: "'r diskst_scheme \<Rightarrow> buf \<Rightarrow> buf" by (simp add: keeps_def run_simps)
  then have "keeps diskst.more (brelse_move b)" unfolding brelse_move_def by (intro keeps_intros) simp_all
  then show "keeps diskst.more (brelse b)" unfolding brelse_def by (intro keeps_intros) simp_all
qed

end
