(* ===== verification/Xv6_Log.thy ===== *)
theory Xv6_Log
  imports Xv6_Bio
begin

text \<open>
  The write-ahead log \<^verbatim>\<open>kernel/log.c\<close>.  The blocks of a transaction are pinned in the cache by \<^verbatim>\<open>log_write\<close>;
  \<^verbatim>\<open>commit\<close> copies them to the log, writes the header, installs them at their home locations and clears the
  header.  The lemmas give each operation in terms of what the cache shows (\<open>bview\<close>) and what is on the medium
  (\<open>bdisk\<close>).  The power may fail before any disk request: the theorems are about what \<^verbatim>\<open>initlog\<close> then makes of the medium.

  The loops over the header run \<^verbatim>\<open>log.lh.n\<close> times; nothing in their bodies changes it.  The array of block numbers
  is a function; the theorems are about headers with at most \<^verbatim>\<open>LOGSIZE\<close> entries.
\<close>

section \<open>State\<close>

record superblock =
  sb_magic :: u32
  sb_size :: u32
  sb_nblocks :: u32
  sb_ninodes :: u32
  sb_nlog :: u32
  sb_logstart :: u32
  sb_inodestart :: u32
  sb_bmapstart :: u32

record logheader =
  lh_n :: int
  lh_block :: "nat \<Rightarrow> u32"

record klog =
  lg_start :: int
  lg_size :: int
  lg_outstanding :: int
  lg_committing :: int
  lg_dev :: u32
  lg_lh :: logheader

record logst = diskst +
  log :: klog

abbreviation upd_log :: "(klog \<Rightarrow> klog) \<Rightarrow> ('r logst_scheme, unit) kprog" where
  "upd_log f \<equiv> modify (\<lambda>s. s\<lparr>log := f (log s)\<rparr>)"

text \<open>The header as it stands in a block: \<^verbatim>\<open>n\<close>, then the block numbers.\<close>

definition hdr_n :: "u8 list \<Rightarrow> int" where
  "hdr_n d = sint (unle (slice d 0 4) :: u32)"

definition hdr_block :: "u8 list \<Rightarrow> nat \<Rightarrow> u32" where
  "hdr_block d i = unle (slice d (4 + 4 * i) 4)"

definition hdr_put :: "logheader \<Rightarrow> u8 list \<Rightarrow> u8 list" where
  "hdr_put lh d = fold (\<lambda>i d. splice d (4 + 4 * i) (le 4 (lh_block lh i))) [0..<nat (lh_n lh)]
     (splice d 0 (le 4 (word_of_int (lh_n lh) :: u32)))"

section \<open>Operations\<close>

text \<open>The block of the log that holds entry \<open>tail\<close>.\<close>

definition log_block :: "klog \<Rightarrow> nat \<Rightarrow> u32" where
  "log_block l tail = word_of_int (lg_start l + int tail + 1)"

definition install_one :: "bool \<Rightarrow> nat \<Rightarrow> ('r logst_scheme, unit) kprog" where
  "install_one recovering tail =
     bind (\<lambda>s. bread (lg_dev (log s)) (log_block (log s) tail) s) (\<lambda>lbuf.
     bind (\<lambda>s. bread (lg_dev (log s)) (lh_block (lg_lh (log s)) tail) s) (\<lambda>dbuf. block [
       (\<lambda>s. upd_buf dbuf (b_data_update (\<lambda>_. b_data (bufs s lbuf))) s),
       bwrite dbuf,
       whenK (\<not> recovering) (bunpin dbuf),
       brelse lbuf,
       brelse dbuf]))"

definition install_trans :: "bool \<Rightarrow> ('r logst_scheme, unit) kprog" where
  "install_trans recovering s = forK (install_one recovering) [0..<nat (lh_n (lg_lh (log s)))] s"

definition read_head_one :: "nat \<Rightarrow> nat \<Rightarrow> ('r logst_scheme, unit) kprog" where
  "read_head_one b i = modify (\<lambda>s. s\<lparr>log := lg_lh_update (lh_block_update (\<lambda>f. f(i := hdr_block (b_data (bufs s b)) i))) (log s)\<rparr>)"

definition read_head :: "('r logst_scheme, unit) kprog" where
  "read_head = bind (\<lambda>s. bread (lg_dev (log s)) (word_of_int (lg_start (log s))) s) (\<lambda>b. block [
     (\<lambda>s. upd_log (lg_lh_update (lh_n_update (\<lambda>_. hdr_n (b_data (bufs s b))))) s),
     (\<lambda>s. forK (read_head_one b) [0..<nat (lh_n (lg_lh (log s)))] s),
     brelse b])"

definition write_head :: "('r logst_scheme, unit) kprog" where
  "write_head = bind (\<lambda>s. bread (lg_dev (log s)) (word_of_int (lg_start (log s))) s) (\<lambda>b. block [
     (\<lambda>s. upd_buf b (b_data_update (hdr_put (lg_lh (log s)))) s),
     bwrite b,
     brelse b])"

definition recover_from_log :: "('r logst_scheme, unit) kprog" where
  "recover_from_log = block [
     read_head,
     install_trans True,
     upd_log (lg_lh_update (lh_n_update (\<lambda>_. 0))),
     write_head]"

definition initlog :: "u32 \<Rightarrow> superblock \<Rightarrow> ('r logst_scheme, unit) kprog" where
  "initlog dev sb = block [
     panic_if (\<lambda>_. BSIZE \<le> 4 + 4 * LOGSIZE) ''initlog: too big logheader'',
     initlock L_log ''log'',
     upd_log (lg_start_update (\<lambda>_. sint (sb_logstart sb))),
     upd_log (lg_size_update (\<lambda>_. sint (sb_nlog sb))),
     upd_log (lg_dev_update (\<lambda>_. dev)),
     recover_from_log]"

definition begin_op_loop :: "('r logst_scheme, unit) kprog" where
  "begin_op_loop = ifS (\<lambda>s. lg_committing (log s) \<noteq> 0) (sleep Ch_log L_log)
     (ifS (\<lambda>s. lh_n (lg_lh (log s)) + (lg_outstanding (log s) + 1) * MAXOPBLOCKS > LOGSIZE) (sleep Ch_log L_log)
       (block [
         upd_log (lg_outstanding_update (\<lambda>n. n + 1)),
         release L_log]))"

definition begin_op :: "('r logst_scheme, unit) kprog" where
  "begin_op = block [acquire L_log, begin_op_loop]"

definition write_log_one :: "nat \<Rightarrow> ('r logst_scheme, unit) kprog" where
  "write_log_one tail =
     bind (\<lambda>s. bread (lg_dev (log s)) (log_block (log s) tail) s) (\<lambda>to.
     bind (\<lambda>s. bread (lg_dev (log s)) (lh_block (lg_lh (log s)) tail) s) (\<lambda>from. block [
       (\<lambda>s. upd_buf to (b_data_update (\<lambda>_. b_data (bufs s from))) s),
       bwrite to,
       brelse from,
       brelse to]))"

definition write_log :: "('r logst_scheme, unit) kprog" where
  "write_log s = forK write_log_one [0..<nat (lh_n (lg_lh (log s)))] s"

definition commit :: "('r logst_scheme, unit) kprog" where
  "commit = whenS (\<lambda>s. lh_n (lg_lh (log s)) > 0) (block [
     write_log,
     write_head,
     install_trans False,
     upd_log (lg_lh_update (lh_n_update (\<lambda>_. 0))),
     write_head])"

definition end_op :: "('r logst_scheme, unit) kprog" where
  "end_op = seqK [
     acquire L_log,
     upd_log (lg_outstanding_update (\<lambda>n. n - 1)),
     panic_if (\<lambda>s. lg_committing (log s) \<noteq> 0) ''log.committing'']
     (bind (ifS (\<lambda>s. lg_outstanding (log s) = 0)
        (seqK [upd_log (lg_committing_update (\<lambda>_. 1))] (ret True))
        (seqK [wakeup (Some Ch_log)] (ret False))) (\<lambda>do_commit. block [
       release L_log,
       whenK do_commit (block [
         commit,
         acquire L_log,
         upd_log (lg_committing_update (\<lambda>_. 0)),
         wakeup (Some Ch_log),
         release L_log])]))"

text \<open>The loop of \<^verbatim>\<open>log_write\<close>: the first entry of the header for the block, or \<^verbatim>\<open>log.lh.n\<close>.\<close>

definition log_find :: "logheader \<Rightarrow> u32 \<Rightarrow> nat" where
  "log_find lh bn = (case find (\<lambda>i. lh_block lh i = bn) [0..<nat (lh_n lh)] of Some i \<Rightarrow> i | None \<Rightarrow> nat (lh_n lh))"

definition log_write :: "nat \<Rightarrow> ('r logst_scheme, unit) kprog" where
  "log_write b = block [
     acquire L_log,
     panic_if (\<lambda>s. lh_n (lg_lh (log s)) \<ge> LOGSIZE \<or> lh_n (lg_lh (log s)) \<ge> lg_size (log s) - 1) ''too big a transaction'',
     panic_if (\<lambda>s. lg_outstanding (log s) < 1) ''log_write outside of trans'',
     bind (gets (\<lambda>s. log_find (lg_lh (log s)) (b_blockno (bufs s b)))) (\<lambda>i. block [
       (\<lambda>s. upd_log (lg_lh_update (lh_block_update (\<lambda>f. f(i := b_blockno (bufs s b))))) s),
       whenS (\<lambda>s. i = nat (lh_n (lg_lh (log s)))) (block [
         bpin b,
         upd_log (lg_lh_update (lh_n_update (\<lambda>n. n + 1)))])]),
     release L_log]"

section \<open>Frame\<close>

lemma logst_sel_frame [simp]:
  "log (acquired l s) = log s" "log (released l s) = log s" "log (cycled s) = log s"
  "log (sie_on s) = log s" "log (sie_off s) = log s" "log (upd_mycpu h s) = log s"
  by (simp_all add: base_effects)

lemma logst_upd_frame [simp]:
  "acquired l (log_update g0 s) = log_update g0 (acquired l s)" "released l (log_update g0 s) = log_update g0 (released l s)"
  "cycled (log_update g0 s) = log_update g0 (cycled s)" "sie_on (log_update g0 s) = log_update g0 (sie_on s)"
  "sie_off (log_update g0 s) = log_update g0 (sie_off s)" "upd_mycpu h (log_update g0 s) = log_update g0 (upd_mycpu h s)"
  by (simp_all add: base_effects)

lemma logst_base_frame [simp]:
  "cpuid (log_update g0 s) = cpuid s" "mycpu (log_update g0 s) = mycpu s" "intr_get (log_update g0 s) = intr_get s"
  "holding l (log_update g0 s) = holding l s" "unlocked l (log_update g0 s) = unlocked l s" "intr_sane (log_update g0 s) = intr_sane s"
  by (simp_all add: cpuid_def r_tp_def mycpu_def intr_get_bit holding_def unlocked_def intr_sane_def)

section \<open>The header on disk\<close>

lemma length_hdr_fold:
  assumes "length d = BSIZE" "n \<le> LOGSIZE"
  shows "length (fold (\<lambda>i d. splice d (4 + 4 * i) (le 4 (f i :: u32))) [0..<n] d) = BSIZE"
  using assms by (induction n) (simp_all del: splice_Nil)

lemma slice_hdr_fold_below:
  assumes "length d = BSIZE" "n \<le> LOGSIZE"
  shows "slice (fold (\<lambda>i d. splice d (4 + 4 * i) (le 4 (f i :: u32))) [0..<n] d) 0 4 = slice d 0 4"
  using assms
proof (induction n)
  case (Suc n)
  then have "length (fold (\<lambda>i d. splice d (4 + 4 * i) (le 4 (f i :: u32))) [0..<n] d) = BSIZE" by (intro length_hdr_fold) simp_all
  with Suc show ?case by (simp add: slice_splice_disjoint)
qed simp

lemma slice_hdr_fold:
  assumes "length d = BSIZE" "n \<le> LOGSIZE" "j < n"
  shows "slice (fold (\<lambda>i d. splice d (4 + 4 * i) (le 4 (f i :: u32))) [0..<n] d) (4 + 4 * j) 4 = le 4 (f j)"
  using assms
proof (induction n)
  case (Suc n)
  then have len: "length (fold (\<lambda>i d. splice d (4 + 4 * i) (le 4 (f i :: u32))) [0..<n] d) = BSIZE" by (intro length_hdr_fold) simp_all
  show ?case
  proof (cases "j = n")
    case True
    then show ?thesis using Suc.prems(2) len slice_splice_same [of "4 + 4 * n" "le 4 (f n)"] by simp
  next
    case False
    then show ?thesis using Suc len by (simp add: slice_splice_disjoint)
  qed
qed simp

lemma sint_word_of_int: "- (2 ^ 31) \<le> k \<Longrightarrow> k < 2 ^ 31 \<Longrightarrow> sint (word_of_int k :: u32) = k"
  by transfer (simp add: signed_take_bit_int_eq_self)

lemma hdr_put:
  assumes "length d = BSIZE" "0 \<le> lh_n lh" "lh_n lh \<le> LOGSIZE"
  shows "length (hdr_put lh d) = BSIZE" "hdr_n (hdr_put lh d) = lh_n lh" "j < nat (lh_n lh) \<Longrightarrow> hdr_block (hdr_put lh d) j = lh_block lh j"
proof -
  let ?d = "splice d 0 (le 4 (word_of_int (lh_n lh) :: u32))"
  have n: "length ?d = BSIZE" "nat (lh_n lh) \<le> LOGSIZE" using assms by simp_all
  show "length (hdr_put lh d) = BSIZE" unfolding hdr_put_def by (rule length_hdr_fold [OF n])
  have "slice ?d 0 4 = le 4 (word_of_int (lh_n lh) :: u32)" using assms(1) slice_splice_same [of 0 "le 4 (word_of_int (lh_n lh) :: u32)" d] by simp
  then have "hdr_n (hdr_put lh d) = sint (word_of_int (lh_n lh) :: u32)"
    unfolding hdr_n_def hdr_put_def slice_hdr_fold_below [OF n] by simp
  also have "\<dots> = lh_n lh" using assms(2,3) by (simp add: sint_word_of_int)
  finally show "hdr_n (hdr_put lh d) = lh_n lh" .
  show "hdr_block (hdr_put lh d) j = lh_block lh j" if "j < nat (lh_n lh)"
    unfolding hdr_block_def hdr_put_def slice_hdr_fold [OF n that] by simp
qed

section \<open>Layout\<close>

text \<open>The log takes the blocks from \<open>a\<close> to \<open>a + sz\<close>; all others are home locations.\<close>

definition home :: "nat \<Rightarrow> nat \<Rightarrow> u32 \<Rightarrow> bool" where
  "home a sz bn \<longleftrightarrow> unat bn < FSSIZE \<and> \<not> (a \<le> unat bn \<and> unat bn < a + sz)"

definition hdr_ok :: "nat \<Rightarrow> nat \<Rightarrow> int \<Rightarrow> (nat \<Rightarrow> u32) \<Rightarrow> bool" where
  "hdr_ok a sz n blk \<longleftrightarrow> 0 \<le> n \<and> n \<le> LOGSIZE \<and> n < int sz \<and> distinct (map blk [0..<nat n]) \<and> (\<forall>i<nat n. home a sz (blk i))"

definition log_at :: "nat \<Rightarrow> nat \<Rightarrow> klog \<Rightarrow> bool" where
  "log_at a sz l \<longleftrightarrow> lg_start l = int a \<and> lg_size l = int sz \<and> 0 < sz \<and> a + sz \<le> FSSIZE \<and> lg_dev l = ROOTDEV"

text \<open>The contents of the disk after the log has been replayed.\<close>

definition log_replay :: "nat \<Rightarrow> (u32 \<Rightarrow> u8 list) \<Rightarrow> u32 \<Rightarrow> u8 list" where
  "log_replay a D bn = (case find (\<lambda>i. hdr_block (D (of_nat a)) i = bn) [0..<nat (hdr_n (D (of_nat a)))] of
     Some i \<Rightarrow> D (of_nat (a + i + 1)) | None \<Rightarrow> D bn)"

definition disk_log_ok :: "nat \<Rightarrow> nat \<Rightarrow> (u32 \<Rightarrow> u8 list) \<Rightarrow> bool" where
  "disk_log_ok a sz D \<longleftrightarrow> hdr_ok a sz (hdr_n (D (of_nat a))) (hdr_block (D (of_nat a)))"

lemma unat_of_nat_32: "k < 2 ^ 32 \<Longrightarrow> unat (of_nat k :: u32) = k"
  by (rule of_nat_inverse) auto

lemma log_block_at:
  assumes "log_at a sz l" "i + 1 < sz"
  shows "log_block l i = of_nat (a + i + 1)" "unat (log_block l i) = a + i + 1" "unat (log_block l i) < FSSIZE"
proof -
  show 1: "log_block l i = of_nat (a + i + 1)" using assms by (simp add: log_block_def log_at_def)
  show "unat (log_block l i) = a + i + 1" unfolding 1 using assms by (intro unat_of_nat_32) (simp add: log_at_def)
  then show "unat (log_block l i) < FSSIZE" using assms by (simp add: log_at_def)
qed

lemma log_start_at:
  assumes "log_at a sz l"
  shows "word_of_int (lg_start l) = (of_nat a :: u32)" "unat (of_nat a :: u32) = a" "a < FSSIZE"
proof -
  show "word_of_int (lg_start l) = (of_nat a :: u32)" using assms by (simp add: log_at_def)
  show "a < FSSIZE" using assms by (simp add: log_at_def)
  then show "unat (of_nat a :: u32) = a" by (intro unat_of_nat_32) simp
qed

lemma home_not_log:
  assumes "home a sz bn" "log_at a sz l" "i + 1 < sz"
  shows "bn \<noteq> log_block l i" "bn \<noteq> of_nat a"
proof -
  have "unat bn \<noteq> unat (log_block l i)" using assms log_block_at(2) [OF assms(2,3)] by (auto simp: home_def)
  then show "bn \<noteq> log_block l i" by blast
  have "unat bn \<noteq> unat (of_nat a :: u32)" using assms log_start_at(2) [OF assms(2)] by (auto simp: home_def)
  then show "bn \<noteq> of_nat a" by blast
qed

lemma log_block_inj:
  assumes "log_at a sz l" "i + 1 < sz" "j + 1 < sz" "i \<noteq> j"
  shows "log_block l i \<noteq> log_block l j" 
  using log_block_at(2) [OF assms(1,2)] log_block_at(2) [OF assms(1,3)] assms(4) by auto

lemma log_block_not_start:
  assumes "log_at a sz l" "i + 1 < sz"
  shows "log_block l i \<noteq> of_nat a"
  using log_block_at(2) [OF assms] log_start_at(2) [OF assms(1)] by auto

lemma find_index:
  assumes "distinct (map f [0..<n])" "i < n"
  shows "find (\<lambda>j. f j = f i) [0..<n] = Some i"
proof (rule find_unique)
  fix j
  assume "j \<in> set [0..<n]" "f j = f i"
  then show "j = i" using assms by (auto simp: distinct_map inj_on_def)
qed (use assms in simp_all)

lemma log_replay_entry:
  assumes "disk_log_ok a sz D" "i < nat (hdr_n (D (of_nat a)))"
  shows "log_replay a D (hdr_block (D (of_nat a)) i) = D (of_nat (a + i + 1))"
  using assms find_index [of "hdr_block (D (of_nat a))" "nat (hdr_n (D (of_nat a)))" i]
  by (simp add: log_replay_def disk_log_ok_def hdr_ok_def)

lemma log_replay_other:
  assumes "\<And>i. i < nat (hdr_n (D (of_nat a))) \<Longrightarrow> hdr_block (D (of_nat a)) i \<noteq> bn"
  shows "log_replay a D bn = D bn"
proof -
  have "find (\<lambda>i. hdr_block (D (of_nat a)) i = bn) [0..<nat (hdr_n (D (of_nat a)))] = None"
    using assms unfolding find_None_iff by auto
  then show ?thesis by (simp add: log_replay_def)
qed

lemma log_replay_empty: "hdr_n (D (of_nat a)) = 0 \<Longrightarrow> log_replay a D = D"
  by (rule ext, rule log_replay_other) simp

section \<open>Reading and writing blocks\<close>

lemma wpc_modify_arg [wp_simps]: "wpc (\<lambda>s. modify (h s) s) R C = (\<lambda>s. R () (h s s))"
  by (simp add: wpc_def run_simps fun_eq_iff)

lemma bframe_log: "bframe p s t \<Longrightarrow> log t = log s" for s :: "'r logst_scheme"
  by (cases s, cases t) (simp add: bframe_def)

lemma bframe_logmore: "bframe p s t \<Longrightarrow> logst.more t = logst.more s" for s :: "'r logst_scheme"
  by (cases s, cases t) (simp add: bframe_def)

lemma wpc_bread_arg:
  fixes s :: "'r diskst_scheme"
  assumes "d s = ROOTDEV" "b s = bn" "bread_pre p s bn" "\<And>t. power s \<noteq> None \<Longrightarrow> medium t = medium s \<Longrightarrow> C t" "\<And>i t. bread_post p s bn i t \<Longrightarrow> Q i t"
  shows "wpc (\<lambda>s. bread (d s) (b s) s) Q C s"
proof -
  have "wpc (bread (d s) (b s)) Q C s" unfolding assms(1,2) by (rule wpc_bread [OF assms(3)]) (use assms(4,5) in simp_all)
  then show ?thesis by (simp add: wpc_def)
qed

text \<open>The state after the buffer of block \<open>bn\<close> has been taken.\<close>

definition btaken :: "nat \<Rightarrow> 'r diskst_scheme \<Rightarrow> 'r diskst_scheme \<Rightarrow> u32 set \<Rightarrow> bool" where
  "btaken p s t X \<longleftrightarrow> bframe p s t \<and> medium t = medium s \<and> bview t = bview s
     \<and> brefs t = (\<lambda>k. if k \<in> X then Suc (brefs s k) else brefs s k) \<and> blocked t = (\<lambda>k. k \<in> X \<or> blocked s k)
     \<and> (power s = None \<longrightarrow> power t = None)"

lemma bowned_data:
  assumes "bowned p s bn i"
  shows "b_data (bufs s i) = bview s bn" "length (bview s bn) = BSIZE"
  using bownedD [OF assms] by (simp_all add: buf_ok_def)

lemma bread_post_taken: "bread_post p s bn i t \<Longrightarrow> btaken p s t {bn}"
  by (auto simp: bread_post_def bget_post_def btaken_def bframe_def fun_eq_iff)

lemma wpc_two_reads:
  fixes s :: "'r logst_scheme"
  assumes dev: "lg_dev (log s) = ROOTDEV" and b1: "f1 (log s) = L" and b2: "f2 (log s) = B" and ne: "L \<noteq> B"
    and pre: "bread_pre p s L" and B: "unat B < FSSIZE" "\<not> blocked s B" "brefs s B < 2 ^ 32 - 1" "brefs s B = 0 \<Longrightarrow> Suc (card {k. 0 < brefs s k}) < NBUF"
    and C: "\<And>t. power s \<noteq> None \<Longrightarrow> medium t = medium s \<Longrightarrow> C t"
    and Q: "\<And>x y t. bowned p t L x \<Longrightarrow> bowned p t B y \<Longrightarrow> btaken p s t {L, B} \<Longrightarrow> Q x y t"
  shows "wpc (\<lambda>s. bread (lg_dev (log s)) (f1 (log s)) s) (\<lambda>x. wpc (\<lambda>s. bread (lg_dev (log s)) (f2 (log s)) s) (Q x) C) C s"
proof (rule wpc_bread_arg [where p = p and bn = L])
  show "lg_dev (log s) = ROOTDEV" "f1 (log s) = L" "bread_pre p s L" by (fact dev b1 pre)+
  show "power s \<noteq> None \<Longrightarrow> medium t = medium s \<Longrightarrow> C t" for t by (rule C)
next
  fix x t
  assume t: "bread_post p s L x t"
  have L: "unat L < FSSIZE" using pre by (simp add: bread_pre_def)
  note own = bread_post_owned [OF t L]
  have T: "bframe p s t" "binv p t" "medium t = medium s" "bview t = bview s" "brefs t = (brefs s)(L := Suc (brefs s L))" "blocked t = (blocked s)(L := True)"
    "power s = None \<longrightarrow> power t = None"
    using t by (simp_all add: bread_post_def bget_post_def bframe_def)
  have sub: "card {k. 0 < brefs t k} \<le> Suc (card {k. 0 < brefs s k})"
  proof -
    have "{k. 0 < brefs t k} = insert L {k. 0 < brefs s k}" unfolding T(5) by auto
    moreover have "card (insert L {k. 0 < brefs s k}) \<le> Suc (card {k. 0 < brefs s k})" by (rule card_insert_le_m1) simp_all
    ultimately show ?thesis by simp
  qed
  have r: "brefs t B = brefs s B" using T(5) ne by simp
  have "brefs t B = 0 \<longrightarrow> card {k. 0 < brefs t k} < NBUF" using sub B(4) unfolding r by linarith
  then have pre2: "bread_pre p t B" using B(1-3) T(2,6) ne unfolding bread_pre_def r by simp
  show "wpc (\<lambda>s. bread (lg_dev (log s)) (f2 (log s)) s) (Q x) C t"
  proof (rule wpc_bread_arg [where p = p and bn = B])
    show "bread_pre p t B" by (rule pre2)
    show "lg_dev (log t) = ROOTDEV" "f2 (log t) = B" using dev b2 bframe_log [OF T(1)] by simp_all
    show "power t \<noteq> None \<Longrightarrow> medium u = medium t \<Longrightarrow> C u" for u using C T(3,7) by auto
  next
    fix y u
    assume u: "bread_post p t B y u"
    have U: "binv p u" "bkeep p t B u" using u by (simp_all add: bread_post_def bget_post_def)
    have "btaken p s u {L, B}" using bread_post_taken [OF t] bread_post_taken [OF u] ne
      by (auto simp: btaken_def fun_eq_iff intro: bframe_trans)
    then show "Q x y u" using bkeepD [OF U(2,1) own ne] bread_post_owned [OF u B(1)] Q by blast
  qed
qed

lemma wpc_overwrite:
  fixes s :: "'r diskst_scheme"
  assumes own: "bowned p s bn i" and d: "length d = BSIZE" and C: "\<And>t. power s \<noteq> None \<Longrightarrow> medium t = medium s \<Longrightarrow> C t"
    and Q: "\<And>t. bowned p t bn i \<Longrightarrow> bframe p s t \<Longrightarrow> bview t = (bview s)(bn := d) \<Longrightarrow> brefs t = brefs s \<Longrightarrow> blocked t = blocked s
      \<Longrightarrow> bdisk (medium t) = (bdisk (medium s))(bn := d) \<Longrightarrow> bkeep p s bn t \<Longrightarrow> Q () t"
  shows "wpc (bwrite i) Q C (s\<lparr>bufs := (bufs s)(i := (bufs s i)\<lparr>b_data := d\<rparr>)\<rparr>)"
proof -
  note B = bset_owned [OF own d]
  show ?thesis
  proof (rule wpc_bwrite [OF B(1)])
    show "C t" if "power (s\<lparr>bufs := (bufs s)(i := (bufs s i)\<lparr>b_data := d\<rparr>)\<rparr>) \<noteq> None" "medium t = medium (s\<lparr>bufs := (bufs s)(i := (bufs s i)\<lparr>b_data := d\<rparr>)\<rparr>)" for t
      using C that by simp
  next
    fix t
    assume t: "bwrite_post p (s\<lparr>bufs := (bufs s)(i := (bufs s i)\<lparr>b_data := d\<rparr>)\<rparr>) bn i t"
    show "Q () t"
    proof (rule Q)
      show "bowned p t bn i" "brefs t = brefs s" "blocked t = blocked s" "bview t = (bview s)(bn := d)"
        using t B by (simp_all add: bwrite_post_def)
      show "bframe p s t" using t B(5) by (auto simp: bwrite_post_def intro: bframe_trans)
      show "bdisk (medium t) = (bdisk (medium s))(bn := d)" using t B(2,6) by (simp add: bwrite_post_def)
      show "bkeep p s bn t" using t B(1,7) by (auto simp: bwrite_post_def bowned_def intro: bkeep_trans)
    qed
  qed
qed

text \<open>The effect of an operation on what the cache shows, the references and the disk.\<close>

definition bchange :: "nat \<Rightarrow> 'r diskst_scheme \<Rightarrow> (u32 \<Rightarrow> u8 list) \<Rightarrow> (u32 \<Rightarrow> nat) \<Rightarrow> (u32 \<Rightarrow> u8 list) \<Rightarrow> 'r diskst_scheme \<Rightarrow> bool" where
  "bchange p s V R D t \<longleftrightarrow> binv p t \<and> bframe p s t \<and> bview t = V \<and> brefs t = R \<and> blocked t = blocked s \<and> bdisk (medium t) = D"

lemma btakenD:
  assumes "btaken p s t X"
  shows "bframe p s t" "medium t = medium s" "bview t = bview s" "brefs t = (\<lambda>k. if k \<in> X then Suc (brefs s k) else brefs s k)"
    "blocked t = (\<lambda>k. k \<in> X \<or> blocked s k)" "power s = None \<longrightarrow> power t = None"
  using assms unfolding btaken_def by blast+

lemma wpc_brelse:
  fixes s :: "'r diskst_scheme"
  assumes "bowned p s bn i" "brefs s bn = 1 \<Longrightarrow> bview s bn = bdisk (medium s) bn" "\<And>t. brelse_post p s bn t \<Longrightarrow> Q () t"
  shows "wpc (brelse i) Q C s"
  by (rule wpc_mono [OF wp_wpc [OF wp_brelse [OF assms(1,2)]]]) (use assms(3) in auto)

text \<open>Releasing two buffers.\<close>

lemma wpc_two_releases:
  fixes s :: "'r diskst_scheme"
  assumes own: "bowned p s X x" "bowned p s Y y" and ne: "X \<noteq> Y"
    and cl: "brefs s X = 1 \<Longrightarrow> bview s X = bdisk (medium s) X" "brefs s Y = 1 \<Longrightarrow> bview s Y = bdisk (medium s) Y"
    and Q: "\<And>t. binv p t \<Longrightarrow> bframe p s t \<Longrightarrow> bview t = bview s \<Longrightarrow> medium t = medium s
      \<Longrightarrow> brefs t = (brefs s)(X := brefs s X - 1, Y := brefs s Y - 1) \<Longrightarrow> blocked t = (blocked s)(X := False, Y := False) \<Longrightarrow> Q () t"
  shows "wpc (brelse x) (\<lambda>_. wpc (brelse y) Q C) C s"
proof (rule wpc_brelse [OF own(1) cl(1)])
  fix t
  assume t: "brelse_post p s X t"
  then have own': "bowned p t Y y" using own(2) ne by (auto simp: brelse_post_def intro: bkeepD)
  show "wpc (brelse y) Q C t"
  proof (rule wpc_brelse [OF own'])
    show "bview t Y = bdisk (medium t) Y" if "brefs t Y = 1" using that cl(2) t ne by (simp add: brelse_post_def)
  next
    fix u
    assume u: "brelse_post p t Y u"
    show "Q () u" by (rule Q) (use t u ne in \<open>auto simp: brelse_post_def intro: bframe_trans\<close>)
  qed
qed simp

definition copy_pre :: "nat \<Rightarrow> 'r diskst_scheme \<Rightarrow> u32 \<Rightarrow> u32 \<Rightarrow> bool" where
  "copy_pre p s L B \<longleftrightarrow> binv p s \<and> L \<noteq> B \<and> unat L < FSSIZE \<and> unat B < FSSIZE \<and> \<not> blocked s L \<and> \<not> blocked s B
     \<and> brefs s L < 2 ^ 32 - 2 \<and> brefs s B < 2 ^ 32 - 2 \<and> card {k. 0 < brefs s k} < NBUF
     \<and> (brefs s B = 0 \<longrightarrow> Suc (card {k. 0 < brefs s k}) < NBUF)"

lemma wpc_write_log_one:
  fixes s :: "'r logst_scheme"
  assumes dev: "lg_dev (log s) = ROOTDEV" and L: "log_block (log s) i = L" and B: "lh_block (lg_lh (log s)) i = B" and pre: "copy_pre p s L B"
    and C: "\<And>t. power s \<noteq> None \<Longrightarrow> medium t = medium s \<Longrightarrow> C t"
    and Q: "\<And>t. bchange p s ((bview s)(L := bview s B)) (brefs s) ((bdisk (medium s))(L := bview s B)) t \<Longrightarrow> Q () t"
  shows "wpc (write_log_one i) Q C s"
proof -
  have P: "L \<noteq> B" "bread_pre p s L" "unat B < FSSIZE" "\<not> blocked s B" "\<not> blocked s L" "brefs s B < 2 ^ 32 - 1" "binv p s"
    "brefs s B = 0 \<Longrightarrow> Suc (card {k. 0 < brefs s k}) < NBUF"
    using pre by (simp_all add: copy_pre_def bread_pre_def)
  show ?thesis unfolding write_log_one_def wpc_bind
  proof (rule wpc_two_reads [OF dev _ _ P(1-4,6,8) C])
    show "log_block (log s) i = L" "lh_block (lg_lh (log s)) i = B" by (fact L B)+
  next
    fix x y t
    assume own: "bowned p t L x" "bowned p t B y" and tk: "btaken p s t {L, B}"
    note T = btakenD [OF tk]
    have d: "b_data (bufs t y) = bview s B" "length (bview s B) = BSIZE" using bowned_data [OF own(2)] T(3) by simp_all
    have "wpc (bwrite x) (\<lambda>_. wpc (brelse y) (\<lambda>_. wpc (brelse x) Q C) C) C (t\<lparr>bufs := (bufs t)(x := (bufs t x)\<lparr>b_data := bview s B\<rparr>)\<rparr>)"
    proof (rule wpc_overwrite [OF own(1) d(2)])
      show "C u" if "power t \<noteq> None" "medium u = medium t" for u using C that T(2,6) by auto
    next
      fix u
      assume own1: "bowned p u L x" and U: "bframe p t u" "bview u = (bview t)(L := bview s B)" "brefs u = brefs t" "blocked u = blocked t"
        "bdisk (medium u) = (bdisk (medium t))(L := bview s B)" "bkeep p t L u"
      have own2: "bowned p u B y" using bkeepD [OF U(6) _ own(2)] own1 P(1) by (auto simp: bowned_def)
      show "wpc (brelse y) (\<lambda>_. wpc (brelse x) Q C) C u"
      proof (rule wpc_two_releases [OF own2 own1 P(1) [symmetric]])
        show "bview u B = bdisk (medium u) B" if "brefs u B = 1"
          using that unreferenced_clean [OF P(7), of B] U T P(1) by simp
        show "bview u L = bdisk (medium u) L" using U by simp
      next
        fix v
        assume V: "binv p v" "bframe p u v" "bview v = bview u" "medium v = medium u"
          "brefs v = (brefs u)(B := brefs u B - 1, L := brefs u L - 1)" "blocked v = (blocked u)(B := False, L := False)"
        have "brefs v = brefs s" "blocked v = blocked s" unfolding V(5,6) U(3,4) T(4,5) using P(4,5) by (auto simp: fun_eq_iff)
        moreover have "bframe p s v" using T(1) U(1) V(2) by (blast intro: bframe_trans)
        ultimately show "Q () v" using V(1,3,4) U(2,5) T(2,3) by (intro Q) (simp add: bchange_def)
      qed
    qed
    then show "wpc (block [\<lambda>s. upd_buf x (b_data_update (\<lambda>_. b_data (bufs s y))) s, bwrite x, brelse y, brelse x]) Q C t"
      by (simp add: wp_simps d)
  qed
qed

lemma wpc_bunpin:
  fixes s :: "'r diskst_scheme"
  assumes "bowned p s bn i" "1 < brefs s bn"
    and "\<And>t. bowned p t bn i \<Longrightarrow> bframe p s t \<Longrightarrow> bview t = bview s \<Longrightarrow> medium t = medium s \<Longrightarrow> brefs t = (brefs s)(bn := brefs s bn - 1)
      \<Longrightarrow> blocked t = blocked s \<Longrightarrow> bkeep p s bn t \<Longrightarrow> Q () t"
  shows "wpc (bunpin i) Q C s"
  by (rule wpc_mono [OF wp_wpc [OF wp_bunpin [OF assms(1,2)]]]) (use assms(3) in auto)

lemma wpc_install_one:
  fixes s :: "'r logst_scheme"
  assumes dev: "lg_dev (log s) = ROOTDEV" and L: "log_block (log s) i = L" and B: "lh_block (lg_lh (log s)) i = B" and pre: "copy_pre p s L B"
    and pin: "\<not> r \<Longrightarrow> 0 < brefs s B"
    and C: "\<And>t. power s \<noteq> None \<Longrightarrow> medium t = medium s \<Longrightarrow> C t"
    and Q: "\<And>t. bchange p s ((bview s)(B := bview s L)) (if r then brefs s else (brefs s)(B := brefs s B - 1)) ((bdisk (medium s))(B := bview s L)) t \<Longrightarrow> Q () t"
  shows "wpc (install_one r i) Q C s"
proof -
  have P: "L \<noteq> B" "bread_pre p s L" "unat B < FSSIZE" "\<not> blocked s B" "\<not> blocked s L" "brefs s B < 2 ^ 32 - 1" "binv p s"
    "brefs s B = 0 \<Longrightarrow> Suc (card {k. 0 < brefs s k}) < NBUF"
    using pre by (simp_all add: copy_pre_def bread_pre_def)
  show ?thesis unfolding install_one_def wpc_bind
  proof (rule wpc_two_reads [OF dev _ _ P(1-4,6,8) C])
    show "log_block (log s) i = L" "lh_block (lg_lh (log s)) i = B" by (fact L B)+
  next
    fix x y t
    assume own: "bowned p t L x" "bowned p t B y" and tk: "btaken p s t {L, B}"
    note T = btakenD [OF tk]
    have d: "b_data (bufs t x) = bview s L" "length (bview s L) = BSIZE" using bowned_data [OF own(1)] T(3) by simp_all
    let ?R = "\<lambda>u. if r then brefs u else (brefs u)(B := brefs u B - 1)"
    have rel: "wpc (brelse x) (\<lambda>_. wpc (brelse y) Q C) C u"
      if own12: "bowned p u L x" "bowned p u B y" and U: "bframe p t u" "bview u = (bview t)(B := bview s L)" "brefs u = ?R t" "blocked u = blocked t"
        "bdisk (medium u) = (bdisk (medium t))(B := bview s L)" for u
    proof (rule wpc_two_releases [OF own12 P(1)])
      show "bview u L = bdisk (medium u) L" if "brefs u L = 1"
        using that unreferenced_clean [OF P(7), of L] U T P(1) by (simp split: if_splits)
      show "bview u B = bdisk (medium u) B" using U by simp
    next
      fix v
      assume V: "binv p v" "bframe p u v" "bview v = bview u" "medium v = medium u"
        "brefs v = (brefs u)(L := brefs u L - 1, B := brefs u B - 1)" "blocked v = (blocked u)(L := False, B := False)"
      have "brefs v = ?R s" "blocked v = blocked s" unfolding V(5,6) U(3,4) T(4,5) using P(1,4,5) by (auto simp: fun_eq_iff)
      moreover have "bframe p s v" using T(1) U(1) V(2) by (blast intro: bframe_trans)
      ultimately show "Q () v" using V(1,3,4) U(2,5) T(2,3) by (intro Q) (simp add: bchange_def)
    qed
    have "wpc (bwrite y) (\<lambda>_. wpc (whenK (\<not> r) (bunpin y)) (\<lambda>_. wpc (brelse x) (\<lambda>_. wpc (brelse y) Q C) C) C) C (t\<lparr>bufs := (bufs t)(y := (bufs t y)\<lparr>b_data := bview s L\<rparr>)\<rparr>)"
    proof (rule wpc_overwrite [OF own(2) d(2)])
      show "C u" if "power t \<noteq> None" "medium u = medium t" for u using C that T(2,6) by auto
    next
      fix u
      assume own2: "bowned p u B y" and U: "bframe p t u" "bview u = (bview t)(B := bview s L)" "brefs u = brefs t" "blocked u = blocked t"
        "bdisk (medium u) = (bdisk (medium t))(B := bview s L)" "bkeep p t B u"
      have own1: "bowned p u L x" using bkeepD [OF U(6) _ own(1)] own2 P(1) by (auto simp: bowned_def)
      show "wpc (whenK (\<not> r) (bunpin y)) (\<lambda>_. wpc (brelse x) (\<lambda>_. wpc (brelse y) Q C) C) C u"
      proof (cases r)
        case True
        then show ?thesis using rel [OF own1 own2] U by (simp add: wp_simps)
      next
        case False
        have "wpc (bunpin y) (\<lambda>_. wpc (brelse x) (\<lambda>_. wpc (brelse y) Q C) C) C u"
        proof (rule wpc_bunpin [OF own2])
          show "1 < brefs u B" using pin [OF False] U(3) T(4) by simp
        next
          fix v
          assume V: "bowned p v B y" "bframe p u v" "bview v = bview u" "medium v = medium u" "brefs v = (brefs u)(B := brefs u B - 1)" "blocked v = blocked u" "bkeep p u B v"
          have "bowned p v L x" using bkeepD [OF V(7) _ own1] V(1) P(1) by (auto simp: bowned_def)
          then show "wpc (brelse x) (\<lambda>_. wpc (brelse y) Q C) C v"
            using False U V by (intro rel) (auto intro: bframe_trans)
        qed
        with False show ?thesis by (simp add: wp_simps)
      qed
    qed
    then show "wpc (block [\<lambda>s. upd_buf y (b_data_update (\<lambda>_. b_data (bufs s x))) s, bwrite y, whenK (\<not> r) (bunpin y), brelse x, brelse y]) Q C t"
      unfolding wpc_block seqK.simps wpc_bind wpc_modify_arg by (simp add: d wpc_basic(2))
  qed
qed

lemma log_frame [simp]:
  "quiet p (log_update f s) = quiet p s" "vdisk_ready (log_update f s) = vdisk_ready s"
  "bview (log_update f s) = bview s" "brefs (log_update f s) = brefs s" "blocked (log_update f s) = blocked s"
  "binv p (log_update f s) = binv p s" "bowned p (log_update f s) bn i = bowned p s bn i" "bheld p (log_update f s) i = bheld p s i"
proof -
  show *: "quiet p (log_update f s) = quiet p s" "vdisk_ready (log_update f s) = vdisk_ready s" "bheld p (log_update f s) i = bheld p s i"
    by (simp_all add: quiet_def vdisk_ready_def bheld_def)
  then show "binv p (log_update f s) = binv p s" by (simp add: binv_def)
  with * show "bowned p (log_update f s) bn i = bowned p s bn i" by (simp add: bowned_def)
  show "bview (log_update f s) = bview s" "brefs (log_update f s) = brefs s" "blocked (log_update f s) = blocked s"
    by (simp_all add: bview_def brefs_def blocked_def fun_eq_iff split: option.split)
qed

lemma bview_length:
  assumes "binv p s" "unat bn < FSSIZE"
  shows "length (bview s bn) = BSIZE"
proof -
  have u: "buniq (bufs s)" and bo: "\<And>j. j < NBUF \<Longrightarrow> buf_ok (slocks s (Sl_buf j)) (medium s) (bufs s j)"
    and d: "length (dblock (medium s) bn) = BSIZE"
    using assms by (auto simp: binv_def bufs_ok_parts)
  show ?thesis
  proof (cases "bidx (bufs s) bn")
    case (Some i)
    then have "i < NBUF" unfolding bidx_Some [OF u] by simp
    from bo [OF this] Some d assms(2) show ?thesis by (simp add: bview_def buf_ok_def bdisk_def)
  qed (use d assms(2) in \<open>simp add: bview_def bdisk_def\<close>)
qed

lemma wpc_write_head:
  fixes s :: "'r logst_scheme"
  assumes at: "log_at a sz (log s)" and inv: "binv p s" and n: "0 \<le> lh_n (lg_lh (log s))" "lh_n (lg_lh (log s)) \<le> LOGSIZE"
    and bl: "\<not> blocked s (of_nat a)" "brefs s (of_nat a) < 2 ^ 32 - 1" "card {k. 0 < brefs s k} < NBUF"
    and C: "\<And>t. power s \<noteq> None \<Longrightarrow> medium t = medium s \<Longrightarrow> C t"
    and Q: "\<And>t h. bchange p s ((bview s)(of_nat a := h)) (brefs s) ((bdisk (medium s))(of_nat a := h)) t \<Longrightarrow>
      hdr_n h = lh_n (lg_lh (log s)) \<Longrightarrow> (\<And>j. j < nat (lh_n (lg_lh (log s))) \<Longrightarrow> hdr_block h j = lh_block (lg_lh (log s)) j) \<Longrightarrow> Q () t"
  shows "wpc write_head Q C s"
  unfolding write_head_def wpc_bind
proof (rule wpc_bread_arg [where p = p and bn = "of_nat a"])
  let ?st = "of_nat a :: u32"
  note st = log_start_at [OF at]
  show "lg_dev (log s) = ROOTDEV" "word_of_int (lg_start (log s)) = ?st" using at st by (simp_all add: log_at_def)
  show "bread_pre p s ?st" using inv bl st(2,3) by (simp add: bread_pre_def)
  show "power s \<noteq> None \<Longrightarrow> medium t = medium s \<Longrightarrow> C t" for t by (rule C)
  fix b t
  assume t: "bread_post p s ?st b t"
  have lt: "unat ?st < FSSIZE" using st by simp
  note own = bread_post_owned [OF t lt] and T = btakenD [OF bread_post_taken [OF t]]
  have lg: "log t = log s" using T(1) by (rule bframe_log)
  let ?h = "hdr_put (lg_lh (log s)) (bview s ?st)"
  have len: "length (bview s ?st) = BSIZE" by (rule bview_length [OF inv lt])
  note H = hdr_put [OF len n]
  have "wpc (bwrite b) (\<lambda>_. wpc (brelse b) Q C) C (t\<lparr>bufs := (bufs t)(b := (bufs t b)\<lparr>b_data := ?h\<rparr>)\<rparr>)"
  proof (rule wpc_overwrite [OF own H(1)])
    show "C u" if "power t \<noteq> None" "medium u = medium t" for u using C that T(2,6) by auto
  next
    fix u
    assume own1: "bowned p u ?st b" and U: "bframe p t u" "bview u = (bview t)(?st := ?h)" "brefs u = brefs t" "blocked u = blocked t"
      "bdisk (medium u) = (bdisk (medium t))(?st := ?h)" "bkeep p t ?st u"
    show "wpc (brelse b) Q C u"
    proof (rule wpc_brelse [OF own1])
      show "bview u ?st = bdisk (medium u) ?st" using U by simp
    next
      fix v
      assume v: "brelse_post p u ?st v"
      have "brefs v = brefs s" "blocked v = blocked s" using v bl(1) unfolding brelse_post_def U(3,4) T(4,5) by (auto simp: fun_eq_iff)
      moreover have "bframe p s v" using v T(1) U(1) by (auto simp: brelse_post_def intro: bframe_trans)
      ultimately have "bchange p s ((bview s)(?st := ?h)) (brefs s) ((bdisk (medium s))(?st := ?h)) v"
        using v U(2,5) T(2,3) by (simp add: bchange_def brelse_post_def)
      then show "Q () v" by (rule Q) (use H in simp_all)
    qed
  qed
  moreover have "b_data (bufs t b) = bview s ?st" using bowned_data(1) [OF own] T(3) by simp
  then have "b_data_update (hdr_put (lg_lh (log s))) (bufs t b) = (bufs t b)\<lparr>b_data := ?h\<rparr>" by (cases "bufs t b") simp
  ultimately show "wpc (block [\<lambda>s. upd_buf b (b_data_update (hdr_put (lg_lh (log s)))) s, bwrite b, brelse b]) Q C t"
    using lg by (simp add: wp_simps)
qed

text \<open>The loop of \<^verbatim>\<open>read_head\<close>.\<close>

lemma read_head_loop:
  assumes "b_data (bufs s b) = d"
  shows "forK (read_head_one b) xs s = Ok () (s\<lparr>log := lg_lh_update (lh_block_update (\<lambda>f j. if j \<in> set xs then hdr_block d j else f j)) (log s)\<rparr>)"
  using assms
proof (induction xs arbitrary: s)
  case (Cons x xs)
  let ?s = "s\<lparr>log := lg_lh_update (lh_block_update (\<lambda>f. f(x := hdr_block d x))) (log s)\<rparr>"
  have "read_head_one b x s = Ok () ?s" using Cons.prems by (simp add: read_head_one_def run_modify)
  moreover have "forK (read_head_one b) xs ?s = Ok () (?s\<lparr>log := lg_lh_update (lh_block_update (\<lambda>f j. if j \<in> set xs then hdr_block d j else f j)) (log ?s)\<rparr>)"
    by (rule Cons.IH) (use Cons.prems in simp)
  ultimately show ?case by (auto simp: run_bind fun_eq_iff intro!: logst.equality klog.equality logheader.equality)
qed (simp add: run_simps)

lemma wpc_read_head:
  fixes s :: "'r logst_scheme"
  assumes at: "log_at a sz (log s)" and inv: "binv p s"
    and bl: "\<not> blocked s (of_nat a)" "brefs s (of_nat a) < 2 ^ 32 - 1" "card {k. 0 < brefs s k} < NBUF"
    and C: "\<And>t. power s \<noteq> None \<Longrightarrow> medium t = medium s \<Longrightarrow> C t"
  defines "h \<equiv> bview s (of_nat a)"
  defines "l \<equiv> lg_lh_update (\<lambda>lh. \<lparr>lh_n = hdr_n h, lh_block = \<lambda>j. if j < nat (hdr_n h) then hdr_block h j else lh_block lh j\<rparr>) (log s)"
  assumes Q: "\<And>t. bchange p (s\<lparr>log := l\<rparr>) (bview s) (brefs s) (bdisk (medium s)) t \<Longrightarrow> Q () t"
  shows "wpc read_head Q C s"
  unfolding read_head_def wpc_bind
proof (rule wpc_bread_arg [where p = p and bn = "of_nat a"])
  let ?st = "of_nat a :: u32"
  note st = log_start_at [OF at]
  show "lg_dev (log s) = ROOTDEV" "word_of_int (lg_start (log s)) = ?st" using at st by (simp_all add: log_at_def)
  show "bread_pre p s ?st" using inv bl st(2,3) by (simp add: bread_pre_def)
  show "power s \<noteq> None \<Longrightarrow> medium t = medium s \<Longrightarrow> C t" for t by (rule C)
  fix b t
  assume t: "bread_post p s ?st b t"
  have lt: "unat ?st < FSSIZE" using st by simp
  note own = bread_post_owned [OF t lt] and T = btakenD [OF bread_post_taken [OF t]]
  have lg: "log t = log s" using T(1) by (rule bframe_log)
  have d: "b_data (bufs t b) = h" using bowned_data(1) [OF own] T(3) by (simp add: h_def)
  let ?t = "t\<lparr>log := l\<rparr>"
  have own': "bowned p ?t ?st b" using own by simp
  have "wpc (brelse b) Q C ?t"
  proof (rule wpc_brelse [OF own'])
    show "bview ?t ?st = bdisk (medium ?t) ?st" if "brefs ?t ?st = 1"
      using that unreferenced_clean [OF inv, of ?st] T by simp
  next
    fix v
    assume v: "brelse_post p ?t ?st v"
    have "brefs v = brefs s" "blocked v = blocked s" using v bl(1) T(4,5) unfolding brelse_post_def by (auto simp: fun_eq_iff)
    moreover have "bframe p (s\<lparr>log := l\<rparr>) ?t" using T(1) by (cases s; cases t) (simp add: bframe_def)
    then have "bframe p (s\<lparr>log := l\<rparr>) v" using v by (auto simp: brelse_post_def intro: bframe_trans)
    ultimately show "Q () v" using v T(2,3) by (intro Q) (simp add: bchange_def brelse_post_def)
  qed
  moreover have "lg_lh_update (lh_block_update (\<lambda>f j. if j \<in> set [0..<nat (hdr_n h)] then hdr_block h j else f j)) (lg_lh_update (lh_n_update (\<lambda>_. hdr_n h)) (log s)) = l"
    by (auto simp: l_def intro!: klog.equality logheader.equality)
  ultimately show "wpc (block [\<lambda>s. upd_log (lg_lh_update (lh_n_update (\<lambda>_. hdr_n (b_data (bufs s b))))) s,
      \<lambda>s. forK (read_head_one b) [0..<nat (lh_n (lg_lh (log s)))] s,
      brelse b]) Q C t"
    by (simp add: wp_simps) (simp add: wpc_def read_head_loop [where d = h] d lg)
qed

section \<open>The loops over the log\<close>

lemma wpc_for_upto:
  assumes "I 0 s" and "\<And>k t. k < n \<Longrightarrow> I k t \<Longrightarrow> wpc (f k) (\<lambda>_. I (Suc k)) C t"
  shows "wpc (forK f [0..<n]) (\<lambda>_. I n) C s"
proof -
  have "wpc (forK f [0..<n]) (\<lambda>_ t. I (length [0..<n]) t) C s"
  proof (rule wpc_forK [where I = "\<lambda>xs t. I (length xs) t"])
    fix xs x ys t
    assume eq: "[0..<n] = xs @ x # ys" and I: "I (length xs) t"
    have len: "length [0..<n] = length (xs @ x # ys)" by (simp only: eq)
    have "[0..<n] ! length xs = x" unfolding eq by simp
    moreover have "length xs < n" using len by simp
    ultimately show "wpc (f x) (\<lambda>_. I (length (xs @ [x]))) C t" using assms(2) [of "length xs" t] I by simp
  qed (use assms(1) in simp)
  then show ?thesis by simp
qed

text \<open>\<open>overlay f g k X Y\<close>: the map \<open>Y\<close> is \<open>X\<close> with the value \<open>g i\<close> at \<open>f i\<close> for all \<open>i < k\<close>.\<close>

definition overlay :: "(nat \<Rightarrow> 'k) \<Rightarrow> (nat \<Rightarrow> 'v) \<Rightarrow> nat \<Rightarrow> ('k \<Rightarrow> 'v) \<Rightarrow> ('k \<Rightarrow> 'v) \<Rightarrow> bool" where
  "overlay f g k X Y \<longleftrightarrow> (\<forall>i<k. Y (f i) = g i) \<and> (\<forall>x. x \<notin> f ` {..<k} \<longrightarrow> Y x = X x)"

lemma overlay_0 [simp]: "overlay f g 0 X Y \<longleftrightarrow> Y = X"
  by (auto simp: overlay_def fun_eq_iff)

lemma overlay_Suc: "overlay f g k X Y \<Longrightarrow> f k \<notin> f ` {..<k} \<Longrightarrow> overlay f g (Suc k) X (Y(f k := g k))"
  by (auto simp: overlay_def less_Suc_eq lessThan_Suc image_iff Ball_def)

lemma overlay_outside: "overlay f g k X Y \<Longrightarrow> x \<notin> f ` {..<k} \<Longrightarrow> Y x = X x"
  by (simp add: overlay_def)

lemma overlay_inside: "overlay f g k X Y \<Longrightarrow> i < k \<Longrightarrow> Y (f i) = g i"
  by (simp add: overlay_def)

lemma hdr_okD:
  assumes "hdr_ok a sz n blk" "log_at a sz l" "i < nat n"
  shows "i + 1 < sz" "home a sz (blk i)" "blk i \<notin> blk ` {..<i}" "unat (blk i) < FSSIZE" "j < nat n \<Longrightarrow> log_block l j \<noteq> blk i"
    "log_block l i \<notin> log_block l ` {..<i}" "j < nat n \<Longrightarrow> blk j \<noteq> log_block l i" "j < nat n \<Longrightarrow> blk j \<noteq> of_nat a"
proof -
  have sz: "k + 1 < sz" if "k < nat n" for k using assms(1) that by (auto simp: hdr_ok_def)
  show "i + 1 < sz" by (rule sz [OF assms(3)])
  have h: "home a sz (blk k)" if "k < nat n" for k using assms(1) that by (simp add: hdr_ok_def)
  show "home a sz (blk i)" by (rule h [OF assms(3)])
  then show "unat (blk i) < FSSIZE" by (simp add: home_def)
  show "blk i \<notin> blk ` {..<i}"
  proof
    assume "blk i \<in> blk ` {..<i}"
    then obtain k where "k < i" "blk k = blk i" by auto
    moreover have "inj_on blk {..<nat n}" using assms(1) by (simp add: hdr_ok_def distinct_map atLeast0LessThan)
    ultimately show False using assms(3) by (auto simp: inj_on_def)
  qed
  show "log_block l j \<noteq> blk i" if "j < nat n" using home_not_log(1) [OF h [OF assms(3)] assms(2) sz [OF that]] by simp
  show "blk j \<noteq> log_block l i" if "j < nat n" using home_not_log(1) [OF h [OF that] assms(2) sz [OF assms(3)]] .
  show "blk j \<noteq> of_nat a" if "j < nat n" using home_not_log(2) [OF h [OF that] assms(2) sz [OF that]] .
  show "log_block l i \<notin> log_block l ` {..<i}"
  proof
    assume "log_block l i \<in> log_block l ` {..<i}"
    then obtain k where k: "k < i" "log_block l i = log_block l k" by auto
    then have "k < nat n" using assms(3) by simp
    with k log_block_inj [OF assms(2) sz [OF assms(3)] sz [OF this]] show False by simp
  qed
qed

text \<open>What the copying loops need of the state: the log is well formed, nobody holds a buffer, and there is a
  buffer to read into.\<close>

definition log_pre :: "nat \<Rightarrow> nat \<Rightarrow> nat \<Rightarrow> 'r logst_scheme \<Rightarrow> bool" where
  "log_pre p a sz s \<longleftrightarrow> binv p s \<and> log_at a sz (log s) \<and> hdr_ok a sz (lh_n (lg_lh (log s))) (lh_block (lg_lh (log s)))
     \<and> (\<forall>k. \<not> blocked s k) \<and> (\<forall>k. brefs s k < 2 ^ 32 - 2)"

abbreviation busy :: "'r diskst_scheme \<Rightarrow> nat" where
  "busy s \<equiv> card {k. 0 < brefs s k}"

lemma wpc_write_log:
  fixes s :: "'r logst_scheme"
  assumes pre: "log_pre p a sz s" and free: "busy s < NBUF" "\<And>i. i < nat (lh_n (lg_lh (log s))) \<Longrightarrow> 0 < brefs s (lh_block (lg_lh (log s)) i)"
  defines "n \<equiv> nat (lh_n (lg_lh (log s)))" and "blk \<equiv> lh_block (lg_lh (log s))" and "L \<equiv> log_block (log s)"
  assumes C: "\<And>t k. power s \<noteq> None \<Longrightarrow> k \<le> n \<Longrightarrow> overlay L (\<lambda>i. bview s (blk i)) k (bdisk (medium s)) (bdisk (medium t)) \<Longrightarrow> C t"
    and Q: "\<And>t. binv p t \<Longrightarrow> bframe p s t \<Longrightarrow> brefs t = brefs s \<Longrightarrow> blocked t = blocked s \<Longrightarrow> overlay L (\<lambda>i. bview s (blk i)) n (bview s) (bview t)
      \<Longrightarrow> overlay L (\<lambda>i. bview s (blk i)) n (bdisk (medium s)) (bdisk (medium t)) \<Longrightarrow> Q () t"
  shows "wpc write_log Q C s"
proof -
  have P: "binv p s" "log_at a sz (log s)" "hdr_ok a sz (lh_n (lg_lh (log s))) blk" "\<And>k. \<not> blocked s k" "\<And>k. brefs s k < 2 ^ 32 - 2"
    using pre by (simp_all add: log_pre_def blk_def)
  note H = hdr_okD [OF P(3,2), folded n_def L_def]
  let ?I = "\<lambda>k t. binv p t \<and> bframe p s t \<and> brefs t = brefs s \<and> blocked t = blocked s \<and> overlay L (\<lambda>i. bview s (blk i)) k (bview s) (bview t)
    \<and> overlay L (\<lambda>i. bview s (blk i)) k (bdisk (medium s)) (bdisk (medium t))"
  have "wpc (forK write_log_one [0..<n]) (\<lambda>_. ?I n) C s"
  proof (rule wpc_for_upto)
    fix k and t :: "'r logst_scheme"
    assume k: "k < n" and I: "?I k t"
    have lg: "log t = log s" using I bframe_log by blast
    have "0 < brefs s (blk k)" using free(2) k by (simp add: n_def blk_def)
    then have cp: "copy_pre p t (L k) (blk k)" unfolding copy_pre_def
      using I P(4,5) free(1) H(4,5) [OF k] k log_block_at(3) [OF P(2) H(1) [OF k]] by (simp add: L_def)
    have v: "bview t (blk k) = bview s (blk k)"
      by (rule overlay_outside [of L "\<lambda>i. bview s (blk i)" k]) (use I H(7) k in \<open>auto simp: less_trans\<close>)
    show "wpc (write_log_one k) (\<lambda>_. ?I (Suc k)) C t"
    proof (rule wpc_write_log_one [OF _ _ _ cp])
      show "lg_dev (log t) = ROOTDEV" "log_block (log t) k = L k" "lh_block (lg_lh (log t)) k = blk k"
        using P(2) by (simp_all add: lg L_def blk_def log_at_def)
      show "C u" if "power t \<noteq> None" "medium u = medium t" for u using that I k by (intro C [of k]) (auto simp: bframe_def)
    next
      fix u
      assume "bchange p t ((bview t)(L k := bview t (blk k))) (brefs t) ((bdisk (medium t))(L k := bview t (blk k))) u"
      with I v H(6) [OF k] overlay_Suc show "?I (Suc k) u" by (auto simp: bchange_def intro: bframe_trans)
    qed
  qed (use P in simp)
  then have "wpc (forK write_log_one [0..<n]) Q C s" by (rule wpc_mono) (use Q in auto)
  then show ?thesis by (simp add: wpc_def write_log_def n_def)
qed

lemma wpc_install_trans:
  fixes s :: "'r logst_scheme"
  assumes pre: "log_pre p a sz s"
    and free: "if r then Suc (busy s) < NBUF else busy s < NBUF \<and> (\<forall>i<nat (lh_n (lg_lh (log s))). 0 < brefs s (lh_block (lg_lh (log s)) i))"
  defines "n \<equiv> nat (lh_n (lg_lh (log s)))" and "blk \<equiv> lh_block (lg_lh (log s))" and "L \<equiv> log_block (log s)"
  assumes C: "\<And>t k. power s \<noteq> None \<Longrightarrow> k \<le> n \<Longrightarrow> overlay blk (\<lambda>i. bview s (L i)) k (bdisk (medium s)) (bdisk (medium t)) \<Longrightarrow> C t"
    and Q: "\<And>t. binv p t \<Longrightarrow> bframe p s t \<Longrightarrow> blocked t = blocked s \<Longrightarrow> overlay blk (\<lambda>i. bview s (L i)) n (bview s) (bview t)
      \<Longrightarrow> overlay blk (\<lambda>i. bview s (L i)) n (bdisk (medium s)) (bdisk (medium t))
      \<Longrightarrow> (if r then brefs t = brefs s else overlay blk (\<lambda>i. brefs s (blk i) - 1) n (brefs s) (brefs t)) \<Longrightarrow> Q () t"
  shows "wpc (install_trans r) Q C s"
proof -
  have P: "binv p s" "log_at a sz (log s)" "hdr_ok a sz (lh_n (lg_lh (log s))) blk" "\<And>k. \<not> blocked s k" "\<And>k. brefs s k < 2 ^ 32 - 2"
    using pre by (simp_all add: log_pre_def blk_def)
  note H = hdr_okD [OF P(3,2), folded n_def L_def]
  let ?I = "\<lambda>k t. binv p t \<and> bframe p s t \<and> blocked t = blocked s \<and> overlay blk (\<lambda>i. bview s (L i)) k (bview s) (bview t)
    \<and> overlay blk (\<lambda>i. bview s (L i)) k (bdisk (medium s)) (bdisk (medium t))
    \<and> (if r then brefs t = brefs s else overlay blk (\<lambda>i. brefs s (blk i) - 1) k (brefs s) (brefs t))"
  have "wpc (forK (install_one r) [0..<n]) (\<lambda>_. ?I n) C s"
  proof (rule wpc_for_upto)
    fix k and t :: "'r logst_scheme"
    assume k: "k < n" and I: "?I k t"
    have lg: "log t = log s" using I bframe_log by blast
    have le: "brefs t x \<le> brefs s x" for x
    proof (cases "\<not> r \<and> x \<in> blk ` {..<k}")
      case True
      then obtain i where "i < k" "x = blk i" by auto
      with True I overlay_inside [of blk "\<lambda>i. brefs s (blk i) - 1" k "brefs s" "brefs t" i] show ?thesis by simp
    next
      case False
      with I overlay_outside [of blk "\<lambda>i. brefs s (blk i) - 1" k "brefs s" "brefs t" x] show ?thesis by (cases r) simp_all
    qed
    have busy: "busy t \<le> busy s" by (rule card_mono) (use le in \<open>auto intro: less_le_trans\<close>)
    have same: "brefs t (blk k) = brefs s (blk k)" using I H(3) [OF k] overlay_outside by (cases r) fastforce+
    have pin: "0 < brefs t (blk k)" if "\<not> r" unfolding same using free k that by (simp add: n_def blk_def)
    have B: "busy t < NBUF" "r \<Longrightarrow> Suc (busy t) < NBUF" using free busy by (auto split: if_splits)
    then have B2: "brefs t (blk k) = 0 \<longrightarrow> Suc (busy t) < NBUF" using pin by (cases r) auto
    have lt: "brefs t x < 2 ^ 32 - 2" for x using le P(5) le_less_trans by blast
    have cp: "copy_pre p t (L k) (blk k)" unfolding copy_pre_def
      using I P(4) B(1) B2 lt H(4,5) [OF k] k log_block_at(3) [OF P(2) H(1) [OF k]] by (simp add: L_def)
    have v: "bview t (L k) = bview s (L k)"
      by (rule overlay_outside [of blk "\<lambda>i. bview s (L i)" k]) (use I H(5) k in \<open>auto dest: less_trans\<close>)
    show "wpc (install_one r k) (\<lambda>_. ?I (Suc k)) C t"
    proof (rule wpc_install_one [OF _ _ _ cp pin])
      show "lg_dev (log t) = ROOTDEV" "log_block (log t) k = L k" "lh_block (lg_lh (log t)) k = blk k"
        using P(2) by (simp_all add: lg L_def blk_def log_at_def)
      show "C u" if "power t \<noteq> None" "medium u = medium t" for u using that I k by (intro C [of k]) (auto simp: bframe_def)
    next
      fix u
      assume u: "bchange p t ((bview t)(blk k := bview t (L k))) (if r then brefs t else (brefs t)(blk k := brefs t (blk k) - 1)) ((bdisk (medium t))(blk k := bview t (L k))) u"
      have "if r then brefs u = brefs s else overlay blk (\<lambda>i. brefs s (blk i) - 1) (Suc k) (brefs s) (brefs u)"
        using u I same overlay_Suc [of blk "\<lambda>i. brefs s (blk i) - 1" k "brefs s" "brefs t"] H(3) [OF k] by (simp add: bchange_def split: if_splits)
      moreover have "overlay blk (\<lambda>i. bview s (L i)) (Suc k) (bview s) (bview u)" "overlay blk (\<lambda>i. bview s (L i)) (Suc k) (bdisk (medium s)) (bdisk (medium u))"
        using u I v overlay_Suc [of blk "\<lambda>i. bview s (L i)" k] H(3) [OF k] by (simp_all add: bchange_def)
      ultimately show "?I (Suc k) u" using u I by (auto simp: bchange_def intro: bframe_trans)
    qed
  qed (use P in simp)
  then have "wpc (forK (install_one r) [0..<n]) Q C s" by (rule wpc_mono) (use Q in auto)
  then show ?thesis by (simp add: wpc_def install_trans_def n_def)
qed

section \<open>Commit and recovery\<close>

lemma disk_log_empty: "hdr_n (D (of_nat a)) = 0 \<Longrightarrow> 0 < sz \<Longrightarrow> disk_log_ok a sz D"
  by (simp add: disk_log_ok_def hdr_ok_def)

lemma log_replay_full:
  assumes "hdr_n (D (of_nat a)) = n" "\<And>j. j < nat n \<Longrightarrow> hdr_block (D (of_nat a)) j = blk j" "hdr_ok a sz n blk"
  shows "disk_log_ok a sz D" "i < nat n \<Longrightarrow> log_replay a D (blk i) = D (of_nat (a + i + 1))"
    "bn \<notin> blk ` {..<nat n} \<Longrightarrow> log_replay a D bn = D bn"
proof -
  have eq: "map (hdr_block (D (of_nat a))) [0..<nat n] = map blk [0..<nat n]" using assms(2) by simp
  show ok: "disk_log_ok a sz D" unfolding disk_log_ok_def assms(1) hdr_ok_def eq using assms(2,3) by (simp add: hdr_ok_def)
  show "i < nat n \<Longrightarrow> log_replay a D (blk i) = D (of_nat (a + i + 1))"
    using log_replay_entry [OF ok, of i] assms(1,2) by simp
  show "bn \<notin> blk ` {..<nat n} \<Longrightarrow> log_replay a D bn = D bn"
    using assms(1,2) by (intro log_replay_other) auto
qed

text \<open>The home locations after the transaction.\<close>

definition log_new :: "'r logst_scheme \<Rightarrow> u32 \<Rightarrow> u8 list" where
  "log_new s bn = (if bn \<in> lh_block (lg_lh (log s)) ` {..<nat (lh_n (lg_lh (log s)))} then bview s bn else bdisk (medium s) bn)"

definition log_atomic :: "nat \<Rightarrow> nat \<Rightarrow> 'r logst_scheme \<Rightarrow> (u32 \<Rightarrow> u8 list) \<Rightarrow> bool" where
  "log_atomic a sz s D \<longleftrightarrow> disk_log_ok a sz D
     \<and> ((\<forall>bn. home a sz bn \<longrightarrow> log_replay a D bn = bdisk (medium s) bn) \<or> (\<forall>bn. home a sz bn \<longrightarrow> log_replay a D bn = log_new s bn))"

definition committed :: "nat \<Rightarrow> nat \<Rightarrow> nat \<Rightarrow> 'r logst_scheme \<Rightarrow> 'r logst_scheme \<Rightarrow> bool" where
  "committed p a sz s t \<longleftrightarrow> binv p t \<and> bframe p (s\<lparr>log := (log s)\<lparr>lg_lh := (lg_lh (log s))\<lparr>lh_n := 0\<rparr>\<rparr>\<rparr>) t \<and> blocked t = blocked s
     \<and> (\<forall>bn. home a sz bn \<longrightarrow> bdisk (medium t) bn = log_new s bn \<and> bview t bn = bview s bn)
     \<and> hdr_n (bdisk (medium t) (of_nat a)) = 0
     \<and> overlay (lh_block (lg_lh (log s))) (\<lambda>i. brefs s (lh_block (lg_lh (log s)) i) - 1) (nat (lh_n (lg_lh (log s)))) (brefs s) (brefs t)"

definition commit_pre :: "nat \<Rightarrow> nat \<Rightarrow> nat \<Rightarrow> 'r logst_scheme \<Rightarrow> bool" where
  "commit_pre p a sz s \<longleftrightarrow> log_pre p a sz s \<and> busy s < NBUF \<and> hdr_n (bdisk (medium s) (of_nat a)) = 0
     \<and> (\<forall>i<nat (lh_n (lg_lh (log s))). 0 < brefs s (lh_block (lg_lh (log s)) i))"

lemma brefs_le_overlay:
  assumes "overlay blk (\<lambda>i. R (blk i) - 1) n R (R' :: u32 \<Rightarrow> nat)"
  shows "R' k \<le> R k"
  using assms by (cases "k \<in> blk ` {..<n}") (auto simp: overlay_def)

lemma home_outside:
  assumes "hdr_ok a sz n blk" "log_at a sz l" "home a sz bn"
  shows "bn \<notin> log_block l ` {..<nat n}"
proof
  assume "bn \<in> log_block l ` {..<nat n}"
  then obtain i where i: "i < nat n" "bn = log_block l i" by auto
  from home_not_log(1) [OF assms(3,2) hdr_okD(1) [OF assms(1,2) i(1)]] i(2) show False by simp
qed

lemma home_not_start: "log_at a sz l \<Longrightarrow> home a sz bn \<Longrightarrow> bn \<noteq> of_nat a"
  using log_start_at(2) [of a sz l] by (auto simp: home_def log_at_def)

lemma overlay_apply: "overlay f (\<lambda>i. g (f i)) n X Y \<Longrightarrow> Y x = (if x \<in> f ` {..<n} then g x else X x)"
  by (auto simp: overlay_def)

text \<open>The medium before the header is written: the old contents.\<close>

lemma crash_old:
  assumes at: "log_at a sz l" and ok: "hdr_ok a sz n blk" and e: "hdr_n (bdisk (medium s) (of_nat a)) = 0"
    and k: "k \<le> nat n" and ov: "overlay (log_block l) g k (bdisk (medium s)) D"
  shows "log_atomic a sz s D"
proof -
  have "log_block l i \<noteq> of_nat a" if "i < k" for i using log_block_not_start [OF at hdr_okD(1) [OF ok at]] that k by simp
  then have "of_nat a \<notin> log_block l ` {..<k}" by force
  from overlay_outside [OF ov this] have e: "hdr_n (D (of_nat a)) = 0" using e by simp
  have "D bn = bdisk (medium s) bn" if "home a sz bn" for bn
  proof (rule overlay_outside [OF ov])
    show "bn \<notin> log_block l ` {..<k}" using home_outside [OF ok at that] k by fastforce
  qed
  with log_replay_empty [of D a, OF e] disk_log_empty [of D a, OF e] at show ?thesis by (simp add: log_atomic_def log_at_def)
qed

text \<open>The medium after the header is written, with the first \<open>k\<close> blocks installed: the new contents.\<close>

lemma crash_new:
  fixes s :: "'r logst_scheme"
  defines "lh \<equiv> lg_lh (log s)"
  assumes at: "log_at a sz (log s)" and ok: "hdr_ok a sz (lh_n lh) (lh_block lh)" and k: "k \<le> nat (lh_n lh)"
    and ov: "overlay (lh_block lh) (\<lambda>i. bview s (lh_block lh i)) k D1 D"
    and h: "hdr_n (D1 (of_nat a)) = lh_n lh" "\<And>j. j < nat (lh_n lh) \<Longrightarrow> hdr_block (D1 (of_nat a)) j = lh_block lh j"
    and L: "\<And>i. i < nat (lh_n lh) \<Longrightarrow> D1 (log_block (log s) i) = bview s (lh_block lh i)"
    and hm: "\<And>bn. home a sz bn \<Longrightarrow> D1 bn = bdisk (medium s) bn"
  shows "log_atomic a sz s D"
proof -
  note H = hdr_okD [OF ok at]
  have same: "D x = D1 x" if "\<And>j. j < nat (lh_n lh) \<Longrightarrow> lh_block lh j \<noteq> x" for x
  proof (rule overlay_outside [OF ov])
    have "lh_block lh j \<noteq> x" if "j < k" for j using \<open>\<And>j. j < nat (lh_n lh) \<Longrightarrow> lh_block lh j \<noteq> x\<close> [of j] that k by simp
    then show "x \<notin> lh_block lh ` {..<k}" by auto
  qed
  have st: "D (of_nat a) = D1 (of_nat a)" using H(8) by (intro same) blast
  have DL: "D (of_nat (a + i + 1)) = bview s (lh_block lh i)" if "i < nat (lh_n lh)" for i
    using same [of "log_block (log s) i"] H(7) [OF that] L [OF that] log_block_at(1) [OF at H(1) [OF that]] by simp
  note R = log_replay_full [of D a "lh_n lh" "lh_block lh" sz, unfolded st, OF h ok]
  have "log_replay a D bn = log_new s bn" if "home a sz bn" for bn
  proof (cases "bn \<in> lh_block lh ` {..<nat (lh_n lh)}")
    case True
    then obtain i where "i < nat (lh_n lh)" "bn = lh_block lh i" by auto
    with R(2) DL True show ?thesis by (simp add: log_new_def lh_def)
  next
    case False
    moreover from this have "D bn = D1 bn" by (intro same) auto
    ultimately show ?thesis using R(3) hm [OF that] by (simp add: log_new_def lh_def)
  qed
  with R(1) show ?thesis by (simp add: log_atomic_def)
qed

lemma commit_preD:
  assumes "commit_pre p a sz s"
  shows "log_pre p a sz s" "busy s < NBUF" "hdr_n (bdisk (medium s) (of_nat a)) = 0"
    "\<And>i. i < nat (lh_n (lg_lh (log s))) \<Longrightarrow> 0 < brefs s (lh_block (lg_lh (log s)) i)"
    "binv p s" "log_at a sz (log s)" "hdr_ok a sz (lh_n (lg_lh (log s))) (lh_block (lg_lh (log s)))" "\<And>k. \<not> blocked s k" "\<And>k. brefs s k < 2 ^ 32 - 2"
    "0 \<le> lh_n (lg_lh (log s))" "lh_n (lg_lh (log s)) \<le> LOGSIZE"
  using assms by (simp_all add: commit_pre_def log_pre_def hdr_ok_def)

text \<open>The last step of \<^verbatim>\<open>commit\<close>: clearing the header.\<close>

lemma commit_clear:
  fixes s :: "'r logst_scheme"
  assumes pre: "commit_pre p a sz s" and t: "binv p t" "bframe p s t" "blocked t = blocked s"
    and R: "overlay (lh_block (lg_lh (log s))) (\<lambda>i. brefs s (lh_block (lg_lh (log s)) i) - 1) (nat (lh_n (lg_lh (log s)))) (brefs s) (brefs t)"
    and hm: "\<And>bn. home a sz bn \<Longrightarrow> bdisk (medium t) bn = log_new s bn \<and> bview t bn = bview s bn"
    and C: "log_atomic a sz s (bdisk (medium t))"
  shows "wpc (seqK [upd_log (lg_lh_update (lh_n_update (\<lambda>_. 0))), write_head] skip) (\<lambda>_. committed p a sz s) (\<lambda>t. power s \<noteq> None \<and> log_atomic a sz s (bdisk (medium t))) t"
proof -
  note P = commit_preD [OF pre]
  have lg: "log t = log s" using t(2) by (rule bframe_log)
  let ?l = "lg_lh_update (lh_n_update (\<lambda>_. 0)) (log s)" and ?st = "of_nat a :: u32"
  let ?t = "t\<lparr>log := ?l\<rparr>"
  have "busy t \<le> busy s" by (rule card_mono) (use brefs_le_overlay [OF R] in \<open>auto intro: less_le_trans\<close>)
  then have bz: "busy t < NBUF" using P(2) by simp
  have "wpc write_head (\<lambda>_. committed p a sz s) (\<lambda>t. power s \<noteq> None \<and> log_atomic a sz s (bdisk (medium t))) ?t"
  proof (rule wpc_write_head [where a = a and sz = sz and p = p])
    show "log_at a sz (log ?t)" using P(6) by (simp add: log_at_def)
    show "brefs ?t ?st < 2 ^ 32 - 1" using brefs_le_overlay [OF R, of ?st] P(9) [of ?st] by simp
    show "power s \<noteq> None \<and> log_atomic a sz s (bdisk (medium u))" if "power ?t \<noteq> None" "medium u = medium ?t" for u :: "'r logst_scheme"
      using C that t(2) by (auto simp: bframe_def)
  next
    fix u :: "'r logst_scheme" and h
    assume u: "bchange p ?t ((bview ?t)(?st := h)) (brefs ?t) ((bdisk (medium ?t))(?st := h)) u" and h: "hdr_n h = lh_n (lg_lh (log ?t))"
    have fr: "bframe p (s\<lparr>log := ?l\<rparr>) ?t" using t(2) by (cases s; cases t) (simp add: bframe_def)
    have eq: "s\<lparr>log := (log s)\<lparr>lg_lh := (lg_lh (log s))\<lparr>lh_n := 0\<rparr>\<rparr>\<rparr> = s\<lparr>log := ?l\<rparr>" by simp
    show "committed p a sz s u" unfolding committed_def eq
    proof (intro conjI allI impI)
      show "binv p u" "blocked u = blocked s" "hdr_n (bdisk (medium u) ?st) = 0"
        using u t(3) h by (simp_all add: bchange_def)
      show "overlay (lh_block (lg_lh (log s))) (\<lambda>i. brefs s (lh_block (lg_lh (log s)) i) - 1) (nat (lh_n (lg_lh (log s)))) (brefs s) (brefs u)"
        using u R by (simp add: bchange_def)
      show "bframe p (s\<lparr>log := ?l\<rparr>) u" using u fr by (auto simp: bchange_def intro: bframe_trans)
      show "bdisk (medium u) bn = log_new s bn" "bview u bn = bview s bn" if "home a sz bn" for bn
        using hm [OF that] home_not_start [OF P(6) that] u by (simp_all add: bchange_def)
    qed
  qed (use t P bz in simp_all)
  then show ?thesis by (simp add: wp_simps lg)
qed

text \<open>The steps after the header has been written.\<close>

lemma commit_install:
  fixes s :: "'r logst_scheme"
  assumes pre: "commit_pre p a sz s" and t: "binv p t" "bframe p s t" "brefs t = brefs s" "blocked t = blocked s"
  defines "lh \<equiv> lg_lh (log s)" and "L \<equiv> log_block (log s)"
  assumes h: "hdr_n (bdisk (medium t) (of_nat a)) = lh_n lh" "\<And>j. j < nat (lh_n lh) \<Longrightarrow> hdr_block (bdisk (medium t) (of_nat a)) j = lh_block lh j"
    and VL: "\<And>i. i < nat (lh_n lh) \<Longrightarrow> bview t (L i) = bview s (lh_block lh i)" "\<And>i. i < nat (lh_n lh) \<Longrightarrow> bdisk (medium t) (L i) = bview s (lh_block lh i)"
    and hm: "\<And>bn. home a sz bn \<Longrightarrow> bdisk (medium t) bn = bdisk (medium s) bn" "\<And>bn. home a sz bn \<Longrightarrow> bview t bn = bview s bn"
  shows "wpc (seqK [install_trans False, upd_log (lg_lh_update (lh_n_update (\<lambda>_. 0))), write_head] skip)
    (\<lambda>_. committed p a sz s) (\<lambda>t. power s \<noteq> None \<and> log_atomic a sz s (bdisk (medium t))) t"
proof -
  note P = commit_preD [OF pre, folded lh_def]
  let ?n = "nat (lh_n lh)" and ?blk = "lh_block lh"
  have lg: "log t = log s" using t(2) by (rule bframe_log)
  have pre2: "log_pre p a sz t" using P(1) t by (simp add: log_pre_def lg)
  have over: "overlay ?blk (\<lambda>i. bview t (L i)) k X Y \<Longrightarrow> k \<le> ?n \<Longrightarrow> overlay ?blk (\<lambda>i. bview s (?blk i)) k X Y" for k X Y
    using VL(1) by (auto simp: overlay_def)
  have C: "log_atomic a sz s (bdisk (medium u))" if "k \<le> ?n" "overlay ?blk (\<lambda>i. bview t (L i)) k (bdisk (medium t)) (bdisk (medium u))" for k and u :: "'r logst_scheme"
    by (rule crash_new [where s = s, folded lh_def L_def, OF P(6,7) that(1) over [OF that(2,1)]]) (use h VL hm in simp_all)
  have "wpc (install_trans False) (\<lambda>_. wpc (seqK [upd_log (lg_lh_update (lh_n_update (\<lambda>_. 0))), write_head] skip)
    (\<lambda>_. committed p a sz s) (\<lambda>t. power s \<noteq> None \<and> log_atomic a sz s (bdisk (medium t)))) (\<lambda>t. power s \<noteq> None \<and> log_atomic a sz s (bdisk (medium t))) t"
  proof (rule wpc_install_trans [OF pre2, unfolded lg lh_def [symmetric] L_def [symmetric]])
    show "if False then Suc (busy t) < NBUF else busy t < NBUF \<and> (\<forall>i<?n. 0 < brefs t (?blk i))" using P(2,4) t(3) by simp
    show "power s \<noteq> None \<and> log_atomic a sz s (bdisk (medium u))" if "power t \<noteq> None" "k \<le> ?n" "overlay ?blk (\<lambda>i. bview t (L i)) k (bdisk (medium t)) (bdisk (medium u))"
      for u :: "'r logst_scheme" and k using C [OF that(2,3)] that(1) t(2) by (auto simp: bframe_def)
  next
    fix u :: "'r logst_scheme"
    assume u: "binv p u" "bframe p t u" "blocked u = blocked t" and V: "overlay ?blk (\<lambda>i. bview t (L i)) ?n (bview t) (bview u)"
      and D: "overlay ?blk (\<lambda>i. bview t (L i)) ?n (bdisk (medium t)) (bdisk (medium u))"
      and R: "if False then brefs u = brefs t else overlay ?blk (\<lambda>i. brefs t (?blk i) - 1) ?n (brefs t) (brefs u)"
    note V' = overlay_apply [OF over [OF V order_refl]] and D' = overlay_apply [OF over [OF D order_refl]]
    show "wpc (seqK [upd_log (lg_lh_update (lh_n_update (\<lambda>_. 0))), write_head] skip) (\<lambda>_. committed p a sz s) (\<lambda>t. power s \<noteq> None \<and> log_atomic a sz s (bdisk (medium t))) u"
    proof (rule commit_clear [OF pre u(1), folded lh_def])
      show "bframe p s u" using t(2) u(2) by (rule bframe_trans)
      show "blocked u = blocked s" using t(4) u(3) by simp
      show "overlay ?blk (\<lambda>i. brefs s (?blk i) - 1) ?n (brefs s) (brefs u)" using R t(3) by simp
      show "bdisk (medium u) bn = log_new s bn \<and> bview u bn = bview s bn" if "home a sz bn" for bn
        using hm [OF that] V' [of bn] D' [of bn] by (simp add: log_new_def lh_def)
      show "log_atomic a sz s (bdisk (medium u))" by (rule C [OF order_refl D])
    qed
  qed
  then show ?thesis by (simp add: wp_simps)
qed

lemma wpc_commit:
  fixes s :: "'r logst_scheme"
  assumes pre: "commit_pre p a sz s"
  shows "wpc commit (\<lambda>_. committed p a sz s) (\<lambda>t. power s \<noteq> None \<and> log_atomic a sz s (bdisk (medium t))) s"
proof (cases "0 < lh_n (lg_lh (log s))")
  case False
  have n: "lh_n (lg_lh (log s)) = 0" using pre False by (simp add: commit_pre_def log_pre_def hdr_ok_def)
  then have eq: "s\<lparr>log := (log s)\<lparr>lg_lh := (lg_lh (log s))\<lparr>lh_n := 0\<rparr>\<rparr>\<rparr> = s" by simp
  have "committed p a sz s s" unfolding committed_def eq using pre by (simp add: n commit_pre_def log_pre_def log_new_def home_def)
  with False show ?thesis by (simp add: commit_def wp_simps)
next
  case True
  let ?st = "of_nat a :: u32" and ?C = "\<lambda>t. power s \<noteq> None \<and> log_atomic a sz s (bdisk (medium t))"
  let ?lh = "lg_lh (log s)" and ?L = "log_block (log s)"
  let ?rest = "seqK [install_trans False, upd_log (lg_lh_update (lh_n_update (\<lambda>_. 0))), write_head] skip"
  note P = commit_preD [OF pre]
  note H = hdr_okD [OF P(7,6)]
  have "wpc write_log (\<lambda>_. wpc write_head (\<lambda>_. wpc ?rest (\<lambda>_. committed p a sz s) ?C) ?C) ?C s"
  proof (rule wpc_write_log [OF P(1,2)])
    show "0 < brefs s (lh_block ?lh i)" if "i < nat (lh_n ?lh)" for i by (rule P(4) [OF that])
    show "?C t" if "power s \<noteq> None" "k \<le> nat (lh_n ?lh)" "overlay ?L (\<lambda>i. bview s (lh_block ?lh i)) k (bdisk (medium s)) (bdisk (medium t))" for t :: "'r logst_scheme" and k
      using that(1) crash_old [OF P(6,7,3) that(2,3)] ..
  next
    fix t :: "'r logst_scheme"
    assume t: "binv p t" "bframe p s t" "brefs t = brefs s" "blocked t = blocked s" and V: "overlay ?L (\<lambda>i. bview s (lh_block ?lh i)) (nat (lh_n ?lh)) (bview s) (bview t)"
      and D: "overlay ?L (\<lambda>i. bview s (lh_block ?lh i)) (nat (lh_n ?lh)) (bdisk (medium s)) (bdisk (medium t))"
    have lg: "log t = log s" using t(2) by (rule bframe_log)
    show "wpc write_head (\<lambda>_. wpc ?rest (\<lambda>_. committed p a sz s) ?C) ?C t"
    proof (rule wpc_write_head [where a = a and sz = sz and p = p and s = t, unfolded lg])
      show "brefs t ?st < 2 ^ 32 - 1" using P(9) [of ?st] t(3) by simp
      show "?C u" if "power t \<noteq> None" "medium u = medium t" for u :: "'r logst_scheme"
        using crash_old [OF P(6,7,3) order_refl D] that t(2) by (auto simp: bframe_def)
    next
      fix u :: "'r logst_scheme" and h
      assume u: "bchange p t ((bview t)(?st := h)) (brefs t) ((bdisk (medium t))(?st := h)) u" and h: "hdr_n h = lh_n ?lh" "\<And>j. j < nat (lh_n ?lh) \<Longrightarrow> hdr_block h j = lh_block ?lh j"
      show "wpc ?rest (\<lambda>_. committed p a sz s) ?C u"
      proof (rule commit_install [OF pre])
        show "binv p u" "bframe p s u" "brefs u = brefs s" "blocked u = blocked s" using u t by (auto simp: bchange_def intro: bframe_trans)
        show "hdr_n (bdisk (medium u) ?st) = lh_n ?lh" "\<And>j. j < nat (lh_n ?lh) \<Longrightarrow> hdr_block (bdisk (medium u) ?st) j = lh_block ?lh j"
          using u h by (simp_all add: bchange_def)
        show "bview u (?L i) = bview s (lh_block ?lh i)" "bdisk (medium u) (?L i) = bview s (lh_block ?lh i)" if "i < nat (lh_n ?lh)" for i
          using overlay_inside [OF V that] overlay_inside [OF D that] log_block_not_start [OF P(6) H(1) [OF that]] u by (simp_all add: bchange_def)
        show "bdisk (medium u) bn = bdisk (medium s) bn" "bview u bn = bview s bn" if "home a sz bn" for bn
          using overlay_outside [OF D home_outside [OF P(7,6) that]] overlay_outside [OF V home_outside [OF P(7,6) that]] home_not_start [OF P(6) that] u
          by (simp_all add: bchange_def)
      qed
    qed (use t P in simp_all)
  qed
  with True show ?thesis by (simp add: commit_def wp_simps)
qed

section \<open>Recovery\<close>

lemma hdr_ok_cong:
  assumes "\<And>j. j < nat n \<Longrightarrow> f j = g j"
  shows "hdr_ok a sz n f \<longleftrightarrow> hdr_ok a sz n g"
proof -
  have eq: "map f [0..<nat n] = map g [0..<nat n]" using assms by simp
  show ?thesis unfolding hdr_ok_def eq using assms by auto
qed

text \<open>The state in which the log is recovered: nothing is in use yet.\<close>

definition boot_pre :: "nat \<Rightarrow> nat \<Rightarrow> nat \<Rightarrow> 'r logst_scheme \<Rightarrow> bool" where
  "boot_pre p a sz s \<longleftrightarrow> binv p s \<and> log_at a sz (log s) \<and> (\<forall>k. \<not> blocked s k) \<and> (\<forall>k. brefs s k = 0) \<and> disk_log_ok a sz (bdisk (medium s))"

definition replayed :: "nat \<Rightarrow> nat \<Rightarrow> (u32 \<Rightarrow> u8 list) \<Rightarrow> (u32 \<Rightarrow> u8 list) \<Rightarrow> bool" where
  "replayed a sz D D' \<longleftrightarrow> disk_log_ok a sz D' \<and> (\<forall>bn. home a sz bn \<longrightarrow> log_replay a D' bn = log_replay a D bn)"

definition recovered :: "nat \<Rightarrow> nat \<Rightarrow> nat \<Rightarrow> 'r logst_scheme \<Rightarrow> 'r logst_scheme \<Rightarrow> bool" where
  "recovered p a sz s t \<longleftrightarrow> binv p t \<and> (\<forall>k. \<not> blocked t k) \<and> (\<forall>k. brefs t k = 0) \<and> log_at a sz (log t) \<and> lh_n (lg_lh (log t)) = 0
     \<and> hdr_n (bdisk (medium t) (of_nat a)) = 0 \<and> (\<forall>bn. home a sz bn \<longrightarrow> bdisk (medium t) bn = log_replay a (bdisk (medium s)) bn)
     \<and> lg_outstanding (log t) = lg_outstanding (log s) \<and> lg_committing (log t) = lg_committing (log s) \<and> logst.more t = logst.more s
     \<and> (power s = None \<longrightarrow> power t = None)"

lemma replay_partial:
  assumes at: "log_at a sz l" and ok: "disk_log_ok a sz D"
    and n: "n = hdr_n (D (of_nat a))" and blk: "\<And>j. j < nat n \<Longrightarrow> blk j = hdr_block (D (of_nat a)) j"
    and k: "k \<le> nat n" and ov: "overlay blk (\<lambda>i. D (log_block l i)) k D D'"
  shows "D' (of_nat a) = D (of_nat a)" "replayed a sz D D'" "k = nat n \<Longrightarrow> home a sz bn \<Longrightarrow> D' bn = log_replay a D bn"
proof -
  have hok: "hdr_ok a sz n blk" using ok hdr_ok_cong [OF blk] by (simp add: disk_log_ok_def n)
  note H = hdr_okD [OF hok at]
  have same: "D' x = D x" if "\<And>j. j < nat n \<Longrightarrow> blk j \<noteq> x" for x
  proof (rule overlay_outside [OF ov])
    have "blk j \<noteq> x" if "j < k" for j using \<open>\<And>j. j < nat n \<Longrightarrow> blk j \<noteq> x\<close> [of j] that k by simp
    then show "x \<notin> blk ` {..<k}" by auto
  qed
  show st: "D' (of_nat a) = D (of_nat a)" using H(8) by (intro same) blast
  have L: "D' (of_nat (a + i + 1)) = D (of_nat (a + i + 1))" if "i < nat n" for i
    using same [of "log_block l i"] H(7) [OF that] log_block_at(1) [OF at H(1) [OF that]] by simp
  note R = log_replay_full [of D' a n blk sz, unfolded st, OF n [symmetric] blk [symmetric] hok]
    and R0 = log_replay_full [of D a n blk sz, OF n [symmetric] blk [symmetric] hok]
  have "log_replay a D' bn = log_replay a D bn" for bn
  proof (cases "bn \<in> blk ` {..<nat n}")
    case True
    then obtain i where "i < nat n" "bn = blk i" by auto
    with R(2) R0(2) L show ?thesis by simp
  next
    case False
    with R(3) R0(3) same [of bn] show ?thesis by auto
  qed
  then show "replayed a sz D D'" using R(1) by (simp add: replayed_def)
  show "D' bn = log_replay a D bn" if "k = nat n" "home a sz bn"
  proof (cases "bn \<in> blk ` {..<nat n}")
    case True
    then obtain i where i: "i < nat n" "bn = blk i" by auto
    with overlay_inside [OF ov, of i] that(1) R0(2) [OF _ i(1)] log_block_at(1) [OF at H(1) [OF i(1)]] show ?thesis by simp
  next
    case False
    with R0(3) same [of bn] show ?thesis by auto
  qed
qed

lemma recover_clear:
  fixes s u :: "'r logst_scheme"
  assumes pre: "boot_pre p a sz s" and u: "binv p u" "brefs u = brefs s" "blocked u = blocked s" "log_at a sz (log u)"
    and l: "lg_outstanding (log u) = lg_outstanding (log s)" "lg_committing (log u) = lg_committing (log s)" "logst.more u = logst.more s" "power s = None \<longrightarrow> power u = None"
    and hm: "\<And>bn. home a sz bn \<Longrightarrow> bdisk (medium u) bn = log_replay a (bdisk (medium s)) bn" and C: "replayed a sz (bdisk (medium s)) (bdisk (medium u))"
  shows "wpc (upd_log (lg_lh_update (lh_n_update (\<lambda>_. 0)))) (\<lambda>_. wpc write_head (\<lambda>_. recovered p a sz s)
    (\<lambda>t. power s \<noteq> None \<and> replayed a sz (bdisk (medium s)) (bdisk (medium t)))) (\<lambda>t. power s \<noteq> None \<and> replayed a sz (bdisk (medium s)) (bdisk (medium t))) u"
proof -
  let ?l = "lg_lh_update (lh_n_update (\<lambda>_. 0)) (log u)" and ?st = "of_nat a :: u32"
  let ?u = "u\<lparr>log := ?l\<rparr>"
  have P: "log_at a sz (log s)" "\<And>k. \<not> blocked s k" "\<And>k. brefs s k = 0" using pre by (simp_all add: boot_pre_def)
  have "wpc write_head (\<lambda>_. recovered p a sz s) (\<lambda>t. power s \<noteq> None \<and> replayed a sz (bdisk (medium s)) (bdisk (medium t))) ?u"
  proof (rule wpc_write_head [where a = a and sz = sz and p = p])
    show "log_at a sz (log ?u)" using u(4) by (simp add: log_at_def)
    show "power s \<noteq> None \<and> replayed a sz (bdisk (medium s)) (bdisk (medium v))" if "power ?u \<noteq> None" "medium v = medium ?u" for v :: "'r logst_scheme"
      using C that l(4) by auto
  next
    fix v :: "'r logst_scheme" and h
    assume v: "bchange p ?u ((bview ?u)(?st := h)) (brefs ?u) ((bdisk (medium ?u))(?st := h)) v" and h: "hdr_n h = lh_n (lg_lh (log ?u))"
    have fr: "bframe p ?u v" using v by (simp add: bchange_def)
    have "logst.more v = logst.more s" "log v = ?l" "power s = None \<longrightarrow> power v = None"
      using bframe_logmore [OF fr] bframe_log [OF fr] fr l(3,4) by (simp_all add: bframe_def)
    then show "recovered p a sz s v" unfolding recovered_def
      using v h u l P hm home_not_start [OF P(1)] by (simp add: bchange_def log_at_def)
  qed (use u P in simp_all)
  then show ?thesis by (simp add: wp_simps)
qed

lemma wpc_recover:
  fixes s :: "'r logst_scheme"
  assumes pre: "boot_pre p a sz s"
  shows "wpc recover_from_log (\<lambda>_. recovered p a sz s) (\<lambda>t. power s \<noteq> None \<and> replayed a sz (bdisk (medium s)) (bdisk (medium t))) s"
proof -
  let ?D = "bdisk (medium s)" and ?st = "of_nat a :: u32"
  let ?C = "\<lambda>t. power s \<noteq> None \<and> replayed a sz ?D (bdisk (medium t))"
  have P: "binv p s" "log_at a sz (log s)" "\<And>k. \<not> blocked s k" "\<And>k. brefs s k = 0" "disk_log_ok a sz ?D"
    using pre by (simp_all add: boot_pre_def)
  have V: "bview s = ?D" using unreferenced_clean [OF P(1)] P(4) by auto
  have free: "busy t = 0" if "brefs t = brefs s" for t :: "'r logst_scheme" using that P(4) by simp
  have self: "replayed a sz ?D ?D" using P(5) by (simp add: replayed_def)
  define h where "h = ?D ?st"
  define l where "l = lg_lh_update (\<lambda>lh. \<lparr>lh_n = hdr_n h, lh_block = \<lambda>j. if j < nat (hdr_n h) then hdr_block h j else lh_block lh j\<rparr>) (log s)"
  have at: "log_at a sz l" "log_block l = log_block (log s)" using P(2) by (simp_all add: l_def log_at_def log_block_def fun_eq_iff)
  have blk: "lh_n (lg_lh l) = hdr_n h" "\<And>j. j < nat (hdr_n h) \<Longrightarrow> lh_block (lg_lh l) j = hdr_block h j" by (simp_all add: l_def)
  have hok: "hdr_ok a sz (lh_n (lg_lh l)) (lh_block (lg_lh l))"
    using P(5) hdr_ok_cong [OF blk(2)] by (simp add: disk_log_ok_def blk(1) h_def)
  note RP = replay_partial [OF at(1) P(5), of "hdr_n h", OF h_def [THEN arg_cong, of hdr_n], folded h_def, OF blk(2)]
  have "wpc read_head (\<lambda>_. wpc (install_trans True) (\<lambda>_. wpc (upd_log (lg_lh_update (lh_n_update (\<lambda>_. 0)))) (\<lambda>_. wpc write_head (\<lambda>_. recovered p a sz s) ?C) ?C) ?C) ?C s"
  proof (rule wpc_read_head [OF P(2,1)])
    fix t :: "'r logst_scheme"
    assume "bchange p (s\<lparr>log := lg_lh_update (\<lambda>lh. \<lparr>lh_n = hdr_n (bview s ?st), lh_block = \<lambda>j. if j < nat (hdr_n (bview s ?st)) then hdr_block (bview s ?st) j else lh_block lh j\<rparr>) (log s)\<rparr>) (bview s) (brefs s) ?D t"
    then have B: "bchange p (s\<lparr>log := l\<rparr>) ?D (brefs s) ?D t" unfolding l_def h_def V .
    then have t: "binv p t" "bframe p (s\<lparr>log := l\<rparr>) t" "bview t = ?D" "brefs t = brefs s" "blocked t = blocked s" "bdisk (medium t) = ?D"
      by (simp_all add: bchange_def)
    have lg: "log t = l" using bframe_log [OF t(2)] by simp
    have pre2: "log_pre p a sz t" using t P(3,4) at(1) hok by (simp add: log_pre_def lg)
    show "wpc (install_trans True) (\<lambda>_. wpc (upd_log (lg_lh_update (lh_n_update (\<lambda>_. 0)))) (\<lambda>_. wpc write_head (\<lambda>_. recovered p a sz s) ?C) ?C) ?C t"
    proof (rule wpc_install_trans [OF pre2, unfolded lg blk(1) t(3,6)])
      show "if True then Suc (busy t) < NBUF else busy t < NBUF \<and> (\<forall>i<nat (hdr_n h). 0 < brefs t (lh_block (lg_lh l) i))" using free [OF t(4)] by simp
      show "?C u" if "power t \<noteq> None" "k \<le> nat (hdr_n h)" "overlay (lh_block (lg_lh l)) (\<lambda>i. ?D (log_block l i)) k ?D (bdisk (medium u))" for u :: "'r logst_scheme" and k
        using RP(2) [OF _ that(2,3)] that(1) t(2) by (auto simp: bframe_def)
    next
      fix u :: "'r logst_scheme"
      assume u: "binv p u" "bframe p t u" "blocked u = blocked t" and D: "overlay (lh_block (lg_lh l)) (\<lambda>i. ?D (log_block l i)) (nat (hdr_n h)) ?D (bdisk (medium u))"
        and r: "if True then brefs u = brefs t else overlay (lh_block (lg_lh l)) (\<lambda>i. brefs t (lh_block (lg_lh l) i) - 1) (nat (hdr_n h)) (brefs t) (brefs u)"
      have lg': "log u = l" using bframe_log [OF u(2)] lg by simp
      show "wpc (upd_log (lg_lh_update (lh_n_update (\<lambda>_. 0)))) (\<lambda>_. wpc write_head (\<lambda>_. recovered p a sz s) ?C) ?C u"
      proof (rule recover_clear [OF pre u(1)])
        show "brefs u = brefs s" "blocked u = blocked s" using r t(4,5) u(3) by simp_all
        show "log_at a sz (log u)" "lg_outstanding (log u) = lg_outstanding (log s)" "lg_committing (log u) = lg_committing (log s)"
          using at(1) by (simp_all add: lg' l_def)
        show "logst.more u = logst.more s" using bframe_logmore [OF u(2)] bframe_logmore [OF t(2)] by simp
        show "power s = None \<longrightarrow> power u = None" using u(2) t(2) by (simp add: bframe_def)
        show "bdisk (medium u) bn = log_replay a ?D bn" if "home a sz bn" for bn by (rule RP(3) [OF _ order_refl D refl that]) simp
        show "replayed a sz ?D (bdisk (medium u))" using RP(2) [OF _ order_refl D] by simp
      qed
    qed
  qed (use P self free in simp_all)
  then show ?thesis by (simp add: recover_from_log_def wp_simps)
qed

section \<open>Transactions\<close>

text \<open>The header after \<^verbatim>\<open>log_write\<close> of a block.\<close>

definition log_put :: "klog \<Rightarrow> u32 \<Rightarrow> klog" where
  "log_put l bn = (let i = log_find (lg_lh l) bn in l\<lparr>lg_lh := \<lparr>lh_n = (if i = nat (lh_n (lg_lh l)) then lh_n (lg_lh l) + 1 else lh_n (lg_lh l)),
     lh_block = (lh_block (lg_lh l))(i := bn)\<rparr>\<rparr>)"

definition log_new_block :: "klog \<Rightarrow> u32 \<Rightarrow> bool" where
  "log_new_block l bn \<longleftrightarrow> log_find (lg_lh l) bn = nat (lh_n (lg_lh l))"

lemma log_write_run:
  fixes s :: "'r logst_scheme" and b
  assumes "quiet p s"
  defines "l \<equiv> log s" and "bn \<equiv> b_blockno (bufs s b)"
  shows "log_write b s = (if lh_n (lg_lh l) \<ge> LOGSIZE \<or> lh_n (lg_lh l) \<ge> lg_size l - 1 then Panic ''too big a transaction''
    else if lg_outstanding l < 1 then Panic ''log_write outside of trans''
    else Ok () ((cycled s)\<lparr>bufs := (if log_new_block l bn then (bufs s)(b := b_refcnt_update (\<lambda>n. n + 1) (bufs s b)) else bufs s), log := log_put l bn\<rparr>))"
proof -
  note Q = quietD [OF assms(1)]
  show ?thesis unfolding l_def bn_def
    using Q by (simp add: log_write_def bpin_def run_simps log_put_def log_new_block_def Let_def)
qed



lemma bframe_log_upd: "bframe p s t \<Longrightarrow> bframe p (s\<lparr>log := l\<rparr>) (t\<lparr>log := l\<rparr>)"
  by (cases s, cases t) (simp add: bframe_def)

lemma bpin_run: "quiet p s \<Longrightarrow> bpin i s = Ok () ((cycled s)\<lparr>bufs := (bufs s)(i := b_refcnt_update (\<lambda>n. n + 1) (bufs s i))\<rparr>)"
  using quietD [of p s] by (simp add: bpin_def run_simps)

lemma log_find_cases:
  obtains (old) i where "i < nat (lh_n lh)" "lh_block lh i = bn" "log_find lh bn = i" | (new) "bn \<notin> lh_block lh ` {..<nat (lh_n lh)}" "log_find lh bn = nat (lh_n lh)"
proof (cases "find (\<lambda>i. lh_block lh i = bn) [0..<nat (lh_n lh)]")
  case None
  then have "bn \<notin> lh_block lh ` {..<nat (lh_n lh)}" unfolding find_None_iff by auto
  with None new show ?thesis by (simp add: log_find_def)
next
  case (Some i)
  then have "i < nat (lh_n lh)" "lh_block lh i = bn" "log_find lh bn = i" using find_SomeD [OF Some] by (simp_all add: log_find_def)
  then show ?thesis by (rule old)
qed

text \<open>The blocks of the current transaction.\<close>

definition logged :: "klog \<Rightarrow> u32 set" where
  "logged l = lh_block (lg_lh l) ` {..<nat (lh_n (lg_lh l))}"

lemma log_put_old: "bn \<in> logged l \<Longrightarrow> log_put l bn = l \<and> \<not> log_new_block l bn"
proof (rule log_find_cases [of "lg_lh l" bn])
  fix i
  assume i: "i < nat (lh_n (lg_lh l))" "lh_block (lg_lh l) i = bn" "log_find (lg_lh l) bn = i"
  then have "(lh_block (lg_lh l))(i := bn) = lh_block (lg_lh l)" by auto
  with i show "log_put l bn = l \<and> \<not> log_new_block l bn" by (simp add: log_put_def log_new_block_def)
qed (simp add: logged_def)

lemma log_put_new:
  assumes "bn \<notin> logged l" "0 \<le> lh_n (lg_lh l)"
  shows "log_new_block l bn" "logged (log_put l bn) = insert bn (logged l)" "lh_n (lg_lh (log_put l bn)) = lh_n (lg_lh l) + 1"
    "hdr_ok a sz (lh_n (lg_lh l)) (lh_block (lg_lh l)) \<Longrightarrow> home a sz bn \<Longrightarrow> lh_n (lg_lh l) < LOGSIZE \<Longrightarrow> lh_n (lg_lh l) < int sz - 1 \<Longrightarrow>
      hdr_ok a sz (lh_n (lg_lh (log_put l bn))) (lh_block (lg_lh (log_put l bn)))"
proof -
  define n where "n = nat (lh_n (lg_lh l))"
  have i: "log_find (lg_lh l) bn = n" using assms(1) by (rule_tac log_find_cases [of "lg_lh l" bn]) (auto simp: logged_def n_def)
  have lp: "log_put l bn = l\<lparr>lg_lh := \<lparr>lh_n = lh_n (lg_lh l) + 1, lh_block = (lh_block (lg_lh l))(n := bn)\<rparr>\<rparr>"
    using i by (simp add: log_put_def Let_def n_def)
  show "log_new_block l bn" using i by (simp add: log_new_block_def n_def)
  have n': "nat (lh_n (lg_lh l) + 1) = Suc n" using assms(2) by (simp add: n_def)
  show "logged (log_put l bn) = insert bn (logged l)" unfolding logged_def lp using n' by (auto simp: lessThan_Suc n_def [symmetric])
  show "lh_n (lg_lh (log_put l bn)) = lh_n (lg_lh l) + 1" by (simp add: lp)
  assume ok: "hdr_ok a sz (lh_n (lg_lh l)) (lh_block (lg_lh l))" and h: "home a sz bn" "lh_n (lg_lh l) < LOGSIZE" "lh_n (lg_lh l) < int sz - 1"
  have "map ((lh_block (lg_lh l))(n := bn)) [0..<Suc n] = map (lh_block (lg_lh l)) [0..<n] @ [bn]" by simp
  moreover have "distinct (map (lh_block (lg_lh l)) [0..<n] @ [bn])" using ok assms(1) by (auto simp: hdr_ok_def n_def logged_def)
  ultimately have "distinct (map ((lh_block (lg_lh l))(n := bn)) [0..<Suc n])" by (simp only:)
  then show "hdr_ok a sz (lh_n (lg_lh (log_put l bn))) (lh_block (lg_lh (log_put l bn)))"
    using ok h n' unfolding hdr_ok_def lp by (auto simp: less_Suc_eq n_def [symmetric] simp del: upt_Suc)
qed

lemma log_put_fields [simp]:
  "lg_start (log_put l bn) = lg_start l" "lg_size (log_put l bn) = lg_size l" "lg_dev (log_put l bn) = lg_dev l"
  "lg_outstanding (log_put l bn) = lg_outstanding l" "lg_committing (log_put l bn) = lg_committing l"
  by (simp_all add: log_put_def Let_def)

lemma log_at_put [simp]: "log_at a sz (log_put l bn) = log_at a sz l"
  by (simp add: log_at_def)

text \<open>\<^verbatim>\<open>log_write\<close> of a buffer that the process holds.\<close>

lemma wp_log_write:
  fixes s :: "'r logst_scheme"
  assumes own: "bowned p s bn b" and n: "0 \<le> lh_n (lg_lh (log s))" "lh_n (lg_lh (log s)) < LOGSIZE" "lh_n (lg_lh (log s)) < lg_size (log s) - 1" "1 \<le> lg_outstanding (log s)"
    and lt: "brefs s bn < 2 ^ 32 - 1"
  shows "wp (log_write b) (\<lambda>_ t. bowned p t bn b \<and> bframe p (s\<lparr>log := log_put (log s) bn\<rparr>) t \<and> bview t = bview s \<and> medium t = medium s
    \<and> brefs t = (if bn \<in> logged (log s) then brefs s else (brefs s)(bn := Suc (brefs s bn))) \<and> blocked t = blocked s \<and> bkeep p s bn t) s"
proof -
  note D = bownedD [OF own]
  let ?l = "log_put (log s) bn"
  have run: "log_write b s = Ok () ((cycled s)\<lparr>bufs := (if log_new_block (log s) bn then (bufs s)(b := b_refcnt_update (\<lambda>n. n + 1) (bufs s b)) else bufs s), log := ?l\<rparr>)"
    unfolding log_write_run [OF D(1)] using n D(8) by simp
  show ?thesis
  proof (cases "bn \<in> logged (log s)")
    case True
    then have l: "?l = log s" "\<not> log_new_block (log s) bn" using log_put_old by blast+
    have "(cycled s)\<lparr>bufs := bufs s, log := log s\<rparr> = cycled s" by (rule logst.equality) simp_all
    with run l have "log_write b s = Ok () (cycled s)" by simp
    moreover have "bowned p (cycled s) bn b" using own by (simp add: bowned_def binv_def bheld_def)
    moreover have "bview (cycled s) = bview s" "brefs (cycled s) = brefs s" "blocked (cycled s) = blocked s"
      by (simp_all add: bview_def brefs_def blocked_def fun_eq_iff split: option.split)
    moreover have "bkeep p s bn (cycled s)" by (rule bkeepI) (simp_all add: bowned_def)
    ultimately show ?thesis using True l(1) by (simp add: wp_def bframe_def)
  next
    case False
    then have l: "log_new_block (log s) bn" using log_put_new(1) n(1) by blast
    let ?u = "(cycled s)\<lparr>bufs := (bufs s)(b := b_refcnt_update (\<lambda>n. n + 1) (bufs s b))\<rparr>"
    have pin: "bpin b s = Ok () ?u" by (rule bpin_run [OF D(1)])
    have U: "bowned p ?u bn b" "bframe p s ?u" "bview ?u = bview s" "brefs ?u = (brefs s)(bn := Suc (brefs s bn))" "blocked ?u = blocked s" "bkeep p s bn ?u"
      using wp_bpin [OF own lt] pin by (simp_all add: wp_def)
    have run': "log_write b s = Ok () (?u\<lparr>log := ?l\<rparr>)" using run l by simp
    have "bframe p (s\<lparr>log := ?l\<rparr>) (?u\<lparr>log := ?l\<rparr>)" using U(2) by (rule bframe_log_upd)
    moreover have "bkeep p s bn (?u\<lparr>log := ?l\<rparr>)" using U(6) unfolding bkeep_def by simp
    moreover have "bowned p (?u\<lparr>log := ?l\<rparr>) bn b" "bview (?u\<lparr>log := ?l\<rparr>) = bview s" "brefs (?u\<lparr>log := ?l\<rparr>) = (brefs s)(bn := Suc (brefs s bn))" "blocked (?u\<lparr>log := ?l\<rparr>) = blocked s"
      using U by simp_all
    ultimately show ?thesis using run' False by (simp add: wp_def)
  qed
qed

section \<open>Reservation of log space\<close>

lemma log_more: "diskst.more t = diskst.more s \<Longrightarrow> log t = log s" for s :: "'r logst_scheme"
  by (cases s, cases t) simp

lemma keeps_log: "keeps diskst.more f \<Longrightarrow> keeps log f" for f :: "('r logst_scheme, 'a) kprog"
  unfolding keeps_def
proof
  fix s :: "'r logst_scheme"
  assume "\<forall>s. case f s of Ok a t \<Rightarrow> diskst.more t = diskst.more s | Sleep c t \<Rightarrow> diskst.more t = diskst.more s | Exit t \<Rightarrow> diskst.more t = diskst.more s | _ \<Rightarrow> True"
  from spec [OF this, of s] show "case f s of Ok a t \<Rightarrow> log t = log s | Sleep c t \<Rightarrow> log t = log s | Exit t \<Rightarrow> log t = log s | _ \<Rightarrow> True"
    by (auto split: outcome.splits dest: log_more)
qed

lemma keeps_bread_arg: "keeps diskst.more (\<lambda>s. bread (d s) (b s) s)"
  using keeps_arg [of diskst.more "\<lambda>(d, b). bread d b" "\<lambda>s. (d s, b s)"] by (simp add: keeps_more_bio split: prod.splits)

lemma keeps_log_loops:
  "keeps diskst.more (install_one r i)" "keeps diskst.more (write_log_one i)" "keeps diskst.more write_head"
proof -
  have m: "keeps diskst.more (\<lambda>s. upd_buf b (g s) s)" for b and g :: "'r logst_scheme \<Rightarrow> buf \<Rightarrow> buf" by (simp add: keeps_def run_simps)
  show "keeps diskst.more (install_one r i)" "keeps diskst.more (write_log_one i)" "keeps diskst.more (write_head :: ('r logst_scheme, unit) kprog)"
    unfolding install_one_def write_log_one_def write_head_def by (intro keeps_intros keeps_bread_arg m)+
qed

lemma keeps_log_trans: "keeps log (install_trans r)" "keeps log write_log" "keeps log write_head"
proof -
  have "keeps log (\<lambda>s. forK (install_one r) (f s) s)" "keeps log (\<lambda>s. forK write_log_one (f s) s)" for f :: "'r logst_scheme \<Rightarrow> nat list"
    by (rule keeps_arg [of log "forK (install_one r)"] keeps_arg [of log "forK write_log_one"], rule keeps_forK, rule keeps_log, rule keeps_log_loops)+
  then show "keeps log (install_trans r :: ('r logst_scheme, unit) kprog)" "keeps log (write_log :: ('r logst_scheme, unit) kprog)"
    unfolding install_trans_def [abs_def] write_log_def [abs_def] .
  show "keeps log write_head" by (rule keeps_log [OF keeps_log_loops(3)])
qed

lemma commit_Ok:
  assumes "commit s = Ok () t"
  shows "log t = (if lh_n (lg_lh (log s)) > 0 then (log s)\<lparr>lg_lh := (lg_lh (log s))\<lparr>lh_n := 0\<rparr>\<rparr> else log s)"
  using assms by (auto simp: commit_def run_simps obind_Ok_iff split: if_splits dest!: keepsD(1) [OF keeps_log_trans(1)] keepsD(1) [OF keeps_log_trans(2)] keepsD(1) [OF keeps_log_trans(3)])

lemmas keeps_log_locking = keeps_log [OF keeps_more_locking(1)] keeps_log [OF keeps_more_locking(2)] keeps_log [OF keeps_more_locking(8)]

lemma begin_op_Ok:
  assumes "begin_op s = Ok () t"
  shows "lg_committing (log s) = 0" "lh_n (lg_lh (log s)) + (lg_outstanding (log s) + 1) * MAXOPBLOCKS \<le> LOGSIZE"
    "log t = (log s)\<lparr>lg_outstanding := lg_outstanding (log s) + 1\<rparr>"
  using assms by (auto simp: begin_op_def begin_op_loop_def run_simps obind_Ok_iff sleep_def split: if_splits
      dest!: keepsD(1) [OF keeps_log_locking(1)] keepsD(1) [OF keeps_log_locking(2)])

lemma bpin_log: "bpin b s = Ok () t \<Longrightarrow> log t = log s" for s :: "'r logst_scheme"
  by (rule keepsD(1) [OF keeps_log]) (rule keeps_more_bio)

lemma log_write_Ok:
  assumes "log_write b s = Ok () t"
  shows "lh_n (lg_lh (log s)) < LOGSIZE" "lh_n (lg_lh (log s)) < lg_size (log s) - 1" "1 \<le> lg_outstanding (log s)"
    "log t = log_put (log s) (b_blockno (bufs s b))"
  using assms by (auto simp: log_write_def run_simps obind_Ok_iff log_put_def Let_def not_le split: if_splits intro!: klog.equality
      dest!: keepsD(1) [OF keeps_log_locking(1)] keepsD(1) [OF keeps_log_locking(2)] bpin_log)

lemma wlp_keeps: "keeps F f \<Longrightarrow> (\<And>a t. F t = F s \<Longrightarrow> Q a t) \<Longrightarrow> wlp f Q s"
  unfolding wlp_iff by (blast dest: keepsD(1))

lemma wlp_points:
  "wlp (bind f g) Q = wlp f (\<lambda>a. wlp (g a) Q)" "wlp (ret b) P = P b" "wlp skip R = R ()" "wlp (modify h) R = (\<lambda>s. R () (h s))"
  "wlp (whenK c z) R = (if c then wlp z R else R ())" "wlp (block cs) R = wlp (seqK cs skip) R" "wlp (ifS d x y) P = (\<lambda>s. if d s then wlp x P s else wlp y P s)"
  "wlp (panic_if d m) R = (\<lambda>s. \<not> d s \<longrightarrow> R () s)"
  by (simp_all add: fun_eq_iff wp_simps)

lemma wlp_commit: "(\<And>t. log t = (if lh_n (lg_lh (log s)) > 0 then (log s)\<lparr>lg_lh := (lg_lh (log s))\<lparr>lh_n := 0\<rparr>\<rparr> else log s) \<Longrightarrow> Q () t) \<Longrightarrow> wlp commit Q s"
  unfolding wlp_iff by (metis commit_Ok old.unit.exhaust)

text \<open>The log after \<^verbatim>\<open>end_op\<close>.\<close>

definition log_ended :: "klog \<Rightarrow> klog" where
  "log_ended l = (if lg_outstanding l = 1
     then l\<lparr>lg_outstanding := 0, lg_lh := (lg_lh l)\<lparr>lh_n := (if lh_n (lg_lh l) > 0 then 0 else lh_n (lg_lh l))\<rparr>\<rparr>
     else l\<lparr>lg_outstanding := lg_outstanding l - 1\<rparr>)"

lemma end_op_Ok:
  assumes "end_op s = Ok () t"
  shows "lg_committing (log s) = 0" "log t = log_ended (log s)"
proof -
  have "wlp end_op (\<lambda>_ t. lg_committing (log s) = 0 \<and> log t = log_ended (log s)) s"
    unfolding end_op_def seqK.simps wlp_points
  proof (rule wlp_keeps [OF keeps_log_locking(1)], goal_cases)
    case (1 _ t)
    show ?case
      apply (simp add: 1, intro conjI impI)
       apply (rule wlp_keeps [OF keeps_log_locking(2)], rule wlp_commit)
       apply (rule wlp_keeps [OF keeps_log_locking(1)], rule wlp_keeps [OF keeps_log_locking(3)], rule wlp_keeps [OF keeps_log_locking(2)])
       apply (auto simp: log_ended_def intro!: klog.equality)[1]
      apply (rule wlp_keeps [OF keeps_log_locking(3)], rule wlp_keeps [OF keeps_log_locking(2)])
      apply (auto simp: log_ended_def intro!: klog.equality)
      done
  qed
  then show "lg_committing (log s) = 0" "log t = log_ended (log s)" using assms unfolding wlp_iff by blast+
qed

text \<open>The operations of several processes on one log.  The second component gives, for every process inside a
  transaction, how many blocks it has added to the header.\<close>

inductive log_step :: "klog \<times> (nat \<rightharpoonup> nat) \<Rightarrow> klog \<times> (nat \<rightharpoonup> nat) \<Rightarrow> bool" where
  lstep_begin: "begin_op (s :: logst) = Ok () t \<Longrightarrow> w q = None \<Longrightarrow> log_step (log s, w) (log t, w(q \<mapsto> 0))"
| lstep_write: "log_write b (s :: logst) = Ok () t \<Longrightarrow> w q = Some k \<Longrightarrow> k' = k + nat (lh_n (lg_lh (log t)) - lh_n (lg_lh (log s))) \<Longrightarrow> k' \<le> MAXOPBLOCKS
    \<Longrightarrow> log_step (log s, w) (log t, w(q \<mapsto> k'))"
| lstep_end: "end_op (s :: logst) = Ok () t \<Longrightarrow> w q = Some k \<Longrightarrow> log_step (log s, w) (log t, w(q := None))"

definition log_idle :: "int \<Rightarrow> klog \<times> (nat \<rightharpoonup> nat) \<Rightarrow> bool" where
  "log_idle sz = (\<lambda>(l, w). lg_size l = sz \<and> lh_n (lg_lh l) = 0 \<and> lg_outstanding l = 0 \<and> lg_committing l = 0 \<and> w = Map.empty)"

text \<open>The blocks that the processes inside a transaction may still add.\<close>

definition log_owed :: "(nat \<rightharpoonup> nat) \<Rightarrow> nat" where
  "log_owed w = (\<Sum>q\<in>dom w. MAXOPBLOCKS - the (w q))"

definition log_space :: "int \<Rightarrow> klog \<times> (nat \<rightharpoonup> nat) \<Rightarrow> bool" where
  "log_space sz = (\<lambda>(l, w). lg_size l = sz \<and> finite (dom w) \<and> lg_outstanding l = int (card (dom w)) \<and> lg_committing l = 0
     \<and> 0 \<le> lh_n (lg_lh l) \<and> lh_n (lg_lh l) + int (log_owed w) \<le> LOGSIZE)"

lemma log_owed_new: "finite (dom w) \<Longrightarrow> w q = None \<Longrightarrow> log_owed (w(q \<mapsto> k)) = MAXOPBLOCKS - k + log_owed w"
proof -
  assume w: "finite (dom w)" "w q = None"
  have "log_owed (w(q \<mapsto> k)) = (\<Sum>x\<in>insert q (dom w). MAXOPBLOCKS - the ((w(q \<mapsto> k)) x))" by (simp add: log_owed_def)
  also have "\<dots> = MAXOPBLOCKS - k + (\<Sum>x\<in>dom w. MAXOPBLOCKS - the ((w(q \<mapsto> k)) x))" using w by (subst sum.insert) auto
  also have "(\<Sum>x\<in>dom w. MAXOPBLOCKS - the ((w(q \<mapsto> k)) x)) = log_owed w" unfolding log_owed_def by (rule sum.cong) (use w in auto)
  finally show ?thesis .
qed

lemma log_owed_remove: "finite (dom w) \<Longrightarrow> w q = Some k \<Longrightarrow> log_owed w = MAXOPBLOCKS - k + log_owed (w(q := None))"
  using log_owed_new [of "w(q := None)" q k] by (simp add: fun_upd_idem)

lemma log_owed_upd: "finite (dom w) \<Longrightarrow> w q = Some k \<Longrightarrow> log_owed (w(q \<mapsto> k')) = MAXOPBLOCKS - k' + log_owed (w(q := None))"
  using log_owed_new [of "w(q := None)" q k'] by simp

lemma log_owed_le: "finite (dom w) \<Longrightarrow> log_owed w \<le> card (dom w) * MAXOPBLOCKS"
  unfolding log_owed_def by (rule order_trans [OF sum_bounded_above [where K = MAXOPBLOCKS]]) simp_all

lemma log_put_n: "lh_n (lg_lh (log_put l bn)) \<in> {lh_n (lg_lh l), lh_n (lg_lh l) + 1}"
  by (simp add: log_put_def Let_def)

interpretation logsp: invariant_system "log_idle sz" log_step "log_space sz" for sz
proof
  show "log_space sz g" if "log_idle sz g" for g using that by (auto simp: log_idle_def log_space_def log_owed_def)
  fix g g'
  assume inv: "log_space sz g" and "log_step g g'"
  from this(2) show "log_space sz g'"
  proof cases
    case (lstep_begin s t w q)
    note B = begin_op_Ok [OF lstep_begin(3)]
    have w: "finite (dom w)" "lg_outstanding (log s) = int (card (dom w))" "q \<notin> dom w" using inv lstep_begin(1,4) by (auto simp: log_space_def)
    have "int (log_owed w) \<le> int (card (dom w)) * MAXOPBLOCKS" using log_owed_le [OF w(1)] by (simp flip: of_nat_mult of_nat_le_iff)
    then have "lh_n (lg_lh (log s)) + int (log_owed (w(q \<mapsto> 0))) \<le> LOGSIZE"
      using B(2) w(2) log_owed_new [OF w(1) lstep_begin(4), of 0] by (simp add: algebra_simps)
    with inv w show ?thesis by (simp add: lstep_begin(1,2) log_space_def B(3))
  next
    case (lstep_write b s t w q k k')
    note W = log_write_Ok [OF lstep_write(3)]
    have w: "finite (dom w)" using inv by (simp add: lstep_write(1) log_space_def)
    have "dom (w(q \<mapsto> k')) = dom w" using lstep_write(4) by auto
    moreover have "lh_n (lg_lh (log t)) + int (log_owed (w(q \<mapsto> k'))) \<le> LOGSIZE" "0 \<le> lh_n (lg_lh (log t))"
      using inv log_put_n [of "log s" "b_blockno (bufs s b)"] log_owed_remove [OF w lstep_write(4)] log_owed_upd [OF w lstep_write(4), of k'] lstep_write(5,6)
      by (auto simp: lstep_write(1) log_space_def W(4))
    ultimately show ?thesis using inv by (simp add: lstep_write(1,2) log_space_def W(4))
  next
    case (lstep_end s t w q k)
    note E = end_op_Ok [OF lstep_end(3)]
    have w: "finite (dom w)" "q \<in> dom w" using inv lstep_end(1,4) by (auto simp: log_space_def)
    have "log_owed (w(q := None)) \<le> log_owed w" using log_owed_remove [OF w(1) lstep_end(4)] by simp
    moreover have "Suc (card (dom w - {q})) = card (dom w)" by (rule card_Suc_Diff1 [OF w])
    ultimately show ?thesis using inv w by (auto simp: lstep_end(1,2) log_space_def E(2) log_ended_def)
  qed
qed


section \<open>Initialization\<close>

lemma quiet_initlock:
  assumes "quiet p s"
  shows "quiet p (upd_lock l (\<lambda>_. \<lparr>lk_locked = 0, lk_name = nm, lk_cpu = None\<rparr>) s)"
  using assms by (auto simp: quiet_def upd_lock_def unlocked_def mycpu_def cpuid_def r_tp_def)

lemma lock_frame [simp]:
  "bview (upd_lock l f s) = bview s" "brefs (upd_lock l f s) = brefs s" "blocked (upd_lock l f s) = blocked s"
  "vdisk_ready (upd_lock l f s) = vdisk_ready s" "bufs (upd_lock l f s) = bufs s" "medium (upd_lock l f s) = medium s"
  "power (upd_lock l f s) = power s" "slocks (upd_lock l f s) = slocks s" "log (upd_lock l f s') = log s'" "logst.more (upd_lock l f s') = logst.more s'"
proof -
  show *: "vdisk_ready (upd_lock l f s) = vdisk_ready s" "bufs (upd_lock l f s) = bufs s" "medium (upd_lock l f s) = medium s"
    "power (upd_lock l f s) = power s" "slocks (upd_lock l f s) = slocks s" "log (upd_lock l f s') = log s'" "logst.more (upd_lock l f s') = logst.more s'"
    by (simp_all add: upd_lock_def vdisk_ready_def)
  show "bview (upd_lock l f s) = bview s" "brefs (upd_lock l f s) = brefs s" "blocked (upd_lock l f s) = blocked s"
    unfolding bview_def brefs_def blocked_def fun_eq_iff * by simp_all
qed

lemma binv_initlock: "binv p s \<Longrightarrow> binv p (upd_lock l (\<lambda>_. \<lparr>lk_locked = 0, lk_name = nm, lk_cpu = None\<rparr>) s)"
  using quiet_initlock [of p s l nm] by (simp add: binv_def)

text \<open>A machine that boots from the medium \<open>m\<close>: the cache is empty.\<close>

definition boots :: "nat \<Rightarrow> nat \<Rightarrow> nat \<Rightarrow> superblock \<Rightarrow> medium \<Rightarrow> 'r logst_scheme \<Rightarrow> bool" where
  "boots p a sz sb m s \<longleftrightarrow> binv p s \<and> (\<forall>k. \<not> blocked s k) \<and> (\<forall>k. brefs s k = 0) \<and> medium s = m
     \<and> sb_logstart sb = of_nat a \<and> sb_nlog sb = of_nat sz \<and> 0 < sz \<and> a + sz \<le> FSSIZE"

lemma wpc_initlog:
  fixes s :: "'r logst_scheme"
  assumes boot: "boots p a sz sb m s" and ok: "disk_log_ok a sz (bdisk m)"
  shows "wpc (initlog ROOTDEV sb) (\<lambda>_ t. binv p t \<and> log_at a sz (log t) \<and> lh_n (lg_lh (log t)) = 0 \<and> hdr_n (bdisk (medium t) (of_nat a)) = 0
      \<and> (\<forall>k. \<not> blocked t k) \<and> (\<forall>k. brefs t k = 0) \<and> (\<forall>bn. home a sz bn \<longrightarrow> bdisk (medium t) bn = log_replay a (bdisk m) bn) \<and> (power s = None \<longrightarrow> power t = None))
    (\<lambda>t. power s \<noteq> None \<and> replayed a sz (bdisk m) (bdisk (medium t))) s"
proof -
  let ?l = "(log s)\<lparr>lg_start := sint (sb_logstart sb), lg_size := sint (sb_nlog sb), lg_dev := ROOTDEV\<rparr>"
  let ?s = "(upd_lock L_log (\<lambda>_. \<lparr>lk_locked = 0, lk_name = ''log'', lk_cpu = None\<rparr>) s)\<lparr>log := ?l\<rparr>"
  have B: "binv p s" "\<And>k. \<not> blocked s k" "\<And>k. brefs s k = 0" "medium s = m" "sb_logstart sb = of_nat a" "sb_nlog sb = of_nat sz" "0 < sz" "a + sz \<le> FSSIZE"
    using boot by (simp_all add: boots_def)
  have "sint (of_nat a :: u32) = int a" "sint (of_nat sz :: u32) = int sz"
    using sint_word_of_int [of "int a"] sint_word_of_int [of "int sz"] B(8) by simp_all
  then have at: "log_at a sz (log ?s)" using B by (simp add: log_at_def)
  have pre: "boot_pre p a sz ?s" unfolding boot_pre_def using B binv_initlock at ok by simp
  have "wpc recover_from_log (\<lambda>_. recovered p a sz ?s) (\<lambda>t. power ?s \<noteq> None \<and> replayed a sz (bdisk (medium ?s)) (bdisk (medium t))) ?s" by (rule wpc_recover [OF pre])
  then have "wpc recover_from_log (\<lambda>_ t. binv p t \<and> log_at a sz (log t) \<and> lh_n (lg_lh (log t)) = 0 \<and> hdr_n (bdisk (medium t) (of_nat a)) = 0
      \<and> (\<forall>k. \<not> blocked t k) \<and> (\<forall>k. brefs t k = 0) \<and> (\<forall>bn. home a sz bn \<longrightarrow> bdisk (medium t) bn = log_replay a (bdisk m) bn) \<and> (power s = None \<longrightarrow> power t = None))
    (\<lambda>t. power s \<noteq> None \<and> replayed a sz (bdisk m) (bdisk (medium t))) ?s"
    by (rule wpc_mono) (use B(4) in \<open>simp_all add: recovered_def\<close>)
  moreover have "initlog ROOTDEV sb s = recover_from_log ?s" by (simp add: initlog_def initlock_def run_simps)
  ultimately show ?thesis unfolding wpc_def by simp
qed

section \<open>A concrete log\<close>

text \<open>The machine of \<open>demo_cache\<close> with a log in the blocks 2 to 31, and the same machine with one block in the transaction.\<close>

definition demo_log :: logst where
  "demo_log = diskst.extend (demo_cache\<lparr>medium := \<lambda>k. if k = 4 \<or> k = 5 then replicate 512 0 else replicate 512 (ucast k)\<rparr>)
     \<lparr>log = \<lparr>lg_start = 2, lg_size = 30, lg_outstanding = 1, lg_committing = 0, lg_dev = 1, lg_lh = \<lparr>lh_n = 0, lh_block = \<lambda>_. 0\<rparr>\<rparr>\<rparr>"

definition demo_trans :: logst where
  "demo_trans = demo_log\<lparr>bufs := (bufs demo_log)(0 := (bufs demo_log 0)\<lparr>b_valid := 1, b_dev := 1, b_blockno := 40, b_refcnt := 1, b_data := replicate 1024 7\<rparr>),
     log := (log demo_log)\<lparr>lg_lh := \<lparr>lh_n = 1, lh_block = \<lambda>_. 40\<rparr>\<rparr>\<rparr>"

lemma diskst_extend_base [simp]:
  "cpuid (diskst.extend s x) = cpuid s" "mycpu (diskst.extend s x) = mycpu s" "locks (diskst.extend s x) = locks s"
  "unlocked l (diskst.extend s x) = unlocked l s" "procs (diskst.extend s x) = procs s" "slocks (diskst.extend s x) = slocks s"
  "bufs (diskst.extend s x) = bufs s" "medium (diskst.extend s x) = medium s" "power (diskst.extend s x) = power s"
  "vdisk_ready (diskst.extend s x) = vdisk_ready s" "quiet p (diskst.extend s x) = quiet p s"
  by (simp_all add: diskst.extend_def cpuid_def r_tp_def mycpu_def unlocked_def vdisk_ready_def quiet_def)

lemma demo_log_sel:
  "medium demo_log = (\<lambda>k. if k = 4 \<or> k = 5 then replicate 512 0 else replicate 512 (ucast k))" "bufs demo_log = bufs demo_cache" "slocks demo_log = slocks demo_cache"
  "log demo_log = \<lparr>lg_start = 2, lg_size = 30, lg_outstanding = 1, lg_committing = 0, lg_dev = 1, lg_lh = \<lparr>lh_n = 0, lh_block = \<lambda>_. 0\<rparr>\<rparr>" "power demo_log = None"
  "quiet 0 demo_log" "vdisk_ready demo_log"
proof -
  show "log demo_log = \<lparr>lg_start = 2, lg_size = 30, lg_outstanding = 1, lg_committing = 0, lg_dev = 1, lg_lh = \<lparr>lh_n = 0, lh_block = \<lambda>_. 0\<rparr>\<rparr>"
    by (simp add: demo_log_def diskst.extend_def)
  show "quiet 0 demo_log" "vdisk_ready demo_log"
    using demo_cache_ok(1) by (simp_all add: demo_log_def binv_def) (simp add: vdisk_ready_def)
qed (simp_all add: demo_log_def demo_cache_ok)

lemma demo_disk_blocks:
  "length (dblock (medium demo_log) bn) = BSIZE" "hdr_n (bdisk (medium demo_log) 2) = 0"
proof -
  show "length (dblock (medium demo_log) bn) = BSIZE" by (simp add: demo_log_sel dblock_def blk_read_def)
  have "unle (replicate n 0) = (0 :: u32)" for n by (induction n) simp_all
  moreover have "slice (dblock (medium demo_log) 2) 0 4 = replicate 4 0"
    by (simp add: demo_log_sel dblock_def blk_read_def sector_of_def slice_def)
  ultimately show "hdr_n (bdisk (medium demo_log) 2) = 0" by (simp add: hdr_n_def bdisk_def)
qed

lemma demo_log_ok: "binv 0 demo_log" "brefs demo_log = (\<lambda>_. 0)" "blocked demo_log = (\<lambda>_. False)"
proof -
  have "bring (bufs demo_log) (rev [0..<NBUF])" using demo_cache_ring by (simp add: demo_log_sel)
  moreover have "buf_ok (slocks demo_log (Sl_buf i)) (medium demo_log) (bufs demo_log i)" for i
    by (simp add: demo_log_sel buf_ok_def demo_cache_def) (simp add: demo_disk_def slst.extend_def demo_sl_def procst.extend_def)
  moreover have "buniq (bufs demo_log)" by (simp add: buniq_def demo_log_sel demo_cache_def)
  ultimately have "bufs_ok (bufs demo_log) (slocks demo_log) (medium demo_log)"
    unfolding bufs_ok_parts using demo_disk_blocks(1) by blast
  then show "binv 0 demo_log" by (simp add: binv_def demo_log_sel)
  have "bidx (bufs demo_log) = (\<lambda>_. None)" unfolding fun_eq_iff bidx_None_iff by (simp add: demo_log_sel demo_cache_def)
  then show "brefs demo_log = (\<lambda>_. 0)" "blocked demo_log = (\<lambda>_. False)" by (simp_all add: brefs_def blocked_def fun_eq_iff)
qed

lemma demo_trans_idx: "bidx (bufs demo_trans) bn = (if bn = 40 then Some 0 else None)"
proof -
  have "bidx (bufs demo_trans) 40 = Some 0" by (simp add: bidx_def demo_trans_def upt_rec)
  moreover have "bidx (bufs demo_trans) bn = None" if "bn \<noteq> 40" for bn unfolding bidx_None_iff using that by (simp add: demo_trans_def demo_log_sel demo_cache_def)
  ultimately show ?thesis by simp
qed

lemma demo_trans_ok: "commit_pre 0 2 30 demo_trans" "bview demo_trans 40 = replicate 1024 7" "power demo_trans = None"
proof -
  let ?X = "(bufs demo_log 0)\<lparr>b_valid := 1, b_dev := 1, b_blockno := 40, b_refcnt := 1, b_data := replicate 1024 7\<rparr>"
  have T: "bufs demo_trans = (bufs demo_log)(0 := ?X)" "slocks demo_trans = slocks demo_log" "medium demo_trans = medium demo_log"
    "log demo_trans = (log demo_log)\<lparr>lg_lh := \<lparr>lh_n = 1, lh_block = \<lambda>_. 40\<rparr>\<rparr>"
    by (simp_all add: demo_trans_def)
  have ok: "bufs_ok (bufs demo_log) (slocks demo_log) (medium demo_log)" using demo_log_ok(1) by (simp add: binv_def)
  have none: "bidx (bufs demo_log) 40 = None" unfolding bidx_None_iff by (simp add: demo_log_sel demo_cache_def)
  have "buniq (bufs demo_trans)" unfolding T by (rule buniq_upd_new [OF _ none]) (use ok in \<open>simp_all add: bufs_ok_parts\<close>)
  then have "bufs_ok (bufs demo_trans) (slocks demo_trans) (medium demo_trans)" unfolding T
    by (intro bufs_ok_upd [OF ok]) (simp_all add: buf_ok_def)
  then have "binv 0 demo_trans" using demo_log_sel(6,7) by (simp add: binv_def demo_trans_def)
  moreover have "brefs demo_trans = (\<lambda>bn. if bn = 40 then 1 else 0)" "blocked demo_trans = (\<lambda>_. False)"
  proof -
    have r: "b_refcnt (bufs demo_trans 0) = 1" "sl_locked (slocks demo_trans (Sl_buf 0)) = 0"
      by (simp_all add: T) (simp add: demo_log_sel demo_cache_def demo_disk_def slst.extend_def demo_sl_def procst.extend_def)
    show "brefs demo_trans = (\<lambda>bn. if bn = 40 then 1 else 0)" "blocked demo_trans = (\<lambda>_. False)"
      by (auto simp: brefs_def blocked_def fun_eq_iff demo_trans_idx r)
  qed
  moreover have "hdr_ok 2 30 1 (\<lambda>_. 40)" by (simp add: hdr_ok_def home_def)
  ultimately show "commit_pre 0 2 30 demo_trans" using demo_disk_blocks(2)
    by (simp add: commit_pre_def log_pre_def T demo_log_sel log_at_def)
  show "bview demo_trans 40 = replicate 1024 7" "power demo_trans = None"
    by (simp_all add: bview_def demo_trans_idx) (simp_all add: demo_trans_def demo_log_sel)
qed


text \<open>A run of transactions that fills the log.\<close>

definition demo_write :: "klog \<Rightarrow> u32 \<Rightarrow> logst" where
  "demo_write l bn = demo_log\<lparr>bufs := (bufs demo_log)(0 := (bufs demo_log 0)\<lparr>b_blockno := bn\<rparr>), log := l\<rparr>"

lemma demo_write_sel: "quiet 0 (demo_write l bn)" "log (demo_write l bn) = l" "b_blockno (bufs (demo_write l bn) 0) = bn"
  using demo_log_sel(6) by (simp_all add: demo_write_def)

lemma log_step_put:
  assumes "0 \<le> lh_n (lg_lh l)" "lh_n (lg_lh l) < LOGSIZE" "lh_n (lg_lh l) < lg_size l - 1" "1 \<le> lg_outstanding l" "bn \<notin> logged l" "w q = Some k" "k < MAXOPBLOCKS"
  shows "log_step (l, w) (log_put l bn, w(q \<mapsto> Suc k))"
proof -
  let ?s = "demo_write l bn"
  obtain t where t: "log_write 0 ?s = Ok () t" using assms(2-4) log_write_run [OF demo_write_sel(1), of 0 l bn] by (simp add: demo_write_sel)
  have lt: "log t = log_put l bn" using log_write_Ok(4) [OF t] by (simp add: demo_write_sel)
  have "log_step (log ?s, w) (log t, w(q \<mapsto> Suc k))"
    by (rule lstep_write [where b = 0 and k = k]) (use t assms(6,7) log_put_new(3) [OF assms(5,1)] in \<open>simp_all add: lt demo_write_sel\<close>)
  then show ?thesis by (simp add: lt demo_write_sel)
qed

lemma log_step_begin:
  assumes "lg_committing l = 0" "lh_n (lg_lh l) + (lg_outstanding l + 1) * MAXOPBLOCKS \<le> LOGSIZE" "w q = None"
  shows "log_step (l, w) (l\<lparr>lg_outstanding := lg_outstanding l + 1\<rparr>, w(q \<mapsto> 0))"
proof -
  let ?s = "demo_write l 0"
  have "\<exists>t. begin_op ?s = Ok () t" using assms(1,2) quietD [OF demo_write_sel(1) [of l 0]]
    by (simp add: begin_op_def begin_op_loop_def run_simps demo_write_sel)
  then obtain t where t: "begin_op ?s = Ok () t" by blast
  from lstep_begin [OF t, of w q] assms(3) begin_op_Ok(3) [OF t] show ?thesis by (simp add: demo_write_sel)
qed

definition log_below :: "klog \<Rightarrow> nat \<Rightarrow> bool" where
  "log_below l j \<longleftrightarrow> logged l \<subseteq> of_nat ` {..<j}"

lemma log_fill:
  assumes "reachable (log_idle sz) log_step (l, w)" "w q = Some k" "k + m \<le> MAXOPBLOCKS" "lh_n (lg_lh l) = int j" "j + m \<le> LOGSIZE" "int (j + m) < lg_size l"
    "1 \<le> lg_outstanding l" "log_below l j"
  shows "\<exists>l'. reachable (log_idle sz) log_step (l', w(q \<mapsto> k + m)) \<and> lh_n (lg_lh l') = int (j + m) \<and> lg_size l' = lg_size l
    \<and> lg_outstanding l' = lg_outstanding l \<and> log_below l' (j + m)"
  using assms(3,5,6)
proof (induction m)
  case 0
  then show ?case using assms(1,2,4,8) by (intro exI [of _ l]) (simp add: fun_upd_idem)
next
  case (Suc m)
  then have "k + m \<le> MAXOPBLOCKS" "j + m \<le> LOGSIZE" "int (j + m) < lg_size l" by simp_all
  from Suc.IH [OF this] obtain l' where l': "reachable (log_idle sz) log_step (l', w(q \<mapsto> k + m))" "lh_n (lg_lh l') = int (j + m)" "lg_size l' = lg_size l"
    "lg_outstanding l' = lg_outstanding l" "log_below l' (j + m)" by blast
  have ne: "(of_nat (j + m) :: u32) \<noteq> of_nat i" if "i < j + m" for i
  proof
    assume "(of_nat (j + m) :: u32) = of_nat i"
    then have "unat (of_nat (j + m) :: u32) = unat (of_nat i :: u32)" by simp
    then show False using that Suc.prems(2) by (simp add: unat_of_nat_32 del: of_nat_add)
  qed
  then have new: "of_nat (j + m) \<notin> logged l'" using l'(5) by (auto simp: log_below_def)
  have n: "0 \<le> lh_n (lg_lh l')" using l'(2) by simp
  let ?l = "log_put l' (of_nat (j + m))"
  have "log_step (l', w(q \<mapsto> k + m)) (?l, (w(q \<mapsto> k + m))(q \<mapsto> Suc (k + m)))"
    by (rule log_step_put) (use Suc.prems l' new assms(7) in simp_all)
  then have "log_step (l', w(q \<mapsto> k + m)) (?l, w(q \<mapsto> k + Suc m))" by simp
  with l'(1) have r: "reachable (log_idle sz) log_step (?l, w(q \<mapsto> k + Suc m))" by (rule reachable.more)
  have b: "log_below ?l (j + Suc m)" unfolding log_below_def log_put_new(2) [OF new n] using l'(5) by (auto simp: log_below_def lessThan_Suc simp del: of_nat_add)
  have "lh_n (lg_lh ?l) = int (j + Suc m)" "lg_size ?l = lg_size l" "lg_outstanding ?l = lg_outstanding l" using l' log_put_new(3) [OF new n] by simp_all
  with r b show ?case by blast
qed

lemma log_begin_more:
  assumes "reachable (log_idle sz) log_step (l, w)" "lg_committing l = 0" "lh_n (lg_lh l) = 0" "(lg_outstanding l + 1) * MAXOPBLOCKS \<le> LOGSIZE" "w q = None"
  shows "\<exists>l'. reachable (log_idle sz) log_step (l', w(q \<mapsto> 0)) \<and> lg_committing l' = 0 \<and> lh_n (lg_lh l') = 0 \<and> lg_size l' = lg_size l \<and> lg_outstanding l' = lg_outstanding l + 1"
  by (rule exI [of _ "l\<lparr>lg_outstanding := lg_outstanding l + 1\<rparr>"]) (use assms in \<open>auto intro!: reachable.more [OF assms(1)] log_step_begin\<close>)

lemma log_three_begun:
  "\<exists>l w. reachable (log_idle sz) log_step (l, w) \<and> lg_outstanding l = 3 \<and> lh_n (lg_lh l) = 0 \<and> lg_size l = sz \<and> w 0 = Some 0 \<and> w 1 = Some 0 \<and> w 2 = Some 0"
proof -
  define l where "l = (log demo_log)\<lparr>lg_size := sz, lg_outstanding := 0\<rparr>"
  have "reachable (log_idle sz) log_step (l, Map.empty)" by (rule reachable.start) (simp add: log_idle_def l_def demo_log_sel)
  from log_begin_more [OF this, of 0] obtain l1 where l1: "reachable (log_idle sz) log_step (l1, [0 \<mapsto> 0])" "lg_committing l1 = 0" "lh_n (lg_lh l1) = 0" "lg_size l1 = sz" "lg_outstanding l1 = 1"
    by (auto simp: l_def demo_log_sel)
  from log_begin_more [OF l1(1-3), of 1] l1 obtain l2 where l2: "reachable (log_idle sz) log_step (l2, [0 \<mapsto> 0, 1 \<mapsto> 0])" "lg_committing l2 = 0" "lh_n (lg_lh l2) = 0" "lg_size l2 = sz" "lg_outstanding l2 = 2"
    by auto
  from log_begin_more [OF l2(1-3), of 2] l2 obtain l3 where "reachable (log_idle sz) log_step (l3, [0 \<mapsto> 0, 1 \<mapsto> 0, 2 \<mapsto> 0])" "lh_n (lg_lh l3) = 0" "lg_size l3 = sz" "lg_outstanding l3 = 3"
    by auto
  then show ?thesis by (intro exI [of _ l3] exI [of _ "[0 \<mapsto> 0, 1 \<mapsto> 0, 2 \<mapsto> 0]"]) simp
qed

lemma log_three:
  assumes "sz = LOGSIZE \<or> sz = LOGSIZE + 1"
  shows "\<exists>l w. reachable (log_idle sz) log_step (l, w) \<and> lh_n (lg_lh l) = 29 \<and> lg_size l = sz \<and> w 2 = Some 9"
proof -
  obtain l w where l: "reachable (log_idle sz) log_step (l, w)" "lg_outstanding l = 3" "lh_n (lg_lh l) = 0" "lg_size l = sz" "w 0 = Some 0" "w 1 = Some 0" "w 2 = Some 0"
    using log_three_begun by blast
  let ?P = "\<lambda>w j l'. reachable (log_idle sz) log_step (l', w) \<and> lh_n (lg_lh l') = int j \<and> lg_size l' = sz \<and> lg_outstanding l' = 3 \<and> log_below l' j"
  have fill: "\<exists>l'. ?P (w(q \<mapsto> m)) (j + m) l'" if "?P w j l" "w q = Some 0" "m \<le> 10" "j + m \<le> 29" for w q j m l
    using log_fill [of sz l w q 0 m j] that assms by auto
  have "?P w 0 l" using l by (simp add: log_below_def logged_def)
  then have "\<exists>l'. ?P (w(0 \<mapsto> 10)) (0 + 10) l'" by (rule fill) (use l in simp_all)
  then obtain l4 where l4: "?P (w(0 \<mapsto> 10)) (0 + 10) l4" by blast
  then have "\<exists>l'. ?P (w(0 \<mapsto> 10, 1 \<mapsto> 10)) (0 + 10 + 10) l'" by (rule fill) (use l in simp_all)
  then obtain l5 where l5: "?P (w(0 \<mapsto> 10, 1 \<mapsto> 10)) (0 + 10 + 10) l5" by blast
  then have "\<exists>l'. ?P (w(0 \<mapsto> 10, 1 \<mapsto> 10, 2 \<mapsto> 9)) (0 + 10 + 10 + 9) l'" by (rule fill) (use l in simp_all)
  then obtain l6 where "?P (w(0 \<mapsto> 10, 1 \<mapsto> 10, 2 \<mapsto> 9)) (0 + 10 + 10 + 9) l6" by blast
  then show ?thesis by (intro exI [of _ l6] exI [of _ "w(0 \<mapsto> 10, 1 \<mapsto> 10, 2 \<mapsto> 9)"]) simp
qed

section \<open>Properties\<close>

text \<open>The power may fail again, any number of times, while the log is being recovered.\<close>

inductive recovery_crashes :: "nat \<Rightarrow> nat \<Rightarrow> superblock \<Rightarrow> medium \<Rightarrow> medium \<Rightarrow> bool" for a sz sb where
  no_crash: "recovery_crashes a sz sb m m"
| crash_again: "recovery_crashes a sz sb m m' \<Longrightarrow> boots p a sz sb m' (u :: logst) \<Longrightarrow> initlog ROOTDEV sb u = Crash v
    \<Longrightarrow> recovery_crashes a sz sb m (medium v)"

lemma recovery_crashes_replay:
  assumes "recovery_crashes a sz sb m m'" "disk_log_ok a sz (bdisk m)"
  shows "replayed a sz (bdisk m) (bdisk m')"
  using assms
proof (induction rule: recovery_crashes.induct)
  case (no_crash m)
  then show ?case by (simp add: replayed_def)
next
  case (crash_again m m' p u v)
  then have r: "replayed a sz (bdisk m) (bdisk m')" by blast
  then have "disk_log_ok a sz (bdisk m')" by (simp add: replayed_def)
  from wpc_initlog [OF crash_again.hyps(2) this] crash_again.hyps(3) have "replayed a sz (bdisk m') (bdisk (medium v))" by (simp add: wpc_def)
  with r show ?case by (simp add: replayed_def)
qed

text \<open>C2. A transaction is atomic.  When \<^verbatim>\<open>commit\<close> returns, every home location holds what the cache shows for it.
  When the power fails at any point of \<^verbatim>\<open>commit\<close>, and again any number of times while the log is being recovered,
  then the next boot in which the power stays on completes \<^verbatim>\<open>initlog\<close>, and after it either all home locations
  hold what they held before the commit or all blocks of the transaction are in place.\<close>

theorem log_crash_atomic:
  fixes s :: logst
  assumes "commit_pre p a sz s"
  shows "case commit s of
      Ok _ t \<Rightarrow> (\<forall>bn. home a sz bn \<longrightarrow> bdisk (medium t) bn = log_new s bn \<and> bview t bn = bview s bn) \<and> lh_n (lg_lh (log t)) = 0
    | Crash t \<Rightarrow> power s \<noteq> None \<and> (\<forall>sb m q u. recovery_crashes a sz sb (medium t) m \<and> boots q a sz sb m (u :: logst) \<and> power u = None \<longrightarrow>
        (\<exists>v. initlog ROOTDEV sb u = Ok () v \<and> ((\<forall>bn. home a sz bn \<longrightarrow> bdisk (medium v) bn = bdisk (medium s) bn)
           \<or> (\<forall>bn. home a sz bn \<longrightarrow> bdisk (medium v) bn = log_new s bn))))
    | _ \<Rightarrow> False"
proof (cases "commit s")
  case (Ok r t)
  then have c: "committed p a sz s t" using wpc_commit [OF assms] by (simp add: wpc_def)
  then have "log t = (log s)\<lparr>lg_lh := (lg_lh (log s))\<lparr>lh_n := 0\<rparr>\<rparr>"
    using bframe_log [of p _ t] by (auto simp: committed_def)
  with Ok c show ?thesis by (simp add: committed_def)
next
  case (Crash t)
  then have at: "power s \<noteq> None" "log_atomic a sz s (bdisk (medium t))" using wpc_commit [OF assms] by (simp_all add: wpc_def)
  have "\<exists>v. initlog ROOTDEV sb u = Ok () v \<and> ((\<forall>bn. home a sz bn \<longrightarrow> bdisk (medium v) bn = bdisk (medium s) bn)
           \<or> (\<forall>bn. home a sz bn \<longrightarrow> bdisk (medium v) bn = log_new s bn))"
    if "recovery_crashes a sz sb (medium t) m" "boots q a sz sb m u" "power u = None" for sb m q and u :: logst
  proof -
    have r: "replayed a sz (bdisk (medium t)) (bdisk m)" using recovery_crashes_replay [OF that(1)] at(2) by (simp add: log_atomic_def)
    then have "disk_log_ok a sz (bdisk m)" by (simp add: replayed_def)
    from wpc_initlog [OF that(2) this] that(3) obtain v where "initlog ROOTDEV sb u = Ok () v" "\<forall>bn. home a sz bn \<longrightarrow> bdisk (medium v) bn = log_replay a (bdisk m) bn"
      by (auto simp: wpc_def split: outcome.splits)
    with r at(2) show ?thesis by (auto simp: replayed_def log_atomic_def)
  qed
  with Crash at(1) show ?thesis by simp blast
qed (use wpc_commit [OF assms] in \<open>simp_all add: wpc_def\<close>)

theorem log_crash_atomic_witness:
  "\<exists>t. commit demo_trans = Ok () t \<and> bdisk (medium t) 40 = replicate 1024 7 \<and> bview t 40 = replicate 1024 7 \<and> lh_n (lg_lh (log t)) = 0"
proof -
  have h: "home 2 30 40" by (simp add: home_def)
  have n: "log_new demo_trans 40 = replicate 1024 7" using demo_trans_ok(2) by (simp add: log_new_def) (simp add: demo_trans_def)
  show ?thesis
  proof (cases "commit demo_trans")
    case (Ok r t)
    then show ?thesis using log_crash_atomic [OF demo_trans_ok(1)] h n demo_trans_ok(2) by simp
  qed (use log_crash_atomic [OF demo_trans_ok(1)] demo_trans_ok(3) in simp_all)
qed

text \<open>C12. \<^verbatim>\<open>begin_op\<close> reserves enough space.  With a log that has room for \<^verbatim>\<open>LOGSIZE\<close> blocks beside its header, and in any
  interleaving of transactions that each add at most \<^verbatim>\<open>MAXOPBLOCKS\<close> blocks, a \<^verbatim>\<open>log_write\<close> within that limit succeeds.\<close>

theorem log_reservation:
  fixes s :: logst
  assumes "reachable (log_idle sz) log_step (log s, w)" "LOGSIZE < sz" "w q = Some k" "k < MAXOPBLOCKS" "quiet p s"
  shows "\<exists>t. log_write b s = Ok () t"
proof -
  have inv: "log_space sz (log s, w)" using logsp.inv_reachable [OF assms(1)] .
  then have w: "finite (dom w)" "q \<in> dom w" using assms(3) by (auto simp: log_space_def)
  then have "0 < card (dom w)" by (auto simp: card_gt_0_iff)
  moreover have "lg_outstanding (log s) = int (card (dom w))" using inv by (simp add: log_space_def)
  ultimately have "\<not> lg_outstanding (log s) < 1" by linarith
  moreover have "0 < log_owed w" using log_owed_remove [OF w(1) assms(3)] assms(4) by simp
  then have "\<not> (lh_n (lg_lh (log s)) \<ge> LOGSIZE \<or> lh_n (lg_lh (log s)) \<ge> lg_size (log s) - 1)" using inv assms(2) by (auto simp: log_space_def)
  ultimately show ?thesis unfolding log_write_run [OF assms(5)] by simp
qed

theorem log_reservation_witness:
  "\<exists>l w. reachable (log_idle 31) log_step (l, w) \<and> lh_n (lg_lh l) = 29 \<and> w 2 = Some 9 \<and> (\<exists>t. log_write 0 (demo_write l 700) = Ok () t)"
proof -
  obtain l w where r: "reachable (log_idle 31) log_step (l, w)" "lh_n (lg_lh l) = 29" "lg_size l = 31" "w 2 = Some 9" using log_three [of 31] by auto
  have "\<exists>t. log_write 0 (demo_write l 700) = Ok () t"
    by (rule log_reservation [where sz = 31 and w = w and q = 2 and k = 9 and p = 0]) (use r in \<open>simp_all add: demo_write_sel\<close>)
  with r show ?thesis by blast
qed

text \<open>C13. The log that \<^verbatim>\<open>mkfs\<close> makes has \<^verbatim>\<open>LOGSIZE\<close> blocks, one of which is the header, so it holds one block less than
  \<^verbatim>\<open>begin_op\<close> gives away: three transactions that keep to the limit of \<^verbatim>\<open>MAXOPBLOCKS\<close> blocks can make \<^verbatim>\<open>log_write\<close> panic.\<close>

theorem log_reservation_gap:
  "\<exists>(s :: logst) w. reachable (log_idle LOGSIZE) log_step (log s, w) \<and> lg_size (log s) = LOGSIZE \<and> w 2 = Some 9
    \<and> log_write 0 s = Panic ''too big a transaction''"
proof -
  obtain l w where r: "reachable (log_idle LOGSIZE) log_step (l, w)" "lh_n (lg_lh l) = 29" "lg_size l = LOGSIZE" "w 2 = Some 9" using log_three [of LOGSIZE] by auto
  have "log_write 0 (demo_write l 700) = Panic ''too big a transaction''"
    unfolding log_write_run [OF demo_write_sel(1)] using r(2,3) by (simp add: demo_write_sel)
  with r show ?thesis by (intro exI [of _ "demo_write l 700"] exI [of _ w]) (simp add: demo_write_sel)
qed

end
