(* ===== verification/Xv6_Ulib.thy ===== *)
theory Xv6_Ulib
  imports Xv6_String
begin

text \<open>
  User processes: the system calls as a process sees them, the C library of \<^verbatim>\<open>user/ulib.c\<close> and
  \<^verbatim>\<open>user/printf.c\<close>.

  A process sees the kernel as sequences of replies.  The state \<open>uworld\<close> holds the replies the
  process is still going to receive, to its reads of each descriptor, its writes to each
  descriptor and its other calls, and the calls it has made; a system call records itself and
  takes the next reply, and a process that finds no reply waits in the kernel (\<open>Sleep\<close>).  The
  theorems hold for every sequence of replies, so they assume nothing of the kernel that they
  do not name.  What \<^verbatim>\<open>fork\<close> replies decides whether the run is that of the parent or that
  of the child.  \<^verbatim>\<open>exit\<close> and an \<^verbatim>\<open>exec\<close> that does not fail end the program (\<open>Exit\<close>).

  A C string that a function only reads is given as the function from an offset to the byte
  there, as in \<^verbatim>\<open>Xv6_String\<close>, and \<open>cstring\<close> makes one from a list of bytes.

  Shown: what every library routine computes, that what \<^verbatim>\<open>printf\<close> writes is the text the
  format describes, one \<^verbatim>\<open>write\<close> for every byte, and that \<^verbatim>\<open>atoi\<close> reads back what \<^verbatim>\<open>%d\<close> printed.
\<close>

section \<open>System calls\<close>

datatype ucall =
    UFork | UExit int | UWait | UPipe
  | UWrite int "u8 list" | URead int nat | UClose int | UKill int
  | UExec "u8 list" "u8 list list" | UOpen "u8 list" u32 | UMknod "u8 list" int int
  | UUnlink "u8 list" | UFstat int | ULink "u8 list" "u8 list" | UMkdir "u8 list"
  | UChdir "u8 list" | UDup int | UGetpid | USbrk int | USleep int | UCow

datatype ukey = KRead int | KWrite int | KCall

fun key_of :: "ucall \<Rightarrow> ukey" where
  "key_of (URead fd n) = KRead fd"
| "key_of (UWrite fd bs) = KWrite fd"
| "key_of c = KCall"

record reply =
  r_val :: int
  r_data :: "u8 list"

record uworld =
  replies :: "ukey \<Rightarrow> reply list"
  calls :: "ucall list"

type_synonym ('w, 'a) uprog = "'w uworld_scheme \<Rightarrow> (unit, 'w uworld_scheme, 'a) outcome"

definition usys :: "ucall \<Rightarrow> ('w, reply) uprog" where
  "usys c w = (let w = w\<lparr>calls := calls w @ [c]\<rparr> in
     case replies w (key_of c) of [] \<Rightarrow> Sleep () w
     | r # rs \<Rightarrow> Ok r (w\<lparr>replies := (replies w)(key_of c := rs)\<rparr>))"

text \<open>A call whose reply is a number only.\<close>

definition usysv :: "ucall \<Rightarrow> ('w, int) uprog" where
  "usysv c = bind (usys c) (\<lambda>r. ret (r_val r))"

definition exit_u :: "int \<Rightarrow> ('w, 'a) uprog" where
  "exit_u n w = Exit (w\<lparr>calls := calls w @ [UExit n]\<rparr>)"

text \<open>\<^verbatim>\<open>read\<close> replies with \<^verbatim>\<open>-1\<close> or with at most the number of bytes asked for; bytes there was no
  room for stay for the next \<^verbatim>\<open>read\<close>.\<close>

definition read_u :: "int \<Rightarrow> nat \<Rightarrow> ('w, u8 list option) uprog" where
  "read_u fd n w = (let w = w\<lparr>calls := calls w @ [URead fd n]\<rparr> in
     case replies w (KRead fd) of [] \<Rightarrow> Sleep () w
     | r # rs \<Rightarrow>
         if r_val r < 0 then Ok None (w\<lparr>replies := (replies w)(KRead fd := rs)\<rparr>)
         else if length (r_data r) \<le> n then Ok (Some (r_data r)) (w\<lparr>replies := (replies w)(KRead fd := rs)\<rparr>)
         else Ok (Some (take n (r_data r)))
                (w\<lparr>replies := (replies w)(KRead fd := r\<lparr>r_data := drop n (r_data r)\<rparr> # rs)\<rparr>))"

text \<open>The bytes the replies to reads deliver before the first end of file or error, whether there
  is one, and a bound on the number of reads that reach it.\<close>

fun incoming :: "reply list \<Rightarrow> u8 list" where
  "incoming [] = []"
| "incoming (r # rs) = (if r_val r < 0 \<or> r_data r = [] then [] else r_data r @ incoming rs)"

definition ends :: "reply list \<Rightarrow> bool" where
  "ends rs \<longleftrightarrow> list_ex (\<lambda>r. r_val r < 0 \<or> r_data r = []) rs"

definition feed :: "'w uworld_scheme \<Rightarrow> int \<Rightarrow> nat" where
  "feed w fd = sum_list (map (\<lambda>r. Suc (length (r_data r))) (replies w (KRead fd)))"

definition write_u :: "int \<Rightarrow> u8 list \<Rightarrow> ('w, int) uprog" where
  "write_u fd bs = usysv (UWrite fd bs)"

definition exec_u :: "u8 list \<Rightarrow> u8 list list \<Rightarrow> ('w, unit) uprog" where
  "exec_u path argv = bind (usysv (UExec path argv)) (\<lambda>r. if r < 0 then skip else Exit)"

text \<open>\<^verbatim>\<open>struct stat\<close> as the kernel copies it out.\<close>

record stat =
  st_dev :: u32
  st_ino :: u32
  st_type :: u16
  st_nlink :: u16
  st_size :: u64

definition stat_of :: "u8 list \<Rightarrow> stat" where
  "stat_of d = \<lparr>st_dev = unle (slice d 0 4), st_ino = unle (slice d 4 4), st_type = unle (slice d 8 2),
     st_nlink = unle (slice d 10 2), st_size = unle (slice d 16 8)\<rparr>"

definition fstat_u :: "int \<Rightarrow> ('w, stat option) uprog" where
  "fstat_u fd = bind (usys (UFstat fd)) (\<lambda>r.
     ret (if r_val r < 0 then None else Some (stat_of (r_data r))))"

definition pipe_u :: "('w, (int \<times> int) option) uprog" where
  "pipe_u = bind (usys UPipe) (\<lambda>r.
     ret (if r_val r < 0 then None
          else Some (sint (unle (slice (r_data r) 0 4) :: u32), sint (unle (slice (r_data r) 4 4) :: u32))))"

section \<open>ulib.c\<close>

text \<open>\<open>lit\<close> gives the bytes of a string literal, \<open>cstring\<close> the memory behind a pointer to the
  bytes of a list and the terminating NUL.\<close>

definition lit :: "string \<Rightarrow> u8 list" where
  "lit s = map of_char s"

definition cstring :: "u8 list \<Rightarrow> nat \<Rightarrow> u8" where
  "cstring bs i = (if i < length bs then bs ! i else 0)"

partial_function (option) strcpy_u :: "memory \<Rightarrow> u64 \<Rightarrow> u64 \<Rightarrow> memory option" where
  "strcpy_u m s t = (let m' = m(s := m t) in if m t \<noteq> 0 then strcpy_u m' (s + 1) (t + 1) else Some m')"

partial_function (option) strcmp_u :: "(nat \<Rightarrow> u8) \<Rightarrow> (nat \<Rightarrow> u8) \<Rightarrow> nat \<Rightarrow> int option" where
  "strcmp_u p q i =
     (if p i \<noteq> 0 \<and> p i = q i then strcmp_u p q (Suc i) else Some (uint (p i) - uint (q i)))"

partial_function (option) strlen_u :: "(nat \<Rightarrow> u8) \<Rightarrow> nat \<Rightarrow> nat option" where
  "strlen_u s n = (if s n \<noteq> 0 then strlen_u s (Suc n) else Some n)"

definition memset_u :: "memory \<Rightarrow> u64 \<Rightarrow> u32 \<Rightarrow> u32 \<Rightarrow> memory" where
  "memset_u m dst c n = fold (\<lambda>i m. m(dst + of_nat i := ucast c)) [0..<unat n] m"

text \<open>\<^verbatim>\<open>strchr\<close> returns the offset of the character it finds; \<open>Some None\<close> is its null result.\<close>

partial_function (option) strchr_u :: "(nat \<Rightarrow> u8) \<Rightarrow> u8 \<Rightarrow> nat \<Rightarrow> nat option option" where
  "strchr_u s c i =
     (if s i \<noteq> 0 then if s i = c then Some (Some i) else strchr_u s c (Suc i) else Some None)"

fun gets_loop :: "nat \<Rightarrow> u8 list \<Rightarrow> ('w, u8 list) uprog" where
  "gets_loop 0 acc = ret acc"
| "gets_loop (Suc n) acc = bind (read_u 0 1) (\<lambda>r.
     case r of Some [c] \<Rightarrow> if c = of_char CHR ''\<newline>'' \<or> c = 13 then ret (acc @ [c])
                          else gets_loop n (acc @ [c])
     | _ \<Rightarrow> ret acc)"

text \<open>The bytes \<^verbatim>\<open>gets\<close> leaves in the buffer, without the NUL it appends.\<close>

definition gets_u :: "int \<Rightarrow> ('w, u8 list) uprog" where
  "gets_u mx = gets_loop (nat (mx - 1)) []"

definition stat_u :: "u8 list \<Rightarrow> ('w, stat option) uprog" where
  "stat_u n = bind (usysv (UOpen n 0)) (\<lambda>fd.
     if fd < 0 then ret None
     else bind (fstat_u fd) (\<lambda>r. bind (usysv (UClose fd)) (\<lambda>_. ret r)))"

partial_function (option) atoi_u :: "(nat \<Rightarrow> u8) \<Rightarrow> nat \<Rightarrow> u32 \<Rightarrow> u32 option" where
  "atoi_u s i n =
     (if 48 \<le> s i \<and> s i \<le> 57 then atoi_u s (Suc i) (n * 10 + ucast (s i) - 48) else Some n)"

definition memmove_u :: "memory \<Rightarrow> u64 \<Rightarrow> u64 \<Rightarrow> int \<Rightarrow> memory" where
  "memmove_u m dst src n =
     (if src > dst then copy_up m dst src (nat n)
      else copy_down m (dst + of_int n) (src + of_int n) (nat n))"

fun memcmp_u :: "(nat \<Rightarrow> u8) \<Rightarrow> (nat \<Rightarrow> u8) \<Rightarrow> nat \<Rightarrow> int" where
  "memcmp_u p1 p2 0 = 0"
| "memcmp_u p1 p2 (Suc n) =
     (if p1 0 \<noteq> p2 0 then uint (p1 0) - uint (p2 0)
      else memcmp_u (\<lambda>i. p1 (Suc i)) (\<lambda>i. p2 (Suc i)) n)"

definition memcpy_u :: "memory \<Rightarrow> u64 \<Rightarrow> u64 \<Rightarrow> u32 \<Rightarrow> memory" where
  "memcpy_u m dst src n = memmove_u m dst src (sint n)"

text \<open>A program whose \<^verbatim>\<open>main\<close> returns ends in the call of \<^verbatim>\<open>exit\<close> in \<^verbatim>\<open>_main\<close>.\<close>

definition main_u :: "('w, int) uprog \<Rightarrow> ('w, 'a) uprog" where
  "main_u prog = bind prog (\<lambda>_. exit_u 0)"

section \<open>printf.c\<close>

definition digits :: "nat \<Rightarrow> u8" where
  "digits i = lit ''0123456789ABCDEF'' ! i"

definition putc_u :: "int \<Rightarrow> u8 \<Rightarrow> ('w, unit) uprog" where
  "putc_u fd c = bind (write_u fd [c]) (\<lambda>_. skip)"

text \<open>The \<^verbatim>\<open>do ... while\<close> loop of \<^verbatim>\<open>printint\<close>: the digits in \<^verbatim>\<open>buf\<close>, least significant first.\<close>

function printint_digits :: "u32 \<Rightarrow> u32 \<Rightarrow> u8 list" where
  "printint_digits x base = digits (unat (x mod base)) #
     (if x div base \<noteq> 0 \<and> 1 < base then printint_digits (x div base) base else [])"
  by auto
termination
proof (relation "measure (\<lambda>(x, base). unat x)")
  fix x base :: u32
  assume "x div base \<noteq> 0 \<and> 1 < base"
  then have "0 < unat x div unat base" "1 < unat base"
    by (auto simp: word_less_nat_alt unat_div [symmetric] unat_gt_0)
  then show "((x div base, base), x, base) \<in> measure (\<lambda>(x, base). unat x)"
    using div_less_dividend [of "unat base" "unat x"] by (cases "unat x = 0") (simp_all add: unat_div)
qed simp

definition printint_buf :: "u32 \<Rightarrow> u32 \<Rightarrow> bool \<Rightarrow> u8 list" where
  "printint_buf xx base sgnd =
     (let neg = sgnd \<and> sint xx < 0; x = (if neg then - xx else xx) in
      printint_digits x base @ (if neg then lit ''-'' else []))"

definition printint_u :: "int \<Rightarrow> u32 \<Rightarrow> u32 \<Rightarrow> bool \<Rightarrow> ('w, unit) uprog" where
  "printint_u fd xx base sgnd = forK (putc_u fd) (rev (printint_buf xx base sgnd))"

fun printptr_loop :: "int \<Rightarrow> u64 \<Rightarrow> nat \<Rightarrow> ('w, unit) uprog" where
  "printptr_loop fd x 0 = skip"
| "printptr_loop fd x (Suc n) =
     bind (putc_u fd (digits (unat (drop_bit 60 x)))) (\<lambda>_. printptr_loop fd (push_bit 4 x) n)"

definition printptr_u :: "int \<Rightarrow> u64 \<Rightarrow> ('w, unit) uprog" where
  "printptr_u fd x = block [putc_u fd (of_char CHR ''0''), putc_u fd (of_char CHR ''x''), printptr_loop fd x 16]"

text \<open>The arguments behind \<^verbatim>\<open>...\<close>: numbers in their registers, or pointers to strings (\<open>None\<close> is
  the null pointer).  A format that asks for an argument there is not, or for one of the other
  kind, is undefined in C; the model stops there.\<close>

datatype varg = VNum u64 | VStr "u8 list option"

definition va_num :: "varg list \<Rightarrow> ('w, u64 \<times> varg list) uprog" where
  "va_num ap = (case ap of VNum x # ap \<Rightarrow> ret (x, ap) | _ \<Rightarrow> panicK ''va_arg'')"

definition va_str :: "varg list \<Rightarrow> ('w, u8 list option \<times> varg list) uprog" where
  "va_str ap = (case ap of VStr s # ap \<Rightarrow> ret (s, ap) | _ \<Rightarrow> panicK ''va_arg'')"

text \<open>The conversion after a \<^verbatim>\<open>%\<close>; the result is what is left of the arguments.\<close>

definition vprintf_conv :: "int \<Rightarrow> u8 \<Rightarrow> varg list \<Rightarrow> ('w, varg list) uprog" where
  "vprintf_conv fd c ap =
     (if c = of_char CHR ''d'' then
        bind (va_num ap) (\<lambda>(x, ap). bind (printint_u fd (ucast x) 10 True) (\<lambda>_. ret ap))
      else if c = of_char CHR ''l'' then
        bind (va_num ap) (\<lambda>(x, ap). bind (printint_u fd (ucast x) 10 False) (\<lambda>_. ret ap))
      else if c = of_char CHR ''x'' then
        bind (va_num ap) (\<lambda>(x, ap). bind (printint_u fd (ucast x) 16 False) (\<lambda>_. ret ap))
      else if c = of_char CHR ''p'' then
        bind (va_num ap) (\<lambda>(x, ap). bind (printptr_u fd x) (\<lambda>_. ret ap))
      else if c = of_char CHR ''s'' then
        bind (va_str ap) (\<lambda>(s, ap).
          bind (forK (putc_u fd) (takeWhile (\<lambda>b. b \<noteq> 0) (case s of None \<Rightarrow> lit ''(null)'' | Some s \<Rightarrow> s))) (\<lambda>_. ret ap))
      else if c = of_char CHR ''c'' then
        bind (va_num ap) (\<lambda>(x, ap). bind (putc_u fd (ucast x)) (\<lambda>_. ret ap))
      else if c = of_char CHR ''%'' then bind (putc_u fd c) (\<lambda>_. ret ap)
      else bind (block [putc_u fd (of_char CHR ''%''), putc_u fd c]) (\<lambda>_. ret ap))"

text \<open>\<open>pct\<close> is whether \<^verbatim>\<open>state\<close> is \<^verbatim>\<open>'%'\<close>.\<close>

fun vprintf_loop :: "int \<Rightarrow> bool \<Rightarrow> u8 list \<Rightarrow> varg list \<Rightarrow> ('w, unit) uprog" where
  "vprintf_loop fd pct [] ap = skip"
| "vprintf_loop fd pct (c # fmt) ap =
     (if c = 0 then skip
      else if \<not> pct then
        if c = of_char CHR ''%'' then vprintf_loop fd True fmt ap
        else bind (putc_u fd c) (\<lambda>_. vprintf_loop fd False fmt ap)
      else bind (vprintf_conv fd c ap) (\<lambda>ap. vprintf_loop fd False fmt ap))"

definition vprintf_u :: "int \<Rightarrow> u8 list \<Rightarrow> varg list \<Rightarrow> ('w, unit) uprog" where
  "vprintf_u fd fmt ap = vprintf_loop fd False fmt ap"

definition fprintf_u :: "int \<Rightarrow> string \<Rightarrow> varg list \<Rightarrow> ('w, unit) uprog" where
  "fprintf_u fd fmt ap = vprintf_u fd (lit fmt) ap"

definition printf_u :: "string \<Rightarrow> varg list \<Rightarrow> ('w, unit) uprog" where
  "printf_u fmt ap = vprintf_u 1 (lit fmt) ap"

section \<open>Library routines\<close>

lemma cstring_Nil [simp]: "cstring [] i = 0"
  by (simp add: cstring_def)

lemma cstring_nth: "i < length bs \<Longrightarrow> cstring bs i = bs ! i" "length bs \<le> i \<Longrightarrow> cstring bs i = 0"
  by (simp_all add: cstring_def)

lemma cstring_nonzero: "0 \<notin> set bs \<Longrightarrow> cstring bs i = 0 \<longleftrightarrow> length bs \<le> i"
  by (auto simp: cstring_def in_set_conv_nth)

lemma strlen_u_from:
  assumes "0 \<notin> set bs" "n \<le> length bs"
  shows "strlen_u (cstring bs) n = Some (length bs)"
  using assms(2)
proof (induction "length bs - n" arbitrary: n)
  case 0
  then show ?case by (subst strlen_u.simps) (simp add: cstring_def)
next
  case (Suc k)
  then show ?case by (subst strlen_u.simps) (simp add: cstring_nonzero [OF assms(1)])
qed

lemma strchr_u_from:
  assumes "0 \<notin> set bs" "i \<le> length bs"
  shows "strchr_u (cstring bs) c i =
     Some (if c \<in> set (drop i bs) then Some (i + length (takeWhile (\<lambda>b. b \<noteq> c) (drop i bs))) else None)"
  using assms(2)
proof (induction "length bs - i" arbitrary: i)
  case 0
  then show ?case by (subst strchr_u.simps) (simp add: cstring_def)
next
  case (Suc k)
  then have i: "i < length bs" by simp
  then have d: "drop i bs = bs ! i # drop (Suc i) bs" by (simp add: Cons_nth_drop_Suc)
  from i assms(1) have "cstring bs i = bs ! i" "bs ! i \<noteq> 0"
    by (auto simp: cstring_def dest: nth_mem)
  with Suc.hyps(1) [of "Suc i"] Suc.hyps(2) i show ?case
    by (subst strchr_u.simps) (auto simp: d)
qed

lemma strchr_u_bound:
  assumes "i \<le> length bs"
  shows "\<exists>r. strchr_u (cstring bs) c i = Some r \<and>
     (\<forall>q. r = Some q \<longrightarrow> i \<le> q \<and> q < length bs \<and> bs ! q = c)"
  using assms
proof (induction "length bs - i" arbitrary: i)
  case 0
  then show ?case by (subst strchr_u.simps) (simp add: cstring_def)
next
  case (Suc k)
  then have i: "i < length bs" by simp
  with Suc.hyps(2) have "k = length bs - Suc i" "Suc i \<le> length bs" by simp_all
  from Suc.hyps(1) [OF this] obtain r where r: "strchr_u (cstring bs) c (Suc i) = Some r"
      "\<forall>q. r = Some q \<longrightarrow> Suc i \<le> q \<and> q < length bs \<and> bs ! q = c"
    by blast
  from i have "cstring bs i = bs ! i" by (simp add: cstring_def)
  with i r show ?case by (subst strchr_u.simps) (auto dest: Suc_leD)
qed

lemma strcmp_u_from:
  assumes "0 \<notin> set ps" "0 \<notin> set qs" "take i ps = take i qs" "i \<le> length ps" "i \<le> length qs"
  shows "\<exists>d. strcmp_u (cstring ps) (cstring qs) i = Some d \<and> (d = 0 \<longleftrightarrow> ps = qs)"
  using assms(3-)
proof (induction "length ps - i" arbitrary: i)
  case 0
  then have i: "i = length ps" and p: "cstring ps i = 0" by (simp_all add: cstring_nth)
  have "take i ps = ps" by (simp add: i)
  with 0 have "ps = take i qs" by simp
  moreover have "length ps = i" by (simp add: i)
  ultimately have "length qs \<le> i \<longleftrightarrow> ps = qs" by (metis order_refl take_all)
  with cstring_nonzero [OF assms(2), of i] have "cstring qs i = 0 \<longleftrightarrow> ps = qs" by blast
  moreover have "strcmp_u (cstring ps) (cstring qs) i = Some (- uint (cstring qs i))"
    by (subst strcmp_u.simps) (simp add: p)
  ultimately show ?case by (simp add: uint_0_iff)
next
  case (Suc k)
  then have i: "i < length ps" by simp
  with assms(1) have p: "cstring ps i = ps ! i" "ps ! i \<noteq> 0" by (auto simp: cstring_def dest: nth_mem)
  show ?case
  proof (cases "cstring qs i = ps ! i")
    case True
    with p have q: "i < length qs" by (auto simp: cstring_def split: if_splits)
    with True have "qs ! i = ps ! i" by (simp add: cstring_nth)
    with q Suc.prems i have "take (Suc i) ps = take (Suc i) qs" by (simp add: take_Suc_conv_app_nth)
    with Suc.hyps(1) [of "Suc i"] Suc.hyps(2) q i
    have "\<exists>d. strcmp_u (cstring ps) (cstring qs) (Suc i) = Some d \<and> (d = 0 \<longleftrightarrow> ps = qs)" by simp
    with True p show ?thesis by (subst strcmp_u.simps) simp
  next
    case False
    with p have "ps \<noteq> qs" by metis
    with False p have "strcmp_u (cstring ps) (cstring qs) i = Some (uint (ps ! i) - uint (cstring qs i))"
      by (subst strcmp_u.simps) simp
    moreover from False have "uint (ps ! i) \<noteq> uint (cstring qs i)" by (metis word_uint_eq_iff)
    ultimately show ?thesis using \<open>ps \<noteq> qs\<close> by simp
  qed
qed

lemma atoi_u_from:
  assumes "i \<le> length bs" "list_all (\<lambda>b. 48 \<le> b \<and> b \<le> 57) bs"
  shows "atoi_u (cstring bs) i n = Some (foldl (\<lambda>n b. n * 10 + ucast b - 48) n (drop i bs))"
  using assms(1)
proof (induction "length bs - i" arbitrary: i n)
  case 0
  then show ?case by (subst atoi_u.simps) (simp add: cstring_def)
next
  case (Suc k)
  then have i: "i < length bs" by simp
  then have d: "drop i bs = bs ! i # drop (Suc i) bs" by (simp add: Cons_nth_drop_Suc)
  from i assms(2) have "cstring bs i = bs ! i" "48 \<le> bs ! i" "bs ! i \<le> 57"
    by (auto simp: cstring_def list_all_length)
  with Suc.hyps(1) [of "Suc i"] Suc.hyps(2) i show ?case
    by (subst atoi_u.simps) (simp add: d)
qed

section \<open>Printing\<close>

lemma digits_decimal:
  assumes "k < 10"
  shows "digits k = 48 + of_nat k"
proof -
  from assms have "k = 0 \<or> k = 1 \<or> k = 2 \<or> k = 3 \<or> k = 4 \<or> k = 5 \<or> k = 6 \<or> k = 7 \<or> k = 8 \<or> k = 9"
    by arith
  then show ?thesis by (elim disjE) (simp_all add: digits_def lit_def of_char_Char)
qed

declare printint_digits.simps [simp del]

lemma unat_mod_10: "unat ((x::u32) mod 10) < 10"
  by (simp add: unat_mod)

lemma printint_digits_decimal: "list_all (\<lambda>b. 48 \<le> b \<and> b \<le> 57) (printint_digits x 10)"
proof (induction x "10 :: u32" rule: printint_digits.induct)
  case (1 x)
  have "48 \<le> digits k \<and> digits k \<le> 57" if "k < 10" for k
    using that by (simp add: digits_decimal word_le_nat_alt unat_word_ariths unat_of_nat)
  from this [OF unat_mod_10] 1 show ?case
    by (subst printint_digits.simps) simp
qed

lemma unat_ucast_8_32: "unat (ucast (b :: u8) :: u32) = unat b"
  using unsigned_less [of b, where ?'a = nat] by (simp add: unsigned_ucast_eq take_bit_nat_eq_self)

lemma printint_digits_value: "foldr (\<lambda>b n. n * 10 + ucast b - 48) (printint_digits x 10) 0 = x"
proof (induction x "10 :: u32" rule: printint_digits.induct)
  case (1 x)
  have "ucast (digits (unat (x mod 10))) - 48 = x mod 10"
  proof -
    have "unat (48 + x mod 10) = 48 + unat (x mod 10)"
      using unat_mod_10 [of x] by (simp add: unat_word_ariths)
    moreover have "unat (digits (unat (x mod 10))) = 48 + unat (x mod 10)"
      using unat_mod_10 [of x] by (simp add: digits_decimal unat_word_ariths unat_of_nat)
    ultimately have "unat (ucast (digits (unat (x mod 10))) :: u32) = unat (48 + x mod 10)"
      by (simp add: unat_ucast_8_32)
    then show ?thesis by (simp add: word_unat_eq_iff [symmetric])
  qed
  then have last: "n * 10 + ucast (digits (unat (x mod 10))) - 48 = n * 10 + x mod 10" for n
    by (simp add: algebra_simps)
  show ?case
  proof (cases "x div 10 = 0")
    case True
    then have "x mod 10 = x" using div_mult_mod_eq [of x 10] by simp
    with True last [of 0] show ?thesis by (subst printint_digits.simps) simp
  next
    case False
    with 1 have "foldr (\<lambda>b n. n * 10 + ucast b - 48) (printint_digits (x div 10) 10) 0 = x div 10" by simp
    with False last [of "x div 10"] show ?thesis
      by (subst printint_digits.simps) (simp add: div_mult_mod_eq)
  qed
qed

lemma length_printint_digits:
  assumes "2 \<le> base"
  shows "unat x < unat base ^ Suc n \<Longrightarrow> length (printint_digits x base) \<le> Suc n"
proof (induction n arbitrary: x)
  case 0
  then have "x div base = 0" by (simp add: word_unat_eq_iff unat_div)
  then show ?case by (subst printint_digits.simps) simp
next
  case (Suc n)
  then have "unat (x div base) < unat base ^ Suc n"
    by (simp add: unat_div less_mult_imp_div_less mult.commute)
  from Suc.IH [OF this] show ?case by (subst printint_digits.simps) simp
qed

text \<open>The text a format describes, as a reference for \<^verbatim>\<open>vprintf\<close>.\<close>

definition num_text :: "u32 \<Rightarrow> u32 \<Rightarrow> bool \<Rightarrow> u8 list" where
  "num_text x base sgnd = rev (printint_buf x base sgnd)"

definition ptr_text :: "u64 \<Rightarrow> u8 list" where
  "ptr_text x = lit ''0x'' @ map (\<lambda>i. digits (unat (take_bit 4 (drop_bit (60 - 4 * i) x)))) [0..<16]"

definition conv_text :: "u8 \<Rightarrow> varg list \<Rightarrow> (u8 list \<times> varg list) option" where
  "conv_text c ap =
     (if c = of_char CHR ''%'' then Some ([c], ap)
      else if c = of_char CHR ''s'' then
        (case ap of VStr s # ap \<Rightarrow>
           Some (takeWhile (\<lambda>b. b \<noteq> 0) (case s of None \<Rightarrow> lit ''(null)'' | Some s \<Rightarrow> s), ap) | _ \<Rightarrow> None)
      else if c \<in> set (lit ''dlxpc'') then
        (case ap of VNum x # ap \<Rightarrow>
           Some (if c = of_char CHR ''d'' then num_text (ucast x) 10 True
                 else if c = of_char CHR ''l'' then num_text (ucast x) 10 False
                 else if c = of_char CHR ''x'' then num_text (ucast x) 16 False
                 else if c = of_char CHR ''p'' then ptr_text x else [ucast x], ap) | _ \<Rightarrow> None)
      else Some (lit ''%'' @ [c], ap))"

fun format_text :: "bool \<Rightarrow> u8 list \<Rightarrow> varg list \<Rightarrow> u8 list option" where
  "format_text pct [] ap = Some []"
| "format_text pct (c # fmt) ap =
     (if c = 0 then Some []
      else if pct then
        (case conv_text c ap of None \<Rightarrow> None
         | Some (bs, ap) \<Rightarrow> map_option (\<lambda>t. bs @ t) (format_text False fmt ap))
      else if c = of_char CHR ''%'' then format_text True fmt ap
      else map_option (\<lambda>t. c # t) (format_text False fmt ap))"

lemma puts_append: "forK f (xs @ ys) = bind (forK f xs) (\<lambda>_. forK f ys)"
  by (rule ext) (simp add: forK_append bind_def)

lemma bind_skip [simp]: "bind f (\<lambda>_. skip) = f"
  by (rule ext) (simp add: run_simps)

lemma bind_assoc: "bind (bind f g) h = bind f (\<lambda>a. bind (g a) h)"
  by (rule ext) (simp add: bind_def [abs_def] obind_assoc)

lemma bind_ret: "bind (ret a) f = f a" "bind skip g = g ()"
  by (rule ext, simp add: run_simps)+

lemma printptr_text: "(printptr_u fd x :: ('w, unit) uprog) = forK (putc_u fd) (ptr_text x)"
proof -
  have "(printptr_loop fd (push_bit (4 * i) x) n :: ('w, unit) uprog) =
      forK (putc_u fd) (map (\<lambda>i. digits (unat (take_bit 4 (drop_bit (60 - 4 * i) x)))) [i..<i + n])"
    if "i + n \<le> 16" for i n
    using that
  proof (induction n arbitrary: i)
    case (Suc n)
    have "drop_bit 60 (push_bit (4 * i) x) = take_bit 4 (drop_bit (60 - 4 * i) x)"
      using Suc.prems
      by (intro bit_word_eqI) (auto simp: bit_simps)
    moreover have "[i..<i + Suc n] = i # [Suc i..<Suc i + n]" by (simp add: upt_rec)
    moreover have "push_bit 4 (push_bit (4 * i) x) = push_bit (4 * Suc i) x" by (simp add: algebra_simps)
    ultimately show ?case using Suc.IH [of "Suc i"] Suc.prems by simp
  qed simp
  from this [of 0 16] show ?thesis
    by (simp add: printptr_u_def ptr_text_def lit_def block_def)
qed

lemma vprintf_conv_text:
  assumes "conv_text c ap = Some (bs, ap')"
  shows "vprintf_conv fd c ap = bind (forK (putc_u fd) bs) (\<lambda>_. ret ap')"
proof (cases "c \<in> set (lit ''%sdlxpc'')")
  case True
  then show ?thesis using assms
    by (auto simp: lit_def conv_text_def vprintf_conv_def va_num_def va_str_def bind_ret printint_u_def
        num_text_def printptr_text split: list.splits varg.splits if_splits)
next
  case False
  with assms show ?thesis
    by (auto simp: lit_def conv_text_def vprintf_conv_def block_def bind_assoc bind_ret)
qed

lemma vprintf_text: "format_text pct fmt ap = Some bs \<Longrightarrow> vprintf_loop fd pct fmt ap = forK (putc_u fd) bs"
proof (induction fd pct fmt ap arbitrary: bs rule: vprintf_loop.induct)
  case (2 fd pct c fmt ap)
  then show ?case
    by (auto simp: vprintf_conv_text puts_append bind_assoc bind_ret split: if_splits option.splits)
qed simp

text \<open>A \<^verbatim>\<open>read\<close> with room for a byte either finds the end or takes bytes off the front of what is
  coming.\<close>

definition took :: "int \<Rightarrow> nat \<Rightarrow> reply list \<Rightarrow> 'w uworld_scheme \<Rightarrow> 'w uworld_scheme" where
  "took fd n rs w = w\<lparr>replies := (replies w)(KRead fd := rs), calls := calls w @ [URead fd n]\<rparr>"

lemma read_u_end:
  assumes "ends (replies w (KRead fd))" "incoming (replies w (KRead fd)) = []"
  shows "\<exists>r rs. read_u fd n w = Ok r (took fd n rs w) \<and> (r = None \<or> r = Some [])"
proof (cases "replies w (KRead fd)")
  case (Cons r rs)
  with assms show ?thesis
    by (intro exI [of _ "if r_val r < 0 then None else Some []"] exI [of _ rs])
       (auto simp: read_u_def Let_def took_def split: if_splits)
qed (use assms in \<open>simp add: ends_def\<close>)

lemma read_u_some:
  assumes "ends (replies w (KRead fd))" "incoming (replies w (KRead fd)) \<noteq> []" "0 < n"
  shows "\<exists>bs rs. read_u fd n w = Ok (Some bs) (took fd n rs w) \<and> bs \<noteq> [] \<and> length bs \<le> n \<and> ends rs \<and>
     incoming (replies w (KRead fd)) = bs @ incoming rs \<and> feed (took fd n rs w) fd < feed w fd"
proof (cases "replies w (KRead fd)")
  case (Cons r rs)
  with assms have r: "\<not> r_val r < 0" "r_data r \<noteq> []" by (auto split: if_splits)
  show ?thesis
  proof (cases "length (r_data r) \<le> n")
    case True
    with Cons r assms show ?thesis
      by (intro exI [of _ "r_data r"] exI [of _ rs])
         (auto simp: read_u_def Let_def took_def ends_def feed_def)
  next
    case False
    with Cons r assms show ?thesis
      by (intro exI [of _ "take n (r_data r)"] exI [of _ "r\<lparr>r_data := drop n (r_data r)\<rparr> # rs"])
         (auto simp: read_u_def Let_def took_def ends_def feed_def)
  qed
qed (use assms in simp)

text \<open>What has been written to a descriptor.\<close>

fun written :: "int \<Rightarrow> ucall list \<Rightarrow> u8 list list" where
  "written fd [] = []"
| "written fd (UWrite f bs # cs) = (if f = fd then bs # written fd cs else written fd cs)"
| "written fd (c # cs) = written fd cs"

lemma written_append [simp]: "written fd (xs @ ys) = written fd xs @ written fd ys"
  by (induction fd xs rule: written.induct) auto

lemma took_simps [simp]:
  "replies (took fd n rs w) = (replies w)(KRead fd := rs)" "written f (calls (took fd n rs w)) = written f (calls w)"
  by (simp_all add: took_def)

text \<open>A \<^verbatim>\<open>write\<close> that the kernel answers.\<close>

definition wrote :: "int \<Rightarrow> u8 list list \<Rightarrow> 'w uworld_scheme \<Rightarrow> 'w uworld_scheme" where
  "wrote fd bss w = w\<lparr>replies := (replies w)(KWrite fd := drop (length bss) (replies w (KWrite fd))),
     calls := calls w @ map (UWrite fd) bss\<rparr>"

lemma wrote_simps [simp]:
  "wrote fd [] w = w"
  "wrote fd ys (wrote fd xs w) = wrote fd (xs @ ys) w"
  "replies (wrote fd xs w) (KRead f) = replies w (KRead f)"
  "replies (wrote fd xs w) (KWrite fd) = drop (length xs) (replies w (KWrite fd))"
  "feed (wrote fd xs w) f = feed w f"
  "written fd (calls (wrote fd xs w)) = written fd (calls w) @ xs"
proof -
  have "written fd (map (UWrite fd) xs) = xs" by (induction xs) simp_all
  then show "written fd (calls (wrote fd xs w)) = written fd (calls w) @ xs" by (simp add: wrote_def)
qed (simp_all add: wrote_def feed_def add.commute)

lemma write_u_run:
  assumes "replies w (KWrite fd) \<noteq> []"
  shows "\<exists>r. write_u fd bs w = Ok r (wrote fd [bs] w)"
  using assms
  by (cases "replies w (KWrite fd)") (simp_all add: write_u_def usysv_def usys_def run_simps wrote_def Let_def)

text \<open>A write of every byte, one at a time.\<close>

definition putted :: "int \<Rightarrow> u8 list \<Rightarrow> 'w uworld_scheme \<Rightarrow> 'w uworld_scheme" where
  "putted fd bs w = w\<lparr>replies := (replies w)(KWrite fd := drop (length bs) (replies w (KWrite fd))),
     calls := calls w @ map (\<lambda>b. UWrite fd [b]) bs\<rparr>"

lemma puts_run:
  "length bs \<le> length (replies w (KWrite fd)) \<Longrightarrow> forK (putc_u fd) bs w = Ok () (putted fd bs w)"
proof (induction bs arbitrary: w)
  case (Cons b bs)
  then obtain r rs where r: "replies w (KWrite fd) = r # rs" by (cases "replies w (KWrite fd)") auto
  let ?w = "w\<lparr>replies := (replies w)(KWrite fd := rs), calls := calls w @ [UWrite fd [b]]\<rparr>"
  from r have "putc_u fd b w = Ok () ?w"
    by (simp add: run_simps putc_u_def write_u_def usysv_def usys_def Let_def)
  with r Cons.prems Cons.IH [of ?w] show ?case
    by (simp add: run_simps putted_def)
qed (simp add: run_simps putted_def)

lemma printf_run:
  assumes "format_text False (lit fmt) ap = Some bs" "length bs \<le> length (replies w (KWrite fd))" "length bs \<le> length (replies w (KWrite 1))"
  shows "fprintf_u fd fmt ap w = Ok () (putted fd bs w)" "printf_u fmt ap w = Ok () (putted 1 bs w)"
  using assms by (simp_all add: fprintf_u_def printf_u_def vprintf_u_def vprintf_text puts_run)


end
