(* ===== verification/Xv6_Ring.thy ===== *)
theory Xv6_Ring
  imports Xv6_Prelude
begin

text \<open>
  Ring buffers.  The UART, the console and the pipes keep an array of a power of two entries and
  two counters, the number of bytes read and written so far, which are words and wrap around.
  \<open>ring n buf r w\<close> is the list of the entries between the counters.  The locale \<open>fifo\<close> is the contract of a
  queue, and the theorem of the locale says that bytes leave it in the order in which they came.
\<close>

section \<open>Counters that wrap\<close>

definition ring :: "nat \<Rightarrow> (nat \<Rightarrow> 'b) \<Rightarrow> 'a::len word \<Rightarrow> 'a word \<Rightarrow> 'b list" where
  "ring n buf r w = map (\<lambda>k. buf (unat (r + of_nat k) mod n)) [0..<unat (w - r)]"

lemma length_ring [simp]: "length (ring n buf r w) = unat (w - r)"
  by (simp add: ring_def)

lemma ring_empty [simp]: "ring n buf r r = []"
  by (simp add: ring_def)

lemma ring_empty_iff: "ring n buf r w = [] \<longleftrightarrow> w = r"
  by (simp add: ring_def unat_eq_0)

lemma unat_add_mod:
  fixes r :: "'a::len word"
  assumes "n dvd 2 ^ LENGTH('a)"
  shows "unat (r + of_nat k) mod n = (unat r + k) mod n"
  using assms by (simp add: unat_word_ariths unat_of_nat mod_mod_cancel mod_add_right_eq)

lemma ring_full_iff:
  fixes r w :: "'a::len word"
  assumes "n < 2 ^ LENGTH('a)"
  shows "w = r + of_nat n \<longleftrightarrow> length (ring n buf r w) = n"
proof -
  have "w = r + of_nat n \<longleftrightarrow> w - r = of_nat n" by (auto simp: algebra_simps)
  also have "\<dots> \<longleftrightarrow> unat (w - r) = n" using assms by (simp add: word_unat_eq_iff unat_of_nat)
  finally show ?thesis by simp
qed

lemma ring_put:
  fixes r w :: "'a::len word"
  assumes "n dvd 2 ^ LENGTH('a)" "n < 2 ^ LENGTH('a)" "unat (w - r) < n"
  shows "ring n (buf(unat w mod n := c)) r (w + 1) = ring n buf r w @ [c]"
proof -
  have "unat d + 1 < 2 ^ LENGTH('a) \<Longrightarrow> unat (d + 1) = Suc (unat d)" for d :: "'a word"
    by (simp add: unat_word_ariths)
  moreover have "w + 1 - r = (w - r) + 1" by (rule diff_add_eq [symmetric])
  ultimately have len: "unat (w + 1 - r) = Suc (unat (w - r))" using assms(2,3) by (simp only:)
  have w: "r + of_nat (unat (w - r)) = w" by simp
  have "unat (r + of_nat k) mod n \<noteq> unat w mod n" if "k < unat (w - r)" for k
  proof -
    have "unat w mod n = (unat r + unat (w - r)) mod n" using unat_add_mod [OF assms(1), of r "unat (w - r)"] w by simp
    moreover have "unat (r + of_nat k) mod n = (unat r + k) mod n" by (rule unat_add_mod [OF assms(1)])
    moreover have "(unat r + k) mod n \<noteq> (unat r + unat (w - r)) mod n"
    proof
      assume "(unat r + k) mod n = (unat r + unat (w - r)) mod n"
      then have "n dvd (unat r + unat (w - r)) - (unat r + k)"
        using that by (subst mod_eq_dvd_iff_nat [symmetric]) auto
      then have "n dvd unat (w - r) - k" by simp
      with that assms(3) show False by (auto dest!: dvd_imp_le)
    qed
    ultimately show ?thesis by simp
  qed
  then show ?thesis by (simp add: ring_def len w)
qed

lemma ring_get:
  fixes r w :: "'a::len word"
  assumes "w \<noteq> r"
  shows "ring n buf r w = buf (unat r mod n) # ring n buf (r + 1) w"
proof -
  have nz: "w - r \<noteq> 0" using assms by simp
  have "w - (r + 1) = w - r - 1" by (rule diff_diff_eq [symmetric])
  then have "unat (w - (r + 1)) = unat (w - r) - 1" using unat_minus_one [OF nz] by (simp only:)
  moreover have "0 < unat (w - r)" using nz by (simp add: unat_gt_0)
  ultimately have len: "unat (w - r) = Suc (unat (w - (r + 1)))" by linarith
  have "map (\<lambda>k. buf (unat (r + of_nat k) mod n)) [0..<Suc m] =
      buf (unat r mod n) # map (\<lambda>k. buf (unat (r + 1 + of_nat k) mod n)) [0..<m]" for m
    unfolding upt_conv_Cons [OF zero_less_Suc] map_Suc_upt [symmetric] by (simp add: add.assoc)
  then show ?thesis unfolding ring_def len .
qed

lemma ring_append:
  fixes r w e :: "'a::len word"
  assumes "unat (w - r) \<le> unat (e - r)"
  shows "ring n buf r e = ring n buf r w @ ring n buf w e"
proof -
  have "unat (e - w) = unat (e - r - (w - r))" by simp
  also have "\<dots> = unat (e - r) - unat (w - r)" using assms by (subst unat_sub) (simp_all add: word_le_nat_alt)
  finally have len: "unat (e - r) = unat (w - r) + unat (e - w)" using assms by simp
  have "map (\<lambda>k. buf (unat (r + of_nat k) mod n)) [m..<m + l] =
      map (\<lambda>k. buf (unat (r + of_nat m + of_nat k) mod n)) [0..<l]" for m l
  proof -
    have "[m..<m + l] = map (\<lambda>k. m + k) [0..<l]" by (simp add: map_add_upt add.commute)
    then show ?thesis by (simp add: add.assoc)
  qed
  from this [of "unat (w - r)" "unat (e - w)"] show ?thesis
    unfolding ring_def len upt_add_eq_append [OF le0, of "unat (w - r)" "unat (e - w)", simplified] by simp
qed

lemma ring_unput:
  fixes w e :: "'a::len word"
  assumes "e \<noteq> w"
  shows "ring n buf w (e - 1) = butlast (ring n buf w e)" "last (ring n buf w e) = buf (unat (e - 1) mod n)"
proof -
  have nz: "e - w \<noteq> 0" using assms by simp
  have "e - 1 - w = e - w - 1" by simp
  then have "unat (e - 1 - w) = unat (e - w) - 1" using unat_minus_one [OF nz] by (simp only:)
  moreover have "0 < unat (e - w)" using nz by (simp add: unat_gt_0)
  ultimately have len: "unat (e - w) = Suc (unat (e - 1 - w))" by linarith
  then show "ring n buf w (e - 1) = butlast (ring n buf w e)" by (simp add: ring_def)
  show "last (ring n buf w e) = buf (unat (e - 1) mod n)" unfolding ring_def len by simp
qed

section \<open>The contract of a queue\<close>

text \<open>A queue holds at most \<open>cap\<close> entries.  \<open>put\<close> is only called when there is room, \<open>get\<close> when it is not
  empty.\<close>

locale fifo =
  fixes contents :: "'s \<Rightarrow> 'b list" and cap :: nat and put :: "'b \<Rightarrow> 's \<Rightarrow> 's" and get :: "'s \<Rightarrow> 'b \<times> 's"
  assumes put_contents: "length (contents s) < cap \<Longrightarrow> contents (put b s) = contents s @ [b]"
    and get_contents: "contents s \<noteq> [] \<Longrightarrow> contents s = fst (get s) # contents (snd (get s))"
begin

text \<open>A sequence of operations: \<open>Some b\<close> puts \<open>b\<close>, \<open>None\<close> gets.  An operation that the code would not
  perform is skipped.  The result is the final state and what came out.\<close>

fun exec :: "'b option list \<Rightarrow> 's \<Rightarrow> 's \<times> 'b list \<times> 'b list" where
  "exec [] s = (s, [], [])"
| "exec (Some b # ops) s =
     (if length (contents s) < cap then case exec ops (put b s) of (t, ins, outs) \<Rightarrow> (t, b # ins, outs)
      else exec ops s)"
| "exec (None # ops) s =
     (if contents s \<noteq> [] then case exec ops (snd (get s)) of (t, ins, outs) \<Rightarrow> (t, ins, fst (get s) # outs)
      else exec ops s)"

lemma exec_order: "exec ops s = (t, ins, outs) \<Longrightarrow> outs @ contents t = contents s @ ins"
proof (induction ops s arbitrary: t ins outs rule: exec.induct)
  case (2 b ops s)
  then show ?case by (auto simp: put_contents split: if_splits prod.splits)
next
  case (3 ops s)
  then show ?case using get_contents [of s] by (auto split: if_splits prod.splits)
qed simp

end

end
