(* ===== verification/Xv6_Tty.thy ===== *)
theory Xv6_Tty
  imports Xv6_Log Xv6_Ulib Xv6_Ring
begin

text \<open>
  The terminal: \<^verbatim>\<open>kernel/uart.c\<close>, \<^verbatim>\<open>kernel/printf.c\<close>, \<^verbatim>\<open>kernel/console.c\<close> and \<^verbatim>\<open>procdump\<close> of
  \<^verbatim>\<open>kernel/proc.c\<close>.

  The UART is seen through its registers.  \<open>uart_in s r\<close> holds the values that the next reads of
  register \<open>r\<close> return (and 0 after them), \<open>uart_log\<close> the writes in their order, so that the theorems hold
  for every behaviour of the device.  A loop that polls the line status register ends when it finds
  the transmitter idle, and spins for ever (\<open>Hang\<close>) when the device never gets there.

  \<^verbatim>\<open>panic\<close> is the outcome \<open>Panic\<close> of the statements of the other theories; \<open>kpanic\<close> is what the
  function does when it is called.

  Shown: the output buffer of the UART is a queue whose 64 bit indices may wrap; every character
  given to \<^verbatim>\<open>uartputc\<close> reaches the transmitter once and in order; the input buffer of the console
  never overflows, and a key edits the current line or hands it to the readers as the
  specification \<open>edit_key\<close> says.
\<close>

section \<open>State\<close>

datatype devfn = Consoleread | Consolewrite

record devsw =
  dev_read :: "devfn option"
  dev_write :: "devfn option"

record tty =
  uart_in :: "nat \<Rightarrow> u8 list"
  uart_log :: "(nat \<times> u8) list"
  uart_tx_buf :: "nat \<Rightarrow> u8"
  uart_tx_w :: u64
  uart_tx_r :: u64
  panicked :: int
  pr_locking :: int
  cons_buf :: "nat \<Rightarrow> u8"
  cons_r :: u32
  cons_w :: u32
  cons_e :: u32
  devsws :: "nat \<Rightarrow> devsw"

record ttyst = logst +
  tty :: tty

abbreviation upd_tty :: "(tty \<Rightarrow> tty) \<Rightarrow> ('r ttyst_scheme, unit) kprog" where
  "upd_tty f \<equiv> modify (\<lambda>s. s\<lparr>tty := f (tty s)\<rparr>)"

section \<open>uart.c\<close>

definition RHR :: nat where "RHR = 0"
definition THR :: nat where "THR = 0"
definition IER :: nat where "IER = 1"
definition IER_RX_ENABLE :: u8 where "IER_RX_ENABLE = 1"
definition IER_TX_ENABLE :: u8 where "IER_TX_ENABLE = 2"
definition FCR :: nat where "FCR = 2"
definition FCR_FIFO_ENABLE :: u8 where "FCR_FIFO_ENABLE = 1"
definition FCR_FIFO_CLEAR :: u8 where "FCR_FIFO_CLEAR = 6"
definition LCR :: nat where "LCR = 3"
definition LCR_EIGHT_BITS :: u8 where "LCR_EIGHT_BITS = 3"
definition LCR_BAUD_LATCH :: u8 where "LCR_BAUD_LATCH = 128"
definition LSR :: nat where "LSR = 5"
definition LSR_TX_IDLE :: u8 where "LSR_TX_IDLE = 32"
definition UART_TX_BUF_SIZE :: nat where [simp]: "UART_TX_BUF_SIZE = 32"

definition ReadReg :: "nat \<Rightarrow> ('r ttyst_scheme, u8) kprog" where
  "ReadReg reg s = (case uart_in (tty s) reg of [] \<Rightarrow> Ok 0 s
     | v # vs \<Rightarrow> Ok v (s\<lparr>tty := (tty s)\<lparr>uart_in := (uart_in (tty s))(reg := vs)\<rparr>\<rparr>))"

definition WriteReg :: "nat \<Rightarrow> u8 \<Rightarrow> ('r ttyst_scheme, unit) kprog" where
  "WriteReg reg v = upd_tty (\<lambda>t. t\<lparr>uart_log := uart_log t @ [(reg, v)]\<rparr>)"

definition uartinit :: "('r ttyst_scheme, unit) kprog" where
  "uartinit = block [
     WriteReg IER 0,
     WriteReg LCR LCR_BAUD_LATCH,
     WriteReg 0 3,
     WriteReg 1 0,
     WriteReg LCR LCR_EIGHT_BITS,
     WriteReg FCR (FCR_FIFO_ENABLE OR FCR_FIFO_CLEAR),
     WriteReg IER (IER_TX_ENABLE OR IER_RX_ENABLE),
     initlock L_uart_tx ''uart'']"

text \<open>The loop of \<^verbatim>\<open>uartstart\<close>; each round but the last reads a value of the status register.\<close>

fun uartstart_loop :: "nat \<Rightarrow> ('r ttyst_scheme, unit) kprog" where
  "uartstart_loop 0 = skip"
| "uartstart_loop (Suc k) =
     ifS (\<lambda>s. uart_tx_w (tty s) = uart_tx_r (tty s)) skip
       (bind (ReadReg LSR) (\<lambda>v. if v AND LSR_TX_IDLE = 0 then skip else
          bind (gets (\<lambda>s. uart_tx_buf (tty s) (unat (uart_tx_r (tty s)) mod UART_TX_BUF_SIZE))) (\<lambda>c. block [
            upd_tty (\<lambda>t. t\<lparr>uart_tx_r := uart_tx_r t + 1\<rparr>),
            wakeup (Some Ch_uart_tx_r),
            WriteReg THR c,
            uartstart_loop k])))"

definition uartstart :: "('r ttyst_scheme, unit) kprog" where
  "uartstart s = uartstart_loop (Suc (length (uart_in (tty s) LSR))) s"

text \<open>\<open>uartputc_loop\<close> is what \<^verbatim>\<open>uartputc\<close> does with the lock held: a process that finds the buffer
  full sleeps and starts here again.\<close>

definition uartputc_loop :: "u8 \<Rightarrow> ('r ttyst_scheme, unit) kprog" where
  "uartputc_loop c =
     ifS (\<lambda>s. uart_tx_w (tty s) = uart_tx_r (tty s) + of_nat UART_TX_BUF_SIZE) (sleep Ch_uart_tx_r L_uart_tx)
       (block [
          upd_tty (\<lambda>t. t\<lparr>uart_tx_buf := (uart_tx_buf t)(unat (uart_tx_w t) mod UART_TX_BUF_SIZE := c)\<rparr>),
          upd_tty (\<lambda>t. t\<lparr>uart_tx_w := uart_tx_w t + 1\<rparr>),
          uartstart,
          release L_uart_tx])"

definition uartputc :: "u8 \<Rightarrow> ('r ttyst_scheme, unit) kprog" where
  "uartputc c = block [
     acquire L_uart_tx,
     whenS (\<lambda>s. panicked (tty s) \<noteq> 0) (\<lambda>_. Hang),
     uartputc_loop c]"

fun uart_wait :: "nat \<Rightarrow> ('r ttyst_scheme, unit) kprog" where
  "uart_wait 0 = (\<lambda>_. Hang)"
| "uart_wait (Suc k) = bind (ReadReg LSR) (\<lambda>v. if v AND LSR_TX_IDLE = 0 then uart_wait k else skip)"

definition uartputc_sync :: "u8 \<Rightarrow> ('r ttyst_scheme, unit) kprog" where
  "uartputc_sync c = block [
     push_off,
     whenS (\<lambda>s. panicked (tty s) \<noteq> 0) (\<lambda>_. Hang),
     (\<lambda>s. uart_wait (Suc (length (uart_in (tty s) LSR))) s),
     WriteReg THR c,
     pop_off]"

definition uartgetc :: "('r ttyst_scheme, int) kprog" where
  "uartgetc = bind (ReadReg LSR) (\<lambda>v.
     if v AND 1 \<noteq> 0 then bind (ReadReg RHR) (\<lambda>c. ret (uint c)) else ret (- 1))"

section \<open>printf.c\<close>

definition BACKSPACE :: int where "BACKSPACE = 0x100"

definition consputc :: "int \<Rightarrow> ('r ttyst_scheme, unit) kprog" where
  "consputc c =
     (if c = BACKSPACE then block [uartputc_sync 8, uartputc_sync 32, uartputc_sync 8]
      else uartputc_sync (word_of_int c))"

definition kdigits :: "nat \<Rightarrow> u8" where
  "kdigits i = lit ''0123456789abcdef'' ! i"

function kprintint_digits :: "u32 \<Rightarrow> u32 \<Rightarrow> u8 list" where
  "kprintint_digits x base = kdigits (unat (x mod base)) #
     (if x div base \<noteq> 0 \<and> 1 < base then kprintint_digits (x div base) base else [])"
  by auto
termination
proof (relation "measure (\<lambda>(x, base). unat x)")
  fix x base :: u32
  assume "x div base \<noteq> 0 \<and> 1 < base"
  then have "0 < unat x div unat base" "1 < unat base"
    by (auto simp: word_less_nat_alt unat_div [symmetric] unat_gt_0)
  then show "((x div base, base), x, base) \<in> measure (\<lambda>(x, base). unat x)"
    using div_less_dividend [of "unat base" "unat x"] by (cases "unat x = 0") (simp_all add: unat_div)
qed simp

definition kprintint :: "u32 \<Rightarrow> u32 \<Rightarrow> bool \<Rightarrow> ('r ttyst_scheme, unit) kprog" where
  "kprintint xx base sign =
     (let neg = sign \<and> sint xx < 0; x = (if neg then - xx else xx) in
      forK (\<lambda>c. consputc (uint c)) (rev (kprintint_digits x base @ (if neg then lit ''-'' else []))))"

fun kprintptr_loop :: "u64 \<Rightarrow> nat \<Rightarrow> ('r ttyst_scheme, unit) kprog" where
  "kprintptr_loop x 0 = skip"
| "kprintptr_loop x (Suc n) =
     bind (consputc (uint (kdigits (unat (drop_bit 60 x))))) (\<lambda>_. kprintptr_loop (push_bit 4 x) n)"

definition kprintptr :: "u64 \<Rightarrow> ('r ttyst_scheme, unit) kprog" where
  "kprintptr x = block [consputc 48, consputc 120, kprintptr_loop x 16]"

text \<open>The arguments are as for the \<^verbatim>\<open>printf\<close> of user programs; a missing argument or one of the wrong
  kind, which C leaves undefined, stops the machine.\<close>

definition kprintf_conv :: "u8 \<Rightarrow> varg list \<Rightarrow> ('r ttyst_scheme, varg list) kprog" where
  "kprintf_conv c ap =
     (if c = of_char CHR ''d'' then
        (case ap of VNum x # ap \<Rightarrow> seqK [kprintint (ucast x) 10 True] (ret ap) | _ \<Rightarrow> panicK ''va_arg'')
      else if c = of_char CHR ''x'' then
        (case ap of VNum x # ap \<Rightarrow> seqK [kprintint (ucast x) 16 True] (ret ap) | _ \<Rightarrow> panicK ''va_arg'')
      else if c = of_char CHR ''p'' then
        (case ap of VNum x # ap \<Rightarrow> seqK [kprintptr x] (ret ap) | _ \<Rightarrow> panicK ''va_arg'')
      else if c = of_char CHR ''s'' then
        (case ap of VStr s # ap \<Rightarrow>
           seqK [forK (\<lambda>c. consputc (uint c)) (takeWhile (\<lambda>b. b \<noteq> 0) (case s of None \<Rightarrow> lit ''(null)'' | Some s \<Rightarrow> s))] (ret ap)
         | _ \<Rightarrow> panicK ''va_arg'')
      else if c = of_char CHR ''%'' then seqK [consputc (uint c)] (ret ap)
      else seqK [consputc 37, consputc (uint c)] (ret ap))"

fun kprintf_loop :: "u8 list \<Rightarrow> varg list \<Rightarrow> ('r ttyst_scheme, unit) kprog" where
  "kprintf_loop [] ap = skip"
| "kprintf_loop [c] ap = (if c = 0 \<or> c = of_char CHR ''%'' then skip else consputc (uint c))"
| "kprintf_loop (c # d # fmt) ap =
     (if c = 0 then skip
      else if c \<noteq> of_char CHR ''%'' then bind (consputc (uint c)) (\<lambda>_. kprintf_loop (d # fmt) ap)
      else if d = 0 then skip
      else bind (kprintf_conv d ap) (\<lambda>ap. kprintf_loop fmt ap))"

text \<open>\<open>None\<close> is a null format.\<close>

definition kprintf :: "u8 list option \<Rightarrow> varg list \<Rightarrow> ('r ttyst_scheme, unit) kprog" where
  "kprintf fmt ap = bind (gets (\<lambda>s. pr_locking (tty s) \<noteq> 0)) (\<lambda>locking. block [
     whenK locking (acquire L_pr),
     (case fmt of None \<Rightarrow> panicK ''null fmt'' | Some fmt \<Rightarrow> kprintf_loop fmt ap),
     whenK locking (release L_pr)])"

abbreviation printk :: "string \<Rightarrow> varg list \<Rightarrow> ('r ttyst_scheme, unit) kprog" where
  "printk fmt ap \<equiv> kprintf (Some (lit fmt)) ap"

definition kpanic :: "string \<Rightarrow> ('r ttyst_scheme, unit) kprog" where
  "kpanic m = block [
     upd_tty (\<lambda>t. t\<lparr>pr_locking := 0\<rparr>),
     printk ''panic: '' [],
     printk m [],
     printk ''\<newline>'' [],
     upd_tty (\<lambda>t. t\<lparr>panicked := 1\<rparr>),
     (\<lambda>_. Hang)]"

definition printfinit :: "('r ttyst_scheme, unit) kprog" where
  "printfinit = block [initlock L_pr ''pr'', upd_tty (\<lambda>t. t\<lparr>pr_locking := 1\<rparr>)]"

section \<open>procdump\<close>

definition state_name :: "procstate \<Rightarrow> string" where
  "state_name st = (case st of UNUSED \<Rightarrow> ''unused'' | USED \<Rightarrow> ''used'' | SLEEPING \<Rightarrow> ''sleep ''
     | RUNNABLE \<Rightarrow> ''runble'' | RUNNING \<Rightarrow> ''run   '' | ZOMBIE \<Rightarrow> ''zombie'')"

definition procdump_one :: "nat \<Rightarrow> ('r ttyst_scheme, unit) kprog" where
  "procdump_one p = bind (gets (\<lambda>s. procs s p)) (\<lambda>pr.
     whenK (p_state pr \<noteq> UNUSED) (block [
       printk ''%d %s %s'' [VNum (word_of_int (p_pid pr)), VStr (Some (lit (state_name (p_state pr)))), VStr (Some (p_name pr))],
       printk ''\<newline>'' []]))"

definition procdump :: "('r ttyst_scheme, unit) kprog" where
  "procdump = block [printk ''\<newline>'' [], forK procdump_one [0..<NPROC]]"

section \<open>console.c\<close>

definition INPUT_BUF_SIZE :: nat where [simp]: "INPUT_BUF_SIZE = 128"

text \<open>\<open>Ctl c\<close> is the macro \<^verbatim>\<open>C(c)\<close>.\<close>

definition Ctl :: "char \<Rightarrow> int" where
  "Ctl c = of_char c - 64"

fun consolewrite_loop :: "bool \<Rightarrow> u64 \<Rightarrow> nat \<Rightarrow> nat \<Rightarrow> ('r ttyst_scheme, int) kprog" where
  "consolewrite_loop user_src src i 0 = ret (int i)"
| "consolewrite_loop user_src src i (Suc n) =
     bind (either_copyin user_src (src + of_nat i) 1) (\<lambda>(r, bs).
       if r = - 1 then ret (int i)
       else seqK [uartputc (hd bs)] (consolewrite_loop user_src src (Suc i) n))"

definition consolewrite :: "bool \<Rightarrow> u64 \<Rightarrow> int \<Rightarrow> ('r ttyst_scheme, int) kprog" where
  "consolewrite user_src src n = consolewrite_loop user_src src 0 (nat n)"

text \<open>The outer loop of \<^verbatim>\<open>consoleread\<close> with the lock held, \<open>k\<close> bytes still to be read; a process that waits for
  input starts here again.  The result is what is then left of \<^verbatim>\<open>n\<close>, or \<open>None\<close> when the process has been
  killed.\<close>

fun consoleread_loop :: "bool \<Rightarrow> nat \<Rightarrow> u64 \<Rightarrow> nat \<Rightarrow> ('r ttyst_scheme, nat option) kprog" where
  "consoleread_loop user_dst target dst 0 = ret (Some 0)"
| "consoleread_loop user_dst target dst (Suc k) =
     ifS (\<lambda>s. cons_r (tty s) = cons_w (tty s))
       (bind the_proc (\<lambda>p. bind (killed p) (\<lambda>d.
          if d \<noteq> 0 then seqK [release L_cons] (ret None) else sleep Ch_cons_r L_cons)))
       (bind (gets (\<lambda>s. cons_buf (tty s) (unat (cons_r (tty s)) mod INPUT_BUF_SIZE))) (\<lambda>c.
          seqK [upd_tty (\<lambda>t. t\<lparr>cons_r := cons_r t + 1\<rparr>)]
            (if uint c = Ctl CHR ''D'' then
               seqK [whenK (Suc k < target) (upd_tty (\<lambda>t. t\<lparr>cons_r := cons_r t - 1\<rparr>))] (ret (Some (Suc k)))
             else bind (either_copyout user_dst dst [c]) (\<lambda>r.
               if r = - 1 then ret (Some (Suc k))
               else if c = 10 then ret (Some k)
               else consoleread_loop user_dst target (dst + 1) k))))"

definition consoleread :: "bool \<Rightarrow> u64 \<Rightarrow> int \<Rightarrow> ('r ttyst_scheme, int) kprog" where
  "consoleread user_dst dst n = seqK [acquire L_cons]
     (bind (consoleread_loop user_dst (nat n) dst (nat n)) (\<lambda>r. case r of None \<Rightarrow> ret (- 1)
      | Some k \<Rightarrow> seqK [release L_cons] (ret (int (nat n) - int k))))"

text \<open>The loop of control-U; it runs at most from the edit index back to the write index.\<close>

fun cons_kill_line :: "nat \<Rightarrow> ('r ttyst_scheme, unit) kprog" where
  "cons_kill_line 0 = skip"
| "cons_kill_line (Suc k) =
     whenS (\<lambda>s. cons_e (tty s) \<noteq> cons_w (tty s) \<and> cons_buf (tty s) (unat (cons_e (tty s) - 1) mod INPUT_BUF_SIZE) \<noteq> 10) (block [
       upd_tty (\<lambda>t. t\<lparr>cons_e := cons_e t - 1\<rparr>),
       consputc BACKSPACE,
       cons_kill_line k])"

definition cons_store :: "int \<Rightarrow> ('r ttyst_scheme, unit) kprog" where
  "cons_store c = block [
     consputc c,
     upd_tty (\<lambda>t. t\<lparr>cons_buf := (cons_buf t)(unat (cons_e t) mod INPUT_BUF_SIZE := word_of_int c)\<rparr>),
     upd_tty (\<lambda>t. t\<lparr>cons_e := cons_e t + 1\<rparr>),
     whenS (\<lambda>s. c = 10 \<or> c = Ctl CHR ''D'' \<or> unat (cons_e (tty s) - cons_r (tty s)) = INPUT_BUF_SIZE) (block [
       upd_tty (\<lambda>t. t\<lparr>cons_w := cons_e t\<rparr>),
       wakeup (Some Ch_cons_r)])]"

text \<open>The switch of \<^verbatim>\<open>consoleintr\<close>.\<close>

definition cons_key :: "int \<Rightarrow> ('r ttyst_scheme, unit) kprog" where
  "cons_key c =
     (if c = Ctl CHR ''P'' then procdump
      else if c = Ctl CHR ''U'' then (\<lambda>s. cons_kill_line (unat (cons_e (tty s) - cons_w (tty s))) s)
      else if c = Ctl CHR ''H'' \<or> c = 0x7f then
        whenS (\<lambda>s. cons_e (tty s) \<noteq> cons_w (tty s)) (block [
          upd_tty (\<lambda>t. t\<lparr>cons_e := cons_e t - 1\<rparr>),
          consputc BACKSPACE])
      else whenS (\<lambda>s. c \<noteq> 0 \<and> unat (cons_e (tty s) - cons_r (tty s)) < INPUT_BUF_SIZE)
        (cons_store (if c = 13 then 10 else c)))"

definition consoleintr :: "int \<Rightarrow> ('r ttyst_scheme, unit) kprog" where
  "consoleintr c = block [acquire L_cons, cons_key c, release L_cons]"

definition consoleinit :: "('r ttyst_scheme, unit) kprog" where
  "consoleinit = block [
     initlock L_cons ''cons'',
     uartinit,
     upd_tty (\<lambda>t. t\<lparr>devsws := (devsws t)(1 := \<lparr>dev_read = Some Consoleread, dev_write = Some Consolewrite\<rparr>)\<rparr>)]"

fun uartintr_loop :: "nat \<Rightarrow> ('r ttyst_scheme, unit) kprog" where
  "uartintr_loop 0 = skip"
| "uartintr_loop (Suc k) = bind uartgetc (\<lambda>c. if c = - 1 then skip else block [consoleintr c, uartintr_loop k])"

definition uartintr :: "('r ttyst_scheme, unit) kprog" where
  "uartintr = block [
     (\<lambda>s. uartintr_loop (Suc (length (uart_in (tty s) LSR))) s),
     acquire L_uart_tx,
     uartstart,
     release L_uart_tx]"

section \<open>Frame\<close>

lemma ttyst_sel_frame [simp]:
  "tty (acquired l s) = tty s" "tty (released l s) = tty s" "tty (cycled s) = tty s"
  "tty (sie_on s) = tty s" "tty (sie_off s) = tty s" "tty (upd_mycpu h s) = tty s"
  by (simp_all add: base_effects)

lemma ttyst_upd_frame [simp]:
  "acquired l (tty_update g0 s) = tty_update g0 (acquired l s)" "released l (tty_update g0 s) = tty_update g0 (released l s)"
  "cycled (tty_update g0 s) = tty_update g0 (cycled s)" "sie_on (tty_update g0 s) = tty_update g0 (sie_on s)"
  "sie_off (tty_update g0 s) = tty_update g0 (sie_off s)" "upd_mycpu h (tty_update g0 s) = tty_update g0 (upd_mycpu h s)"
  by (simp_all add: base_effects)

lemma ttyst_base_frame [simp]:
  "cpuid (tty_update g0 s) = cpuid s" "mycpu (tty_update g0 s) = mycpu s" "intr_get (tty_update g0 s) = intr_get s"
  "holding l (tty_update g0 s) = holding l s" "unlocked l (tty_update g0 s) = unlocked l s" "intr_sane (tty_update g0 s) = intr_sane s"
  by (simp_all add: cpuid_def r_tp_def mycpu_def intr_get_bit holding_def unlocked_def intr_sane_def)

section \<open>The output queue\<close>

text \<open>The bytes given to the transmitter, and the bytes that wait in the buffer.\<close>

definition uart_sent :: "tty \<Rightarrow> u8 list" where
  "uart_sent t = map snd (filter (\<lambda>(reg, v). reg = THR) (uart_log t))"

definition uart_pending :: "tty \<Rightarrow> u8 list" where
  "uart_pending t = ring UART_TX_BUF_SIZE (uart_tx_buf t) (uart_tx_r t) (uart_tx_w t)"

definition uart_put :: "u8 \<Rightarrow> tty \<Rightarrow> tty" where
  "uart_put c t = t\<lparr>uart_tx_buf := (uart_tx_buf t)(unat (uart_tx_w t) mod UART_TX_BUF_SIZE := c),
     uart_tx_w := uart_tx_w t + 1\<rparr>"

definition uart_get :: "tty \<Rightarrow> u8 \<times> tty" where
  "uart_get t = (uart_tx_buf t (unat (uart_tx_r t) mod UART_TX_BUF_SIZE), t\<lparr>uart_tx_r := uart_tx_r t + 1\<rparr>)"

interpretation uartq: fifo uart_pending UART_TX_BUF_SIZE uart_put uart_get
proof
  fix t b
  assume "length (uart_pending t) < UART_TX_BUF_SIZE"
  then show "uart_pending (uart_put b t) = uart_pending t @ [b]"
    by (simp add: uart_pending_def uart_put_def) (rule ring_put, simp_all)
next
  fix t
  assume "uart_pending t \<noteq> []"
  then show "uart_pending t = fst (uart_get t) # uart_pending (snd (uart_get t))"
    by (simp add: uart_pending_def uart_get_def ring_empty_iff ring_get)
qed

lemma uart_full_iff:
  "uart_tx_w t = uart_tx_r t + 32 \<longleftrightarrow> length (uart_pending t) = UART_TX_BUF_SIZE"
  unfolding uart_pending_def using ring_full_iff [of 32 "uart_tx_w t" "uart_tx_r t"] by simp

lemma uart_sent_in [simp]: "uart_sent (uart_in_update f t) = uart_sent t" "uart_pending (uart_in_update f t) = uart_pending t"
  by (simp_all add: uart_sent_def uart_pending_def)

lemma uart_sent_log [simp]:
  "uart_sent (t\<lparr>uart_log := uart_log t @ [(THR, c)]\<rparr>) = uart_sent t @ [c]"
  "uart_pending (uart_log_update f t) = uart_pending t" "uart_sent (uart_tx_r_update g t) = uart_sent t"
  "uart_sent (uart_put c t) = uart_sent t"
  by (simp_all add: uart_sent_def uart_pending_def uart_put_def)

text \<open>What \<^verbatim>\<open>uartstart\<close> does to the state: it changes the terminal and wakes processes.\<close>

definition uart_moved :: "'r ttyst_scheme \<Rightarrow> 'r ttyst_scheme \<Rightarrow> bool" where
  "uart_moved s t \<longleftrightarrow> (\<exists>C u. t = s\<lparr>procs := roused C (c_proc (mycpu s)) (procs s), tty := u\<rparr> \<and> C \<subseteq> {Ch_uart_tx_r} \<and>
     uart_sent u @ uart_pending u = uart_sent (tty s) @ uart_pending (tty s) \<and>
     length (uart_pending u) \<le> length (uart_pending (tty s)) \<and> panicked u = panicked (tty s))"

lemma uart_moved_refl: "uart_moved s s"
  by (auto simp: uart_moved_def intro!: exI [of _ "{}"] exI [of _ "tty s"])

lemma uart_moved_trans:
  assumes "uart_moved s t" "uart_moved t u"
  shows "uart_moved s u"
proof -
  from assms(1) obtain C v where t: "t = s\<lparr>procs := roused C (c_proc (mycpu s)) (procs s), tty := v\<rparr>" "C \<subseteq> {Ch_uart_tx_r}"
      "uart_sent v @ uart_pending v = uart_sent (tty s) @ uart_pending (tty s)"
      "length (uart_pending v) \<le> length (uart_pending (tty s))" "panicked v = panicked (tty s)"
    unfolding uart_moved_def by blast
  from assms(2) obtain D w where u: "u = t\<lparr>procs := roused D (c_proc (mycpu t)) (procs t), tty := w\<rparr>" "D \<subseteq> {Ch_uart_tx_r}"
      "uart_sent w @ uart_pending w = uart_sent (tty t) @ uart_pending (tty t)"
      "length (uart_pending w) \<le> length (uart_pending (tty t))" "panicked w = panicked (tty t)"
    unfolding uart_moved_def by blast
  show ?thesis unfolding uart_moved_def
    using t u by (intro exI [of _ "D \<union> C"] exI [of _ w]) auto
qed

lemma uart_step:
  assumes "intr_sane s" "others_unlocked s" "c_noff (mycpu s) \<noteq> 0" "uart_tx_w (tty s) \<noteq> uart_tx_r (tty s)"
    "uart_in (tty s) LSR = v # vs" "v AND LSR_TX_IDLE \<noteq> 0"
  shows "\<exists>t. uartstart_loop (Suc k) s = uartstart_loop k t \<and> uart_moved s t \<and> uart_in (tty t) LSR = vs"
proof -
  let ?u = "(tty s)\<lparr>uart_in := (uart_in (tty s))(LSR := vs)\<rparr>"
  let ?c = "uart_tx_buf ?u (unat (uart_tx_r ?u) mod UART_TX_BUF_SIZE)"
  let ?v = "?u\<lparr>uart_tx_r := uart_tx_r ?u + 1\<rparr>"
  let ?w = "?v\<lparr>uart_log := uart_log ?v @ [(THR, ?c)]\<rparr>"
  let ?t = "s\<lparr>procs := roused {Ch_uart_tx_r} (c_proc (mycpu s)) (procs s), tty := ?w\<rparr>"
  have "others_unlocked (s\<lparr>tty := ?v\<rparr>)" using assms(2) by (simp add: others_unlocked_def)
  then have wk: "wakeup (Some Ch_uart_tx_r) (s\<lparr>tty := ?v\<rparr>) =
      Ok () (s\<lparr>tty := ?v, procs := roused {Ch_uart_tx_r} (c_proc (mycpu s)) (procs s)\<rparr>)"
    using assms(1,3) by (subst wakeup_rouses) (simp_all add: cycled_nested)
  have "uartstart_loop (Suc k) s = uartstart_loop k ?t"
    using assms(4-6) wk by (simp add: run_simps ReadReg_def WriteReg_def)
  moreover have "uart_moved s ?t"
  proof -
    have ne: "uart_pending ?u \<noteq> []" using assms(4) by (simp add: uart_pending_def ring_empty_iff)
    have "uart_pending ?u = ?c # uart_pending ?v"
      using uartq.get_contents [OF ne] by (simp add: uart_get_def)
    then have "uart_pending (tty s) = ?c # uart_pending ?v" by simp
    then show ?thesis unfolding uart_moved_def
      by (intro exI [of _ "{Ch_uart_tx_r}"] exI [of _ ?w]) (simp add: uart_sent_def)
  qed
  ultimately show ?thesis by (intro exI [of _ ?t]) simp
qed

lemma uart_moved_base:
  assumes "uart_moved s t"
  shows "intr_sane t = intr_sane s" "others_unlocked t = others_unlocked s" "mycpu t = mycpu s"
    "holding l t = holding l s" "intr_get t = intr_get s"
  using assms by (auto simp: uart_moved_def others_unlocked_def)

lemma uartstart_loop_run:
  assumes "intr_sane s" "others_unlocked s" "c_noff (mycpu s) \<noteq> 0" "length (uart_in (tty s) LSR) < k"
  shows "\<exists>t. uartstart_loop k s = Ok () t \<and> uart_moved s t"
  using assms
proof (induction k arbitrary: s)
  case (Suc k)
  show ?case
  proof (cases "uart_tx_w (tty s) = uart_tx_r (tty s)")
    case True
    then show ?thesis using uart_moved_refl [of s] by (simp add: run_simps)
  next
    case ne: False
    show ?thesis
    proof (cases "uart_in (tty s) LSR")
      case Nil
      then show ?thesis using ne uart_moved_refl [of s] by (simp add: run_simps ReadReg_def)
    next
      case (Cons v vs)
      show ?thesis
      proof (cases "v AND LSR_TX_IDLE = 0")
        case True
        have "uart_moved s (s\<lparr>tty := (tty s)\<lparr>uart_in := (uart_in (tty s))(LSR := vs)\<rparr>\<rparr>)"
          unfolding uart_moved_def
          by (intro exI [of _ "{}"] exI [of _ "(tty s)\<lparr>uart_in := (uart_in (tty s))(LSR := vs)\<rparr>"]) simp
        with True ne Cons show ?thesis by (simp add: run_simps ReadReg_def)
      next
        case False
        from uart_step [OF Suc.prems(1-3) ne Cons False] obtain t where
          t: "uartstart_loop (Suc k) s = uartstart_loop k t" "uart_moved s t" "uart_in (tty t) LSR = vs" by blast
        have "\<exists>u. uartstart_loop k t = Ok () u \<and> uart_moved t u"
          using Suc.prems Cons t(3) uart_moved_base [OF t(2)] by (intro Suc.IH) auto
        then show ?thesis using t uart_moved_trans by metis
      qed
    qed
  qed
qed simp

lemma uartstart_run:
  assumes "intr_sane s" "others_unlocked s" "c_noff (mycpu s) \<noteq> 0"
  shows "\<exists>t. uartstart s = Ok () t \<and> uart_moved s t"
  unfolding uartstart_def by (rule uartstart_loop_run [OF assms]) simp


section \<open>The line discipline\<close>

text \<open>Bytes that a reader may take, and bytes of the line that is being edited.\<close>

definition cons_view :: "tty \<Rightarrow> (nat \<Rightarrow> u8) \<times> u32 \<times> u32 \<times> u32" where
  "cons_view t = (cons_buf t, cons_r t, cons_w t, cons_e t)"

definition cons_ready :: "tty \<Rightarrow> u8 list" where
  "cons_ready t = ring INPUT_BUF_SIZE (cons_buf t) (cons_r t) (cons_w t)"

definition cons_edit :: "tty \<Rightarrow> u8 list" where
  "cons_edit t = ring INPUT_BUF_SIZE (cons_buf t) (cons_w t) (cons_e t)"

definition cons_ok :: "tty \<Rightarrow> bool" where
  "cons_ok t \<longleftrightarrow> unat (cons_w t - cons_r t) \<le> unat (cons_e t - cons_r t) \<and>
     unat (cons_e t - cons_r t) \<le> INPUT_BUF_SIZE \<and> 10 \<notin> set (cons_edit t)"

text \<open>What a key does: the specification.\<close>

definition edit_key :: "int \<Rightarrow> u8 list \<times> u8 list \<Rightarrow> u8 list \<times> u8 list" where
  "edit_key c = (\<lambda>(ready, edit).
     if c = Ctl CHR ''P'' then (ready, edit)
     else if c = Ctl CHR ''U'' then (ready, [])
     else if c = Ctl CHR ''H'' \<or> c = 0x7f then (ready, butlast edit)
     else if c = 0 \<or> INPUT_BUF_SIZE \<le> length ready + length edit then (ready, edit)
     else let b = (if c = 13 then 10 else c) in
       if b = 10 \<or> b = Ctl CHR ''D'' \<or> length ready + length edit + 1 = INPUT_BUF_SIZE
       then (ready @ edit @ [word_of_int b], []) else (ready, edit @ [word_of_int b]))"

lemma cons_split:
  assumes "unat (cons_w t - cons_r t) \<le> unat (cons_e t - cons_r t)"
  shows "ring INPUT_BUF_SIZE (cons_buf t) (cons_r t) (cons_e t) = cons_ready t @ cons_edit t"
    "length (cons_ready t) + length (cons_edit t) = unat (cons_e t - cons_r t)"
proof -
  show *: "ring INPUT_BUF_SIZE (cons_buf t) (cons_r t) (cons_e t) = cons_ready t @ cons_edit t"
    unfolding cons_ready_def cons_edit_def by (rule ring_append [OF assms])
  show "length (cons_ready t) + length (cons_edit t) = unat (cons_e t - cons_r t)"
    using arg_cong [OF *, of length] by simp
qed

lemma cons_view_eq:
  assumes "cons_view t = cons_view u"
  shows "cons_ok t = cons_ok u" "cons_ready t = cons_ready u" "cons_edit t = cons_edit u"
  using assms by (auto simp: cons_view_def cons_ok_def cons_ready_def cons_edit_def)

text \<open>Printing changes the UART only.\<close>

lemma keeps_print:
  fixes F :: "'r ttyst_scheme \<Rightarrow> 'x"
  assumes lock: "\<And>l. keeps F (acquire l)" "\<And>l. keeps F (release l)" "keeps F push_off" "keeps F pop_off"
    and uart: "\<And>s g. F (s\<lparr>tty := (tty s)\<lparr>uart_in := g\<rparr>\<rparr>) = F s" "\<And>s g. F (s\<lparr>tty := (tty s)\<lparr>uart_log := g\<rparr>\<rparr>) = F s"
  shows "keeps F (consputc c)" "keeps F (kprintf fmt ap)" "keeps F procdump"
proof -
  have io: "keeps F (ReadReg r)" "keeps F (WriteReg r v)" for r v
    using uart by (auto simp: keeps_def ReadReg_def WriteReg_def run_simps split: list.splits)
  have wait: "keeps F (uart_wait k)" for k
    by (induction k) (auto intro!: keeps_intros io)
  have sync: "keeps F (uartputc_sync v)" for v
    unfolding uartputc_sync_def
    by (intro keeps_intros lock io keeps_arg [of F uart_wait "\<lambda>s. Suc (length (uart_in (tty s) LSR))"] wait)
  show putc: "keeps F (consputc c)" for c
    unfolding consputc_def by (auto intro!: keeps_intros sync)
  have ptr: "keeps F (kprintptr_loop x n)" for x n
    by (induction n arbitrary: x) (auto intro!: keeps_intros putc)
  have conv: "keeps F (kprintf_conv d ap)" for d ap
  proof -
    have num: "keeps F (case ap of VNum x # ap \<Rightarrow> seqK [f x] (ret ap) | _ \<Rightarrow> panicK m)"
      if "\<And>x. keeps F (f x)" for f m
      using that by (auto split: list.split varg.split intro!: keeps_intros)
    have str: "keeps F (case ap of VStr y # ap \<Rightarrow> seqK [g y] (ret ap) | _ \<Rightarrow> panicK m)"
      if "\<And>y. keeps F (g y)" for g m
      using that by (auto split: list.split varg.split intro!: keeps_intros)
    show ?thesis unfolding kprintf_conv_def kprintint_def kprintptr_def Let_def
      by (intro keeps_intros num str putc ptr)
  qed
  have loop: "keeps F (kprintf_loop fmt ap)" for fmt ap
    by (induction fmt ap rule: kprintf_loop.induct) (auto intro!: keeps_intros putc conv)
  show pr: "keeps F (kprintf fmt ap)" for fmt ap
    unfolding kprintf_def by (intro keeps_intros lock loop)
  show "keeps F procdump" unfolding procdump_def procdump_one_def by (intro keeps_intros pr)
qed

lemma keeps_cons:
  fixes F :: "'r ttyst_scheme \<Rightarrow> _"
  defines "F \<equiv> \<lambda>s. cons_view (tty s)"
  shows "keeps F (consputc c)" "keeps F (wakeup ch)" "keeps F procdump" "keeps F (acquire l)" "keeps F (release l)"
proof -
  have lock: "keeps F (acquire l)" "keeps F (release l)" "keeps F push_off" "keeps F pop_off" for l
    by (rule keeps_locking; simp add: F_def pushed_def popped_def base_effects)+
  then show "keeps F (acquire l)" "keeps F (release l)" by blast+
  show "keeps F (wakeup ch)" by (rule keeps_sleeping) (simp_all add: F_def base_effects)
  show "keeps F (consputc c)" "keeps F procdump"
    by (rule keeps_print [OF lock]; simp add: F_def cons_view_def)+
qed

lemma cons_put:
  fixes b :: u8
  assumes "cons_ok t" "unat (cons_e t - cons_r t) < INPUT_BUF_SIZE"
  defines "u \<equiv> t\<lparr>cons_buf := (cons_buf t)(unat (cons_e t) mod INPUT_BUF_SIZE := b), cons_e := cons_e t + 1\<rparr>"
  shows "cons_ready u = cons_ready t" "cons_edit u = cons_edit t @ [b]"
    "unat (cons_w u - cons_r u) \<le> unat (cons_e u - cons_r u)" "unat (cons_e u - cons_r u) = Suc (unat (cons_e t - cons_r t))"
proof -
  let ?e = "cons_e t" and ?r = "cons_r t" and ?w = "cons_w t"
  have w: "unat (?w - ?r) \<le> unat (?e - ?r)" using assms(1) by (simp add: cons_ok_def)
  have "ring INPUT_BUF_SIZE (cons_buf u) (cons_r u) (cons_e u) = ring INPUT_BUF_SIZE (cons_buf t) ?r ?e @ [b]"
    using assms(2) unfolding u_def by simp (rule ring_put, simp_all)
  then have all: "ring INPUT_BUF_SIZE (cons_buf u) (cons_r u) (cons_e u) = cons_ready t @ cons_edit t @ [b]"
    using cons_split(1) [OF w] by simp
  show e: "unat (cons_e u - cons_r u) = Suc (unat (?e - ?r))"
    using arg_cong [OF all, of length] cons_split(2) [OF w] by simp
  then show w': "unat (cons_w u - cons_r u) \<le> unat (cons_e u - cons_r u)" using w by (simp add: u_def)
  have "cons_ready u @ cons_edit u = cons_ready t @ cons_edit t @ [b]" using cons_split(1) [OF w'] all by simp
  moreover have "length (cons_ready u) = length (cons_ready t)" by (simp add: cons_ready_def u_def)
  ultimately show "cons_ready u = cons_ready t" "cons_edit u = cons_edit t @ [b]" by simp_all
qed

lemma cons_unput:
  assumes "cons_ok t" "cons_e t \<noteq> cons_w t"
  defines "u \<equiv> t\<lparr>cons_e := cons_e t - 1\<rparr>"
  shows "cons_ok u" "cons_ready u = cons_ready t" "cons_edit u = butlast (cons_edit t)"
    "last (cons_edit t) = cons_buf t (unat (cons_e t - 1) mod INPUT_BUF_SIZE)" "cons_edit t \<noteq> []"
proof -
  let ?e = "cons_e t" and ?r = "cons_r t" and ?w = "cons_w t"
  have w: "unat (?w - ?r) \<le> unat (?e - ?r)" using assms(1) by (simp add: cons_ok_def)
  show ne: "cons_edit t \<noteq> []" using assms(2) by (simp add: cons_edit_def ring_empty_iff)
  have lt: "unat (?w - ?r) < unat (?e - ?r)"
    using cons_split(2) [OF w] ne by (cases "cons_edit t") (simp_all add: cons_ready_def)
  then have nz: "?e - ?r \<noteq> 0" by auto
  have "?e - 1 - ?r = ?e - ?r - 1" by simp
  then have e: "unat (?e - 1 - ?r) = unat (?e - ?r) - 1" using unat_minus_one [OF nz] by (simp only:)
  show b: "cons_edit u = butlast (cons_edit t)" using ring_unput(1) [OF assms(2)] by (simp add: cons_edit_def u_def)
  show "last (cons_edit t) = cons_buf t (unat (?e - 1) mod INPUT_BUF_SIZE)"
    using ring_unput(2) [OF assms(2)] by (simp add: cons_edit_def)
  show "cons_ready u = cons_ready t" by (simp add: cons_ready_def u_def)
  have "10 \<notin> set (cons_edit u)" using assms(1) b by (auto simp: cons_ok_def dest: in_set_butlastD)
  moreover have "unat (cons_w u - cons_r u) \<le> unat (cons_e u - cons_r u)" "unat (cons_e u - cons_r u) \<le> INPUT_BUF_SIZE"
    using assms(1) lt e by (auto simp: u_def cons_ok_def)
  ultimately show "cons_ok u" by (simp add: cons_ok_def)
qed

lemma cons_kill_line_keeps:
  assumes "cons_kill_line k s = Ok () t" "unat (cons_e (tty s) - cons_w (tty s)) = k" "cons_ok (tty s)"
  shows "cons_ok (tty t) \<and> cons_ready (tty t) = cons_ready (tty s) \<and> cons_edit (tty t) = []"
  using assms
proof (induction k arbitrary: s)
  case 0
  then show ?case by (auto simp: run_simps cons_edit_def ring_def)
next
  case (Suc k)
  let ?u = "(tty s)\<lparr>cons_e := cons_e (tty s) - 1\<rparr>"
  have ne: "cons_e (tty s) \<noteq> cons_w (tty s)" using Suc.prems(2) by auto
  note un = cons_unput [OF Suc.prems(3) ne]
  have "last (cons_edit (tty s)) \<noteq> 10" using Suc.prems(3) last_in_set [OF un(5)] by (auto simp: cons_ok_def)
  with Suc.prems(1) ne un(4) obtain s' where
    s': "consputc BACKSPACE (s\<lparr>tty := ?u\<rparr>) = Ok () s'" "cons_kill_line k s' = Ok () t"
    by (auto simp: run_simps obind_Ok_iff)
  have v: "cons_view (tty s') = cons_view ?u" using keepsD(1) [OF keeps_cons(1) s'(1)] by simp
  have len: "unat (cons_e ?u - cons_w ?u) = k"
    using arg_cong [OF un(3), of length] Suc.prems(2) by (simp add: cons_edit_def)
  have "unat (cons_e (tty s') - cons_w (tty s')) = k" using v len by (simp add: cons_view_def)
  with Suc.IH [OF s'(2)] cons_view_eq [OF v] un(1,2) show ?case by simp
qed

lemma cons_store_run:
  assumes "cons_store c s = Ok () t" "cons_ok (tty s)" "unat (cons_e (tty s) - cons_r (tty s)) < INPUT_BUF_SIZE"
    "0 \<le> c" "c < 256"
  defines "b \<equiv> word_of_int c :: u8" and "full \<equiv> c = 10 \<or> c = Ctl CHR ''D'' \<or> length (cons_ready (tty s)) + length (cons_edit (tty s)) + 1 = INPUT_BUF_SIZE"
  shows "cons_ok (tty t)" "cons_ready (tty t) = cons_ready (tty s) @ (if full then cons_edit (tty s) @ [b] else [])"
    "cons_edit (tty t) = (if full then [] else cons_edit (tty s) @ [b])"
proof -
  have ten: "b = 10 \<longleftrightarrow> c = 10" using assms(4,5) by (simp add: b_def word_uint_eq_iff uint_word_of_int)
  obtain s1 where s1: "consputc c s = Ok () s1"
    using assms(1) by (auto simp: cons_store_def run_simps obind_Ok_iff)
  define u where "u = (tty s1)\<lparr>cons_buf := (cons_buf (tty s1))(unat (cons_e (tty s1)) mod INPUT_BUF_SIZE := b), cons_e := cons_e (tty s1) + 1\<rparr>"
  have v: "cons_view (tty s1) = cons_view (tty s)" using keepsD(1) [OF keeps_cons(1) s1] by simp
  have ok1: "cons_ok (tty s1)" "unat (cons_e (tty s1) - cons_r (tty s1)) < INPUT_BUF_SIZE"
    using assms(2,3) cons_view_eq(1) [OF v] v by (simp_all add: cons_view_def)
  note put = cons_put [OF ok1, where b = b, folded u_def]
  have w: "unat (cons_w (tty s1) - cons_r (tty s1)) \<le> unat (cons_e (tty s1) - cons_r (tty s1))"
    using ok1(1) by (simp add: cons_ok_def)
  have full: "full \<longleftrightarrow> c = 10 \<or> c = Ctl CHR ''D'' \<or> unat (cons_e u - cons_r u) = INPUT_BUF_SIZE"
    using put(4) cons_split(2) [OF w] cons_view_eq(2,3) [OF v] by (simp add: full_def)
  have old: "cons_ready (tty s1) = cons_ready (tty s)" "cons_edit (tty s1) = cons_edit (tty s)" using cons_view_eq [OF v] by blast+
  have "cons_ok (tty t) \<and> cons_ready (tty t) = cons_ready (tty s) @ (if full then cons_edit (tty s) @ [b] else []) \<and>
    cons_edit (tty t) = (if full then [] else cons_edit (tty s) @ [b])"
  proof (cases full)
    case True
    let ?v = "u\<lparr>cons_w := cons_e u\<rparr>"
    have "wakeup (Some Ch_cons_r) (s1\<lparr>tty := ?v\<rparr>) = Ok () t"
      using assms(1) True s1 unfolding full by (auto simp: cons_store_def run_simps u_def b_def)
    then have v': "cons_view (tty t) = cons_view ?v" using keepsD(1) [OF keeps_cons(2)] by fastforce
    have "cons_edit ?v = []" "cons_ready ?v = cons_ready u @ cons_edit u"
      using cons_split(1) [OF put(3)] by (simp_all add: cons_edit_def cons_ready_def)
    moreover have "cons_ok ?v" using put(4) ok1(2) by (simp add: cons_ok_def calculation(1))
    ultimately show ?thesis using cons_view_eq [OF v'] put(1,2) old True by simp
  next
    case False
    then have "t = s1\<lparr>tty := u\<rparr>" using assms(1) s1 unfolding full by (auto simp: cons_store_def run_simps u_def b_def)
    moreover have "cons_ok u" using put ok1 False ten unfolding full by (auto simp: cons_ok_def)
    ultimately show ?thesis using put(1,2) old False by simp
  qed
  then show "cons_ok (tty t)" "cons_ready (tty t) = cons_ready (tty s) @ (if full then cons_edit (tty s) @ [b] else [])"
    "cons_edit (tty t) = (if full then [] else cons_edit (tty s) @ [b])" by blast+
qed

lemma cons_key_run:
  assumes "cons_key c s = Ok () t" "cons_ok (tty s)" "0 \<le> c" "c < 256"
  shows "cons_ok (tty t) \<and> (cons_ready (tty t), cons_edit (tty t)) = edit_key c (cons_ready (tty s), cons_edit (tty s))"
proof -
  have "unat (cons_w (tty s) - cons_r (tty s)) \<le> unat (cons_e (tty s) - cons_r (tty s))"
    using assms(2) by (simp add: cons_ok_def)
  note len = cons_split(2) [OF this] and ok1 = assms(2)
  note body = assms(1) [unfolded cons_key_def]
  consider (p) "c = Ctl CHR ''P''" | (u) "c \<noteq> Ctl CHR ''P''" "c = Ctl CHR ''U''"
    | (h) "c \<noteq> Ctl CHR ''P''" "c \<noteq> Ctl CHR ''U''" "c = Ctl CHR ''H'' \<or> c = 0x7f"
    | (k) "c \<noteq> Ctl CHR ''P''" "c \<noteq> Ctl CHR ''U''" "\<not> (c = Ctl CHR ''H'' \<or> c = 0x7f)" by blast
  then show ?thesis
  proof cases
    case p
    have "cons_view (tty t) = cons_view (tty s)"
      using keepsD(1) [OF keeps_cons(3), of s "()" t] body p by simp
    from cons_view_eq [OF this] ok1 show ?thesis by (simp add: edit_key_def p)
  next
    case u
    with body have "cons_kill_line (unat (cons_e (tty s) - cons_w (tty s))) s = Ok () t" by simp
    from cons_kill_line_keeps [OF this refl ok1] show ?thesis using u by (simp add: edit_key_def)
  next
    case h
    show ?thesis
    proof (cases "cons_e (tty s) = cons_w (tty s)")
      case True
      then have "t = s" "cons_edit (tty s) = []" using body h by (auto simp: run_simps cons_edit_def)
      then show ?thesis using ok1 h by (simp add: edit_key_def)
    next
      case False
      let ?u = "(tty s)\<lparr>cons_e := cons_e (tty s) - 1\<rparr>"
      have "consputc BACKSPACE (s\<lparr>tty := ?u\<rparr>) = Ok () t" using body h False by (auto simp: run_simps)
      from keepsD(1) [OF keeps_cons(1) this] have "cons_view (tty t) = cons_view ?u" by simp
      from cons_view_eq [OF this] cons_unput [OF ok1 False] show ?thesis using h by (simp add: edit_key_def)
    qed
  next
    case k
    let ?b = "if c = 13 then 10 else c"
    show ?thesis
    proof (cases "c \<noteq> 0 \<and> unat (cons_e (tty s) - cons_r (tty s)) < INPUT_BUF_SIZE")
      case True
      then have "cons_store ?b s = Ok () t" using body k by (simp add: run_simps)
      from cons_store_run [OF this ok1] show ?thesis using True k len assms(3,4) by (simp add: edit_key_def Let_def)
    next
      case False
      then have "t = s" using body k by (auto simp: run_simps split: if_splits)
      moreover have "c = 0 \<or> INPUT_BUF_SIZE \<le> unat (cons_e (tty s) - cons_r (tty s))" using False by auto
      ultimately show ?thesis using ok1 k len by (simp add: edit_key_def)
    qed
  qed
qed

text \<open>C32. A refinement of the line discipline: whatever the byte typed, and however the counters of the input buffer wrap, a return
  of \<^verbatim>\<open>consoleintr\<close> leaves the bytes that are ready for a reader and the line under edit as \<open>edit_key\<close>
  says: control-P changes nothing, control-U drops the line, backspace its last byte, an
  ordinary byte is appended when there is room, and a newline, a control-D or a full buffer hands
  the line over.  The buffer never holds more than its 128 bytes and no newline stays in the line
  under edit.\<close>

theorem console_line_discipline:
  assumes "consoleintr c s = Ok () t" "cons_ok (tty s)" "0 \<le> c" "c < 256"
  shows "cons_ok (tty t) \<and>
    (cons_ready (tty t), cons_edit (tty t)) = edit_key c (cons_ready (tty s), cons_edit (tty s))"
proof -
  obtain s1 s2 where s1: "acquire L_cons s = Ok () s1" and s2: "release L_cons s2 = Ok () t" and
    key: "cons_key c s1 = Ok () s2"
    using assms(1) unfolding consoleintr_def by (auto simp: block_def seqK.simps bind_def obind_Ok_iff skip_def ret_def)
  have "cons_view (tty s1) = cons_view (tty s)" "cons_view (tty t) = cons_view (tty s2)"
    using keepsD(1) [OF keeps_cons(4) s1] keepsD(1) [OF keeps_cons(5) s2] by simp_all
  from this [THEN cons_view_eq(1)] this [THEN cons_view_eq(2)] this [THEN cons_view_eq(3)]
  show ?thesis using cons_key_run [OF key] assms(2-) by simp
qed

section \<open>A concrete terminal\<close>

text \<open>A line with one byte is under edit; the transmit buffer is empty, its counters are about to wrap,
  and the device is idle.\<close>

definition demo_tty :: ttyst where
  "demo_tty = logst.extend demo_log \<lparr>tty = \<lparr>uart_in = \<lambda>r. if r = LSR then [32, 32] else [], uart_log = [],
     uart_tx_buf = \<lambda>_. 0, uart_tx_w = - 1, uart_tx_r = - 1, panicked = 0, pr_locking = 1,
     cons_buf = \<lambda>_. 97, cons_r = 0, cons_w = 0, cons_e = 1, devsws = \<lambda>_. \<lparr>dev_read = None, dev_write = None\<rparr>\<rparr>\<rparr>"

lemma logst_extend_base [simp]:
  "cpuid (logst.extend s x) = cpuid s" "mycpu (logst.extend s x) = mycpu s" "locks (logst.extend s x) = locks s"
  "unlocked l (logst.extend s x) = unlocked l s" "procs (logst.extend s x) = procs s" "slocks (logst.extend s x) = slocks s"
  "bufs (logst.extend s x) = bufs s" "medium (logst.extend s x) = medium s" "power (logst.extend s x) = power s"
  "vdisk_ready (logst.extend s x) = vdisk_ready s" "quiet p (logst.extend s x) = quiet p s" "log (logst.extend s x) = log s"
  by (simp_all add: logst.extend_def cpuid_def r_tp_def mycpu_def unlocked_def vdisk_ready_def quiet_def)

lemma demo_tty_ok:
  "quiet 0 demo_tty" "panicked (tty demo_tty) = 0" "uart_pending (tty demo_tty) = []"
  "cons_ok (tty demo_tty)" "cons_ready (tty demo_tty) = []" "cons_edit (tty demo_tty) = [97]"
proof -
  show "quiet 0 demo_tty" using demo_log_sel(6) by (simp add: demo_tty_def)
qed (simp_all add: demo_tty_def logst.extend_def uart_pending_def cons_ok_def cons_ready_def cons_edit_def ring_def)

lemma demo_tty_io: "uart_in (tty demo_tty) LSR = [32, 32]" "panicked (tty demo_tty) = 0" "(32 :: u8) AND LSR_TX_IDLE = 32"
  "cons_r (tty demo_tty) = 0" "cons_e (tty demo_tty) = 1"
  by (simp_all add: demo_tty_def logst.extend_def LSR_TX_IDLE_def)


lemma uartputc_sync_run:
  assumes "intr_sane s" "c_noff (mycpu s) \<noteq> 0" "panicked (tty s) = 0" "uart_in (tty s) LSR = v # vs" "v AND LSR_TX_IDLE \<noteq> 0"
  shows "uartputc_sync c s = Ok () (s\<lparr>tty := (tty s)\<lparr>uart_in := (uart_in (tty s))(LSR := vs), uart_log := uart_log (tty s) @ [(THR, c)]\<rparr>\<rparr>)"
proof -
  have fr: "tty (pushed s) = tty s" "popped (tty_update g t) = tty_update g (popped t)" for g and t :: "'a ttyst_scheme"
    by (simp_all add: pushed_def popped_def)
  have "popped (pushed s) = s" using assms(1,2) by (simp add: popped_pushed upd_mycpu_id)
  then show ?thesis using assms by (simp add: uartputc_sync_def run_simps ReadReg_def WriteReg_def fr intr_sane_def)
qed

theorem console_line_discipline_witness:
  "\<exists>t. consoleintr 120 demo_tty = Ok () t \<and> cons_ready (tty t) = [] \<and> cons_edit (tty t) = [97, 120]"
proof -
  have "\<exists>t. consoleintr 120 demo_tty = Ok () t"
    using quietD [OF demo_tty_ok(1)]
    by (simp add: consoleintr_def cons_key_def cons_store_def consputc_def run_simps Ctl_def BACKSPACE_def
        uartputc_sync_run [where v = 32 and vs = "[32]"] demo_tty_io)
  then obtain t where t: "consoleintr 120 demo_tty = Ok () t" by blast
  from console_line_discipline [OF t] demo_tty_ok show ?thesis
    by (auto simp: t edit_key_def Ctl_def)
qed

end
