(* ===== verification/Xv6_Grep.thy ===== *)
theory Xv6_Grep
  imports Xv6_Ulib
begin

text \<open>
  \<^verbatim>\<open>user/grep.c\<close>: the regular expression matcher and the loop that reads a file and prints
  the lines that match.

  A pattern and a text are lists of bytes; \<open>at0\<close> reads the byte a \<^verbatim>\<open>char *\<close> points to and finds
  the terminating NUL at the end of the list.  Of the buffer, the model keeps the bytes the loop
  has not dealt with yet, which the code moves to the front and ends with a NUL.

  Shown: the matcher decides the language of the pattern as the usual semantics of regular
  expressions defines it, and \<^verbatim>\<open>grep\<close> prints the lines that match, in order and whole, however
  the kernel cuts the file into pieces.
\<close>

section \<open>The matcher\<close>

definition at0 :: "u8 list \<Rightarrow> u8" where
  "at0 s = (case s of [] \<Rightarrow> 0 | c # _ \<Rightarrow> c)"

abbreviation STAR :: u8 where "STAR \<equiv> of_char CHR ''*''"
abbreviation DOT :: u8 where "DOT \<equiv> of_char CHR ''.''"
abbreviation DOLLAR :: u8 where "DOLLAR \<equiv> of_char CHR ''$''"
abbreviation CARET :: u8 where "CARET \<equiv> of_char CHR ''^''"
abbreviation NEWLINE :: u8 where "NEWLINE \<equiv> 10"

function matchhere :: "u8 list \<Rightarrow> u8 list \<Rightarrow> bool" and matchstar :: "u8 \<Rightarrow> u8 list \<Rightarrow> u8 list \<Rightarrow> bool" where
  "matchhere re text =
     (if at0 re = 0 then True
      else if at0 (tl re) = STAR then matchstar (at0 re) (drop 2 re) text
      else if at0 re = DOLLAR \<and> at0 (tl re) = 0 then at0 text = 0
      else if at0 text \<noteq> 0 \<and> (at0 re = DOT \<or> at0 re = at0 text) then matchhere (tl re) (tl text)
      else False)"
| "matchstar c re text =
     (if matchhere re text then True
      else if at0 text \<noteq> 0 \<and> (at0 text = c \<or> c = DOT) then matchstar c re (tl text)
      else False)"
  by pat_completeness auto
termination
proof (relation "inv_image (less_than <*lex*> less_than <*lex*> less_than)
    (\<lambda>x. case x of Inl (re, text) \<Rightarrow> (length re, length text, 0 :: nat)
          | Inr (c, re, text) \<Rightarrow> (length re, length text, 1))")
qed (auto simp: at0_def split: list.splits)

fun match_loop :: "u8 list \<Rightarrow> u8 list \<Rightarrow> bool" where
  "match_loop re [] = matchhere re []"
| "match_loop re (c # text) =
     (if matchhere re (c # text) then True else if c \<noteq> 0 then match_loop re text else False)"

definition match :: "u8 list \<Rightarrow> u8 list \<Rightarrow> bool" where
  "match re text = (if at0 re = CARET then matchhere (tl re) text else match_loop re text)"

section \<open>Reading a file\<close>

definition BUFSZ :: nat where "BUFSZ = 1024"

text \<open>The inner loop: \<open>p\<close> is what is left of the buffer.\<close>

function grep_lines :: "u8 list \<Rightarrow> u8 list \<Rightarrow> ('w, u8 list) uprog" where
  "grep_lines pattern p =
     (case the (strchr_u (cstring p) NEWLINE 0) of
        None \<Rightarrow> ret p
      | Some q \<Rightarrow>
          bind (whenK (match pattern (take q p)) (bind (write_u 1 (take (Suc q) p)) (\<lambda>_. skip)))
            (\<lambda>_. grep_lines pattern (drop (Suc q) p)))"
  by auto
termination
proof (relation "measure (\<lambda>(re, p). length p)")
  fix pattern p q
  assume "the (strchr_u (cstring p) NEWLINE 0) = Some q"
  with strchr_u_bound [of 0 p NEWLINE] show "((pattern, drop (Suc q) p), pattern, p) \<in> measure (\<lambda>(re, p). length p)"
    by auto
qed simp

fun grep_loop :: "nat \<Rightarrow> u8 list \<Rightarrow> int \<Rightarrow> u8 list \<Rightarrow> ('w, unit) uprog" where
  "grep_loop 0 pattern fd buf = (\<lambda>_. Hang)"
| "grep_loop (Suc k) pattern fd buf = bind (read_u fd (BUFSZ - length buf - 1)) (\<lambda>r.
     case r of None \<Rightarrow> skip | Some [] \<Rightarrow> skip
     | Some bs \<Rightarrow> bind (grep_lines pattern (buf @ bs)) (\<lambda>p. grep_loop k pattern fd p))"

definition grep :: "u8 list \<Rightarrow> int \<Rightarrow> ('w, unit) uprog" where
  "grep pattern fd w = grep_loop (Suc (feed w fd)) pattern fd [] w"

fun grep_files :: "u8 list \<Rightarrow> u8 list list \<Rightarrow> ('w, unit) uprog" where
  "grep_files pattern [] = exit_u 0"
| "grep_files pattern (f # fs) = bind (usysv (UOpen f 0)) (\<lambda>fd.
     if fd < 0 then bind (printf_u ''grep: cannot open %s\<newline>'' [VStr (Some f)]) (\<lambda>_. exit_u 1)
     else seqK [grep pattern fd, bind (usysv (UClose fd)) (\<lambda>_. skip)] (grep_files pattern fs))"

definition grep_main :: "u8 list list \<Rightarrow> ('w, unit) uprog" where
  "grep_main argv =
     (case argv of _ # pattern # files \<Rightarrow>
        if files = [] then seqK [grep pattern 0] (exit_u 0) else grep_files pattern files
      | _ \<Rightarrow> bind (fprintf_u 2 ''usage: grep pattern [file ...]\<newline>'' []) (\<lambda>_. exit_u 1))"

declare matchhere.simps [simp del] matchstar.simps [simp del] grep_lines.simps [simp del]

section \<open>What a pattern means\<close>

text \<open>A pattern is a sequence of items, each a single byte or the dot, one of these with a star, or
  the anchor \<^verbatim>\<open>$\<close> at the end.  \<open>denotes its u v\<close>: the items match \<open>u\<close> where \<open>v\<close> follows it.\<close>

datatype item = One u8 | Many u8 | AtEnd

fun items :: "u8 list \<Rightarrow> item list" where
  "items [] = []"
| "items [c] = (if c = DOLLAR then [AtEnd] else [One c])"
| "items (c # d # re) = (if d = STAR then Many c # items re else One c # items (d # re))"

definition admits :: "u8 \<Rightarrow> u8 \<Rightarrow> bool" where
  "admits c b \<longleftrightarrow> c = DOT \<or> c = b"

fun denotes :: "item list \<Rightarrow> u8 list \<Rightarrow> u8 list \<Rightarrow> bool" where
  "denotes [] u v \<longleftrightarrow> u = []"
| "denotes (One c # its) u v \<longleftrightarrow> (\<exists>b w. u = b # w \<and> admits c b \<and> denotes its w v)"
| "denotes (Many c # its) u v \<longleftrightarrow> (\<exists>x w. u = x @ w \<and> list_all (admits c) x \<and> denotes its w v)"
| "denotes (AtEnd # its) u v \<longleftrightarrow> u = [] \<and> v = [] \<and> denotes its [] []"

definition found_at :: "item list \<Rightarrow> u8 list \<Rightarrow> bool" where
  "found_at its text \<longleftrightarrow> (\<exists>u v. text = u @ v \<and> denotes its u v)"

lemma at0_simps [simp]: "at0 [] = 0" "at0 (c # cs) = c"
  by (simp_all add: at0_def)

lemma found_at_Nil: "found_at [] text"
  by (simp add: found_at_def)

lemma found_atI: "denotes its u v \<Longrightarrow> found_at its (u @ v)"
  by (auto simp: found_at_def)

lemma found_atE:
  assumes "found_at its text"
  obtains u v where "text = u @ v" "denotes its u v"
  using assms by (auto simp: found_at_def)

lemma found_at_One: "found_at (One c # its) text \<longleftrightarrow> (\<exists>b t. text = b # t \<and> admits c b \<and> found_at its t)"
proof
  assume "found_at (One c # its) text"
  then obtain b w v where "text = b # (w @ v)" "admits c b" "denotes its w v"
    by (auto elim!: found_atE)
  then show "\<exists>b t. text = b # t \<and> admits c b \<and> found_at its t" by (blast intro: found_atI)
next
  assume "\<exists>b t. text = b # t \<and> admits c b \<and> found_at its t"
  then obtain b w v where "text = (b # w) @ v" "denotes (One c # its) (b # w) v"
    by (auto elim!: found_atE)
  then show "found_at (One c # its) text" by (simp only: found_atI)
qed

lemma found_at_Many:
  "found_at (Many c # its) text \<longleftrightarrow>
   found_at its text \<or> (\<exists>b t. text = b # t \<and> admits c b \<and> found_at (Many c # its) t)"
proof
  assume "found_at (Many c # its) text"
  then obtain x w v where t: "text = x @ w @ v" "list_all (admits c) x" "denotes its w v"
    by (auto elim!: found_atE)
  show "found_at its text \<or> (\<exists>b t. text = b # t \<and> admits c b \<and> found_at (Many c # its) t)"
  proof (cases x)
    case Nil
    with t show ?thesis by (auto intro: found_atI)
  next
    case (Cons b y)
    with t have "denotes (Many c # its) (y @ w) v" "text = b # (y @ w) @ v" "admits c b" by auto
    then show ?thesis by (blast intro: found_atI)
  qed
next
  assume "found_at its text \<or> (\<exists>b t. text = b # t \<and> admits c b \<and> found_at (Many c # its) t)"
  then obtain x w v where "text = (x @ w) @ v" "list_all (admits c) x" "denotes its w v"
  proof
    assume "found_at its text"
    then show ?thesis by (auto elim!: found_atE intro: that [of "[]"])
  next
    assume "\<exists>b t. text = b # t \<and> admits c b \<and> found_at (Many c # its) t"
    then obtain b y w v where "text = ((b # y) @ w) @ v" "list_all (admits c) (b # y)" "denotes its w v"
      by (auto elim!: found_atE)
    then show ?thesis by (rule that)
  qed
  then have "text = (x @ w) @ v" "denotes (Many c # its) (x @ w) v" by auto
  then show "found_at (Many c # its) text" by (simp only: found_atI)
qed

lemma found_at_AtEnd: "found_at [AtEnd] text \<longleftrightarrow> text = []"
  by (auto simp: found_at_def)

lemma matchhere_items:
  "0 \<notin> set re \<Longrightarrow> 0 \<notin> set text \<Longrightarrow> matchhere re text \<longleftrightarrow> found_at (items re) text"
  "0 \<notin> set re \<Longrightarrow> 0 \<notin> set text \<Longrightarrow> matchstar c re text \<longleftrightarrow> found_at (Many c # items re) text"
proof (induction re "text" and c re "text" rule: matchhere_matchstar.induct)
  case (1 re t)
  show ?case
  proof (cases re rule: items.cases)
    case 1
    then show ?thesis by (simp add: matchhere.simps found_at_Nil)
  next
    case (2 c)
    with 1 show ?thesis
      by (cases t) (auto simp: matchhere.simps [of "[_]"] found_at_One admits_def found_at_Nil found_at_AtEnd)
  next
    case (3 c d re')
    with 1 show ?thesis
      by (cases t) (auto simp: matchhere.simps [of "_ # _ # _"] found_at_One admits_def)
  qed
next
  case (2 c re t)
  then show ?case
    unfolding matchstar.simps [of c re t] found_at_Many [of c "items re" t]
    by (cases t) (auto simp: admits_def)
qed

lemma match_loop_iff:
  "0 \<notin> set text \<Longrightarrow> match_loop re text \<longleftrightarrow> (\<exists>before rest. text = before @ rest \<and> matchhere re rest)"
proof (induction "text")
  case (Cons c t)
  have "(\<exists>before rest. c # t = before @ rest \<and> matchhere re rest) \<longleftrightarrow>
      matchhere re (c # t) \<or> (\<exists>before rest. t = before @ rest \<and> matchhere re rest)"
    by (auto simp: Cons_eq_append_conv)
  with Cons show ?case by auto
qed auto

section \<open>Lines\<close>

text \<open>\<open>cut_lines cur s\<close>: the lines that end in \<open>s\<close>, where \<open>cur\<close> is the start of the first, and what
  is left after the last newline.\<close>

fun cut_lines :: "u8 list \<Rightarrow> u8 list \<Rightarrow> u8 list list \<times> u8 list" where
  "cut_lines cur [] = ([], cur)"
| "cut_lines cur (c # s) =
     (if c = NEWLINE then (let (ls, t) = cut_lines [] s in (cur # ls, t)) else cut_lines (cur @ [c]) s)"

lemma cut_lines_plain: "NEWLINE \<notin> set x \<Longrightarrow> cut_lines cur (x @ s) = cut_lines (cur @ x) s"
  by (induction x arbitrary: cur) auto

lemma cut_lines_append:
  "cut_lines cur (xs @ ys) = (let (ls, t) = cut_lines cur xs; (ms, u) = cut_lines t ys in (ls @ ms, u))"
  by (induction cur xs rule: cut_lines.induct) (auto simp: Let_def split: prod.splits)

lemma cut_lines_rest:
  "NEWLINE \<notin> set cur \<Longrightarrow> cut_lines cur s = (ls, t) \<Longrightarrow> NEWLINE \<notin> set t"
  by (induction cur s arbitrary: ls t rule: cut_lines.induct) (auto simp: Let_def split: if_splits prod.splits)

lemma cut_lines_start:
  assumes "cut_lines cur s = (ls, t)" "\<forall>l \<in> set (t # ls). length l < n"
  shows "length cur < n"
  using assms
proof (induction cur s arbitrary: ls t rule: cut_lines.induct)
  case (2 cur c s)
  show ?case
  proof (cases "c = NEWLINE")
    case True
    with "2.prems" show ?thesis by (auto split: prod.splits)
  next
    case False
    with 2 have "length (cur @ [c]) < n" by auto
    then show ?thesis by simp
  qed
qed simp

lemma cut_lines_set: "cut_lines cur s = (ls, t) \<Longrightarrow> set t \<subseteq> set cur \<union> set s"
  by (induction cur s arbitrary: ls t rule: cut_lines.induct) (fastforce simp: Let_def split: if_splits prod.splits)+

text \<open>The lines of a match, as \<^verbatim>\<open>grep\<close> writes them.\<close>

definition hits :: "u8 list \<Rightarrow> u8 list list \<Rightarrow> u8 list list" where
  "hits pattern ls = map (\<lambda>l. l @ [NEWLINE]) (filter (match pattern) ls)"

lemma hits_simps [simp]:
  "hits pattern [] = []" "hits pattern (ls @ ms) = hits pattern ls @ hits pattern ms"
  "hits pattern (l # ls) = (if match pattern l then [l @ [NEWLINE]] else []) @ hits pattern ls"
  by (simp_all add: hits_def)

lemma grep_lines_run:
  assumes "0 \<notin> set p" "cut_lines [] p = (ls, t)" "length (hits pattern ls) \<le> length (replies w (KWrite 1))"
  shows "grep_lines pattern p w = Ok t (wrote 1 (hits pattern ls) w)"
  using assms
proof (induction pattern p arbitrary: ls w rule: grep_lines.induct)
  case (1 pattern p)
  note strchr = strchr_u_from [OF "1.prems"(1), of 0 NEWLINE, simplified]
  show ?case
  proof (cases "NEWLINE \<in> set p")
    case False
    then have "cut_lines [] p = ([], p)" using cut_lines_plain [of p "[]" "[]"] by simp
    with "1.prems"(2) have "ls = []" and t: "t = p" by simp_all
    with False show ?thesis unfolding t
      by (subst grep_lines.simps) (simp add: strchr run_simps)
  next
    case True
    then obtain x y where p: "p = x @ NEWLINE # y" and x: "NEWLINE \<notin> set x"
      using split_list_first [of NEWLINE p] by blast
    from x have "takeWhile (\<lambda>b. b \<noteq> NEWLINE) (x @ NEWLINE # y) = x" by (subst takeWhile_append2) auto
    then have found: "the (strchr_u (cstring p) NEWLINE 0) = Some (length x)"
      by (subst strchr) (simp add: p)
    from p have y: "drop (Suc (length x)) p = y" and take: "take (length x) p = x"
      "take (Suc (length x)) p = x @ [NEWLINE]" by simp_all
    obtain ms where ms: "cut_lines [] (drop (Suc (length x)) p) = (ms, t)" "ls = x # ms"
      using "1.prems"(2) cut_lines_plain [OF x, of "[]" "NEWLINE # y"] unfolding y
      by (auto simp: p split: prod.splits)
    have rest: "0 \<notin> set (drop (Suc (length x)) p)" using "1.prems"(1) by (meson in_set_dropD)
    show ?thesis
    proof (cases "match pattern x")
      case True
      with "1.prems"(3) ms(2) have "replies w (KWrite 1) \<noteq> []" by auto
      from write_u_run [OF this] obtain r where "write_u 1 (x @ [NEWLINE]) w = Ok r (wrote 1 [x @ [NEWLINE]] w)" by blast
      with True ms "1.IH" [OF found rest ms(1), of "wrote 1 [x @ [NEWLINE]] w"] "1.prems"(3) show ?thesis
        by (subst grep_lines.simps) (simp add: found take run_simps)
    next
      case False
      with ms "1.IH" [OF found rest ms(1), of w] "1.prems"(3) show ?thesis
        by (subst grep_lines.simps) (simp add: found take run_simps)
    qed
  qed
qed

lemma grep_loop_run:
  assumes "ends (replies w (KRead fd))" "feed w fd < k" "0 \<notin> set buf" "NEWLINE \<notin> set buf"
    and "0 \<notin> set (incoming (replies w (KRead fd)))"
    and "cut_lines buf (incoming (replies w (KRead fd))) = (ls, t)" "\<forall>l \<in> set (t # ls). length l < BUFSZ - 1"
    and "length (hits pattern ls) \<le> length (replies w (KWrite 1))"
  shows "\<exists>w'. grep_loop k pattern fd buf w = Ok () w' \<and>
     written 1 (calls w') = written 1 (calls w) @ hits pattern ls"
  using assms
proof (induction k arbitrary: buf w ls)
  case (Suc k)
  let ?n = "BUFSZ - length buf - 1"
  have n: "0 < ?n" using cut_lines_start [OF Suc.prems(6,7)] by simp
  show ?case
  proof (cases "incoming (replies w (KRead fd)) = []")
    case True
    from read_u_end [OF Suc.prems(1) True, of ?n] Suc.prems(6) True show ?thesis
      by (auto simp: run_simps)
  next
    case False
    from read_u_some [OF Suc.prems(1) False n] obtain bs rs where
      r: "read_u fd ?n w = Ok (Some bs) (took fd ?n rs w)" "bs \<noteq> []" "ends rs"
        "incoming (replies w (KRead fd)) = bs @ incoming rs" "feed (took fd ?n rs w) fd < feed w fd" by blast
    obtain ls1 p where c1: "cut_lines buf bs = (ls1, p)" by fastforce
    obtain ls2 where c2: "cut_lines p (incoming rs) = (ls2, t)" and ls: "ls = ls1 @ ls2"
      using Suc.prems(6) unfolding r(4) cut_lines_append c1 by (auto split: prod.splits)
    have cut: "cut_lines [] (buf @ bs) = (ls1, p)" using cut_lines_plain [OF Suc.prems(4), of "[]" bs] c1 by simp
    let ?w = "wrote 1 (hits pattern ls1) (took fd ?n rs w)"
    have "grep_lines pattern (buf @ bs) (took fd ?n rs w) = Ok p ?w"
      using Suc.prems r(4) ls cut by (intro grep_lines_run) auto
    moreover have "\<exists>w'. grep_loop k pattern fd p ?w = Ok () w' \<and> written 1 (calls w') = written 1 (calls ?w) @ hits pattern ls2"
      using Suc.prems r(3,4,5) ls c2 cut_lines_set [OF c1] cut_lines_rest [OF Suc.prems(4) c1]
      by (intro Suc.IH) (auto simp: feed_def)
    ultimately show ?thesis using r(1,2) ls
      by (cases bs) (auto simp: run_simps)
  qed
qed simp

section \<open>Properties\<close>

text \<open>C26. The matcher of \<^verbatim>\<open>grep\<close> decides the language of the pattern: a text matches when the items
  of the pattern (bytes, dots, stars, \<^verbatim>\<open>$\<close>) match at its start, for a pattern with \<^verbatim>\<open>^\<close>, or at
  some position in it.\<close>

theorem grep_match_language:
  assumes "0 \<notin> set re" "0 \<notin> set text"
  shows "match re text \<longleftrightarrow>
    (if at0 re = CARET then found_at (items (tl re)) text
     else \<exists>before rest. text = before @ rest \<and> found_at (items re) rest)"
proof -
  from assms(1) have "0 \<notin> set (tl re)" by (cases re) auto
  moreover have "text = before @ rest \<and> matchhere re rest \<longleftrightarrow> text = before @ rest \<and> found_at (items re) rest"
    for before rest using matchhere_items(1) [OF assms(1), of rest] assms(2) by auto
  ultimately show ?thesis using assms
    by (simp add: match_def match_loop_iff matchhere_items(1))
qed

theorem grep_match_language_witness:
  "match (lit ''a*b$'') (lit ''xaab'') \<and> \<not> match (lit ''^a*b$'') (lit ''xaab'') \<and>
   (\<exists>before rest. lit ''xaab'' = before @ rest \<and> found_at [Many 97, One 98, AtEnd] rest)"
proof -
  have "match (lit ''a*b$'') (lit ''xaab'')" "\<not> match (lit ''^a*b$'') (lit ''xaab'')" by code_simp+
  moreover have "items (lit ''a*b$'') = [Many 97, One 98, AtEnd]" by (simp add: lit_def)
  ultimately show ?thesis using grep_match_language [of "lit ''a*b$''" "lit ''xaab''"]
    by (simp add: lit_def)
qed


definition demo_input :: uworld where
  "demo_input = \<lparr>replies = (\<lambda>k. if k = KRead 3
       then [\<lparr>r_val = 4, r_data = lit ''on''\<rparr>, \<lparr>r_val = 4, r_data = [101, 10] @ lit ''tw''\<rparr>, \<lparr>r_val = 0, r_data = []\<rparr>]
       else [\<lparr>r_val = 4, r_data = []\<rparr>]),
     calls = []\<rparr>"


end
