(* ===== verification/Xv6_Sh.thy ===== *)
theory Xv6_Sh
  imports Xv6_Ulib
begin

text \<open>
  The shell, \<^verbatim>\<open>user/sh.c\<close>: the parser of command lines, the strings it makes of the words, and
  the calls that run a command.

  The line is a list of bytes \<open>b\<close> without NULs and a \<^verbatim>\<open>char *\<close> into it is an index; \<open>cstring b\<close> is the
  buffer, and \<^verbatim>\<open>es\<close> is \<open>length b\<close>.  A parsed command is a tree whose words are pairs of such
  indices.  \<^verbatim>\<open>struct execcmd\<close> has its arrays \<^verbatim>\<open>argv\<close> and \<^verbatim>\<open>eargv\<close> as one array of pairs, with \<open>None\<close>
  for the null pointer; the code sets both together.  The allocations of the constructors are
  taken to succeed, as the code does.  The parser is a function to \<open>parse\<close>: a command with the
  position reached, or the message it panics with.  Its recursion is bounded by fuel, of which
  \<^verbatim>\<open>parsecmd\<close> gives as much as the length of the line needs.

  Shown: the parser always ends, with a command whose arrays are null-terminated inside their
  bounds or with a panic, and the strings that \<^verbatim>\<open>nulterminate\<close> leaves are the words of the line.
\<close>

section \<open>Commands\<close>

definition O_RDONLY :: u32 where "O_RDONLY = 0x000"
definition O_WRONLY :: u32 where "O_WRONLY = 0x001"
definition O_RDWR :: u32 where "O_RDWR = 0x002"
definition O_CREATE :: u32 where "O_CREATE = 0x200"
definition O_TRUNC :: u32 where "O_TRUNC = 0x400"


definition MAXARGS :: nat where [simp]: "MAXARGS = 10"

datatype cmd =
    NULLCMD
  | EXEC "(nat \<times> nat) option list"
  | REDIR cmd nat nat u32 int
  | PIPE cmd cmd
  | LIST cmd cmd
  | BACK cmd

definition execcmd :: cmd where
  "execcmd = EXEC (replicate MAXARGS None)"

definition redircmd :: "cmd \<Rightarrow> nat \<Rightarrow> nat \<Rightarrow> u32 \<Rightarrow> int \<Rightarrow> cmd" where
  "redircmd subcmd file efile mode fd = REDIR subcmd file efile mode fd"

definition pipecmd :: "cmd \<Rightarrow> cmd \<Rightarrow> cmd" where
  "pipecmd left right = PIPE left right"

definition listcmd :: "cmd \<Rightarrow> cmd \<Rightarrow> cmd" where
  "listcmd left right = LIST left right"

definition backcmd :: "cmd \<Rightarrow> cmd" where
  "backcmd subcmd = BACK subcmd"

section \<open>Tokens\<close>

definition whitespace :: "u8 list" where
  "whitespace = [32, 9, 13, 10, 11]"

definition symbols :: "u8 list" where
  "symbols = lit ''<|>&;()''"

text \<open>\<^verbatim>\<open>strchr(s, c)\<close> as a condition.\<close>

definition chr_in :: "u8 list \<Rightarrow> u8 \<Rightarrow> bool" where
  "chr_in s c \<longleftrightarrow> the (strchr_u (cstring s) c 0) \<noteq> None"

text \<open>The loops that skip white space and the bytes of a word.\<close>

function skip_ws :: "u8 list \<Rightarrow> nat \<Rightarrow> nat" where
  "skip_ws b s = (if s < length b \<and> chr_in whitespace (cstring b s) then skip_ws b (Suc s) else s)"
  by auto
termination by (relation "measure (\<lambda>(b, s). length b - s)") auto

function skip_word :: "u8 list \<Rightarrow> nat \<Rightarrow> nat" where
  "skip_word b s =
     (if s < length b \<and> \<not> chr_in whitespace (cstring b s) \<and> \<not> chr_in symbols (cstring b s)
      then skip_word b (Suc s) else s)"
  by auto
termination by (relation "measure (\<lambda>(b, s). length b - s)") auto

text \<open>\<^verbatim>\<open>gettoken\<close> returns the kind of the token, its start \<^verbatim>\<open>q\<close>, its end \<^verbatim>\<open>eq\<close> and the position after it.\<close>

abbreviation chr :: "char \<Rightarrow> u8" where "chr \<equiv> of_char"

definition gettoken :: "u8 list \<Rightarrow> nat \<Rightarrow> u8 \<times> nat \<times> nat \<times> nat" where
  "gettoken b s =
     (let q = skip_ws b s; c = cstring b q;
          (t, eq) =
            (if c = 0 then (c, q)
             else if c \<in> {chr CHR ''|'', chr CHR ''('', chr CHR '')'', chr CHR '';'', chr CHR ''&'', chr CHR ''<''}
             then (c, q + 1)
             else if c = chr CHR ''>'' then
               if cstring b (q + 1) = chr CHR ''>'' then (chr CHR ''+'', q + 2) else (c, q + 1)
             else (chr CHR ''a'', skip_word b q))
      in (t, q, eq, skip_ws b eq))"

text \<open>\<^verbatim>\<open>peek\<close> moves past white space and returns whether one of the given characters is next.\<close>

definition peek :: "u8 list \<Rightarrow> nat \<Rightarrow> string \<Rightarrow> bool \<times> nat" where
  "peek b s toks = (let s = skip_ws b s in (cstring b s \<noteq> 0 \<and> chr_in (lit toks) (cstring b s), s))"

declare skip_ws.simps [simp del] skip_word.simps [simp del]

lemma strchr_u_found:
  assumes "i \<le> length bs"
  shows "\<exists>r. strchr_u (cstring bs) c i = Some r \<and> (r \<noteq> None \<longleftrightarrow> c \<in> set (takeWhile (\<lambda>b. b \<noteq> 0) (drop i bs)))"
  using assms
proof (induction "length bs - i" arbitrary: i)
  case 0
  then show ?case by (subst strchr_u.simps) (simp add: cstring_def)
next
  case (Suc k)
  then have i: "i < length bs" "k = length bs - Suc i" "Suc i \<le> length bs" by simp_all
  then have d: "drop i bs = bs ! i # drop (Suc i) bs" by (simp add: Cons_nth_drop_Suc)
  from i have "cstring bs i = bs ! i" by (simp add: cstring_def)
  with Suc.hyps(1) [OF i(2,3)] show ?case by (subst strchr_u.simps) (auto simp: d)
qed

lemma chr_in_code [code]: "chr_in s c \<longleftrightarrow> c \<in> set (takeWhile (\<lambda>b. b \<noteq> 0) s)"
  using strchr_u_found [of 0 s c] by (auto simp: chr_in_def)

lemma chr_in_iff: "0 \<notin> set s \<Longrightarrow> chr_in s c \<longleftrightarrow> c \<in> set s"
proof -
  assume "0 \<notin> set s"
  then have "takeWhile (\<lambda>b. b \<noteq> 0) s = s" by (subst takeWhile_eq_all_conv) auto
  then show "chr_in s c \<longleftrightarrow> c \<in> set s" by (simp only: chr_in_code)
qed

lemma skip_ws_bounds: "s \<le> skip_ws b s" "s \<le> length b \<Longrightarrow> skip_ws b s \<le> length b"
  by (induction b s rule: skip_ws.induct; subst skip_ws.simps; auto)+

lemma skip_word_bounds: "s \<le> skip_word b s" "s \<le> length b \<Longrightarrow> skip_word b s \<le> length b"
  by (induction b s rule: skip_word.induct; subst skip_word.simps; auto)+

lemma peek_bounds:
  assumes "peek b s toks = (r, s')"
  shows "s \<le> s'" "s \<le> length b \<Longrightarrow> s' \<le> length b" "r \<Longrightarrow> s' < length b"
  using assms skip_ws_bounds [of s b] by (auto simp: peek_def Let_def cstring_def split: if_splits)

text \<open>A word of the line: its bytes are neither NUL nor white space nor symbols, and it does not
  go on.\<close>

definition word_byte :: "u8 \<Rightarrow> bool" where
  "word_byte c \<longleftrightarrow> c \<noteq> 0 \<and> c \<notin> set whitespace \<and> c \<notin> set symbols"

definition word_at :: "u8 list \<Rightarrow> nat \<Rightarrow> nat \<Rightarrow> bool" where
  "word_at b q e \<longleftrightarrow> q < e \<and> e \<le> length b \<and> (\<forall>i. q \<le> i \<and> i < e \<longrightarrow> word_byte (cstring b i)) \<and>
     \<not> word_byte (cstring b e)"

lemma chr_in_sets [simp]:
  "chr_in whitespace c \<longleftrightarrow> c \<in> set whitespace" "chr_in symbols c \<longleftrightarrow> c \<in> set symbols"
  by (simp_all add: chr_in_iff whitespace_def symbols_def lit_def)

lemma skip_ws_stop: "skip_ws b s < length b \<Longrightarrow> cstring b (skip_ws b s) \<notin> set whitespace"
proof (induction b s rule: skip_ws.induct)
  case (1 b s)
  then show ?case
    by (cases "s < length b \<and> chr_in whitespace (cstring b s)") (auto simp: skip_ws.simps [of b s])
qed

lemma skip_word_bytes:
  "0 \<notin> set b \<Longrightarrow> q \<le> i \<Longrightarrow> i < skip_word b q \<Longrightarrow> word_byte (cstring b i)"
proof (induction b q rule: skip_word.induct)
  case (1 b q)
  show ?case
  proof (cases "q < length b \<and> \<not> chr_in whitespace (cstring b q) \<and> \<not> chr_in symbols (cstring b q)")
    case True
    with 1 have "i < skip_word b (Suc q)" by (subst (asm) (2) skip_word.simps) simp
    with 1 True show ?thesis
      by (cases "i = q") (auto simp: word_byte_def cstring_nonzero)
  next
    case False
    with 1 show ?thesis by (subst (asm) (2) skip_word.simps) auto
  qed
qed

lemma skip_word_stop: "\<not> word_byte (cstring b (skip_word b q))"
proof (induction b q rule: skip_word.induct)
  case (1 b q)
  show ?case
  proof (cases "q < length b \<and> \<not> chr_in whitespace (cstring b q) \<and> \<not> chr_in symbols (cstring b q)")
    case True
    with 1 show ?thesis by (subst skip_word.simps) simp
  next
    case False
    then show ?thesis by (subst skip_word.simps) (auto simp: word_byte_def cstring_def)
  qed
qed

lemma gettoken_mono:
  assumes t: "gettoken b s = (t, q, e, s')"
  shows "s \<le> q" "q \<le> e" "e \<le> s'" "t \<noteq> 0 \<Longrightarrow> q < e \<and> q < length b"
proof -
  have q: "q = skip_ws b s" and s': "s' = skip_ws b e"
    using t by (auto simp: gettoken_def Let_def split: prod.splits)
  show "s \<le> q" "e \<le> s'" by (simp_all add: q s' skip_ws_bounds)
  have "q \<le> e \<and> (t \<noteq> 0 \<longrightarrow> q < e \<and> q < length b)"
  proof (cases "cstring b q = 0")
    case True
    then show ?thesis using t by (auto simp: gettoken_def Let_def q [symmetric])
  next
    case nz: False
    then have ql: "q < length b" by (auto simp: cstring_def split: if_splits)
    show ?thesis
    proof (cases "cstring b q \<in> set symbols")
      case True
      with t nz ql show ?thesis
        by (auto simp: gettoken_def Let_def q [symmetric] symbols_def lit_def split: if_splits)
    next
      case False
      with ql have "Suc q \<le> skip_word b q" using skip_word_bounds(1) [of "Suc q" b] skip_ws_stop [of b s]
        by (subst skip_word.simps) (auto simp: q)
      with False t nz ql show ?thesis
        by (auto simp: gettoken_def Let_def q [symmetric] symbols_def lit_def split: if_splits)
    qed
  qed
  then show "q \<le> e" "t \<noteq> 0 \<Longrightarrow> q < e \<and> q < length b" by auto
qed

lemma gettoken_word:
  assumes b: "0 \<notin> set b" and s: "s \<le> length b" and t: "gettoken b s = (t, q, e, s')"
  shows "s' \<le> length b" "t = chr CHR ''a'' \<Longrightarrow> word_at b q e"
proof -
  have q: "q = skip_ws b s" and s': "s' = skip_ws b e"
    using t by (auto simp: gettoken_def Let_def split: prod.splits)
  have ql: "q \<le> length b" using skip_ws_bounds [of s b] s by (auto simp: q)
  have c0: "cstring b q = 0 \<longleftrightarrow> q = length b" using cstring_nonzero [OF b, of q] ql by auto
  have c1: "cstring b (q + 1) = chr CHR ''>'' \<Longrightarrow> q + 2 \<le> length b"
    using cstring_nonzero [OF b, of "q + 1"] by auto
  have e: "e \<le> length b \<and> (t = chr CHR ''a'' \<longrightarrow> word_at b q e)"
  proof (cases "cstring b q = 0 \<or> cstring b q \<in> set symbols")
    case True
    then show ?thesis using t ql c0 c1
      by (auto simp: gettoken_def Let_def q [symmetric] symbols_def lit_def split: if_splits)
  next
    case False
    with t have "e = skip_word b q" "t = chr CHR ''a''"
      by (auto simp: gettoken_def Let_def q [symmetric] symbols_def lit_def split: if_splits)
    with gettoken_mono(4) [OF t] show ?thesis
      using skip_word_bounds(2) [of q b] ql skip_word_bytes [OF b] skip_word_stop [of b q]
      by (auto simp: word_at_def)
  qed
  then show "t = chr CHR ''a'' \<Longrightarrow> word_at b q e" by auto
  show "s' \<le> length b" using e skip_ws_bounds [of e b] by (auto simp: s')
qed

text \<open>A token that has been seen by \<^verbatim>\<open>peek\<close> is there, so \<^verbatim>\<open>gettoken\<close> moves on.\<close>

lemma peek_gettoken:
  assumes "peek b s toks = (True, s1)" "gettoken b s1 = (t, q, e, s2)"
  shows "s < s2" "s < length b"
proof -
  from assms(1) have s1: "s1 = skip_ws b s" and c: "cstring b s1 \<noteq> 0" by (auto simp: peek_def Let_def)
  then have l: "s1 < length b" by (auto simp: cstring_def split: if_splits)
  then have "cstring b s1 \<notin> set whitespace" using skip_ws_stop [of b s] by (simp add: s1)
  then have "skip_ws b s1 = s1" by (subst skip_ws.simps) simp
  with c assms(2) have "t \<noteq> 0" by (auto simp: gettoken_def Let_def split: if_splits)
  with gettoken_mono [OF assms(2)] skip_ws_bounds(1) [of s b] l show "s < s2" "s < length b"
    by (auto simp: s1)
qed

section \<open>The parser\<close>

lemma redir_advance:
  assumes "(True, s1) = peek b s toks" "(t, q, e, s2) = gettoken b s1" "(t', q', e', s3) = gettoken b s2"
  shows "length b - s3 < length b - s"
  using peek_gettoken [OF assms(1,2) [symmetric]] gettoken_mono [OF assms(3) [symmetric]] by simp

datatype 'a parse = Parsed 'a nat | Syntax string | NoFuel

lemma token_advance:
  assumes "(True, s1) = peek b s toks" "(t, q, e, s2) = gettoken b s1"
  shows "length b - s2 < length b - s"
  using peek_gettoken [OF assms [symmetric]] by simp

function parseredirs :: "u8 list \<Rightarrow> cmd \<Rightarrow> nat \<Rightarrow> cmd parse" where
  "parseredirs b cmd s =
     (case peek b s ''<>'' of (r, s1) \<Rightarrow>
      if \<not> r then Parsed cmd s1
      else case gettoken b s1 of (tok, _, _, s2) \<Rightarrow>
        case gettoken b s2 of (t, q, eq, s3) \<Rightarrow>
        if t \<noteq> chr CHR ''a'' then Syntax ''missing file for redirection''
        else parseredirs b
          (if tok = chr CHR ''<'' then redircmd cmd q eq O_RDONLY 0
           else if tok = chr CHR ''>'' then redircmd cmd q eq (O_WRONLY OR O_CREATE OR O_TRUNC) 1
           else if tok = chr CHR ''+'' then redircmd cmd q eq (O_WRONLY OR O_CREATE) 1
           else cmd) s3)"
  by auto
termination by (relation "measure (\<lambda>(b, cmd, s). length b - s)") (auto dest: redir_advance)

declare parseredirs.simps [simp del]

lemma parseredirs_mono: "parseredirs b cmd s = Parsed c s' \<Longrightarrow> s \<le> s'"
proof (induction b cmd s rule: parseredirs.induct)
  case (1 b cmd s)
  obtain r s1 where p: "peek b s ''<>'' = (r, s1)" by fastforce
  obtain tok q1 e1 s2 where t1: "gettoken b s1 = (tok, q1, e1, s2)" using prod_cases4 by blast
  obtain t q e s3 where t2: "gettoken b s2 = (t, q, e, s3)" using prod_cases4 by blast
  show ?case
  proof (cases "r \<and> t = chr CHR ''a''")
    case True
    with "1.prems" p t1 t2 have "s3 \<le> s'"
      by (intro "1.IH" [OF p [symmetric] _ t1 [symmetric] refl refl t2 [symmetric] refl refl])
         (simp_all add: parseredirs.simps [of b cmd s])
    with peek_gettoken(1) [of b s "''<>''" s1 tok q1 e1 s2] gettoken_mono [OF t2] p t1 True show ?thesis by simp
  next
    case False
    with "1.prems" p t1 t2 peek_bounds(1) [OF p] show ?thesis
      by (simp add: parseredirs.simps [of b cmd s] split: if_splits)
  qed
qed

text \<open>In \<^verbatim>\<open>parseexec\<close>, \<^verbatim>\<open>cmd\<close> points to the \<^verbatim>\<open>EXEC\<close> node below the redirections of \<^verbatim>\<open>ret\<close>.\<close>

fun set_arg :: "cmd \<Rightarrow> nat \<Rightarrow> (nat \<times> nat) option \<Rightarrow> cmd" where
  "set_arg (EXEC a) i v = EXEC (a[i := v])"
| "set_arg (REDIR c f e m fd) i v = REDIR (set_arg c i v) f e m fd"
| "set_arg c i v = c"

lemma arg_advance:
  assumes "(r, s1) = peek b s toks" "(97, q, eq, s2) = gettoken b s1" "parseredirs b c s2 = Parsed rt s3"
  shows "length b - s3 < length b - s"
  using peek_bounds(1) [OF assms(1) [symmetric]] gettoken_mono [OF assms(2) [symmetric]]
    parseredirs_mono [OF assms(3)] by auto

function parse_args :: "u8 list \<Rightarrow> nat \<Rightarrow> cmd \<Rightarrow> nat \<Rightarrow> cmd parse" where
  "parse_args b argc rt s =
     (case peek b s ''|)&;'' of (r, s1) \<Rightarrow>
      if r then Parsed (set_arg rt argc None) s1
      else case gettoken b s1 of (tok, q, eq, s2) \<Rightarrow>
        if tok = 0 then Parsed (set_arg rt argc None) s2
        else if tok \<noteq> chr CHR ''a'' then Syntax ''syntax''
        else if MAXARGS \<le> argc + 1 then Syntax ''too many args''
        else case parseredirs b (set_arg rt argc (Some (q, eq))) s2 of
          Parsed rt s3 \<Rightarrow> parse_args b (argc + 1) rt s3
        | Syntax m \<Rightarrow> Syntax m
        | NoFuel \<Rightarrow> NoFuel)"
  by auto
termination
  by (relation "measure (\<lambda>(b, argc, rt, s). length b - s)") (auto dest: arg_advance)

text \<open>\<open>pl\<close> is \<^verbatim>\<open>parseline\<close>, of which \<^verbatim>\<open>parseblock\<close> and through it \<^verbatim>\<open>parseexec\<close> and \<^verbatim>\<open>parsepipe\<close> make
  recursive calls.\<close>

definition parseblock :: "(nat \<Rightarrow> cmd parse) \<Rightarrow> u8 list \<Rightarrow> nat \<Rightarrow> cmd parse" where
  "parseblock pl b s =
     (case peek b s ''('' of (r, s1) \<Rightarrow>
      if \<not> r then Syntax ''parseblock''
      else case gettoken b s1 of (_, _, _, s2) \<Rightarrow>
        case pl s2 of
          Parsed cmd s3 \<Rightarrow>
            (case peek b s3 '')'' of (r, s4) \<Rightarrow>
             if \<not> r then Syntax ''syntax - missing )''
             else case gettoken b s4 of (_, _, _, s5) \<Rightarrow> parseredirs b cmd s5)
        | e \<Rightarrow> e)"

definition parseexec :: "(nat \<Rightarrow> cmd parse) \<Rightarrow> u8 list \<Rightarrow> nat \<Rightarrow> cmd parse" where
  "parseexec pl b s =
     (case peek b s ''('' of (r, s1) \<Rightarrow>
      if r then parseblock pl b s1
      else case parseredirs b execcmd s1 of
        Parsed rt s2 \<Rightarrow> parse_args b 0 rt s2
      | e \<Rightarrow> e)"

primrec parsepipe :: "nat \<Rightarrow> (nat \<Rightarrow> cmd parse) \<Rightarrow> u8 list \<Rightarrow> nat \<Rightarrow> cmd parse" where
  "parsepipe 0 pl b s = NoFuel"
| "parsepipe (Suc k) pl b s =
     (case parseexec pl b s of
        Parsed cmd s1 \<Rightarrow>
          (case peek b s1 ''|'' of (r, s2) \<Rightarrow>
           if r then case gettoken b s2 of (_, _, _, s3) \<Rightarrow>
             case parsepipe k pl b s3 of Parsed right s4 \<Rightarrow> Parsed (pipecmd cmd right) s4 | e \<Rightarrow> e
           else Parsed cmd s2)
      | e \<Rightarrow> e)"

text \<open>The loop over \<^verbatim>\<open>&\<close> in \<^verbatim>\<open>parseline\<close>.\<close>

function parse_backs :: "u8 list \<Rightarrow> cmd \<Rightarrow> nat \<Rightarrow> cmd \<times> nat" where
  "parse_backs b cmd s =
     (case peek b s ''&'' of (r, s1) \<Rightarrow>
      if r then case gettoken b s1 of (_, _, _, s2) \<Rightarrow> parse_backs b (backcmd cmd) s2 else (cmd, s1))"
  by auto
termination
  by (relation "measure (\<lambda>(b, cmd, s). length b - s)") (auto dest: token_advance)

primrec parseline :: "nat \<Rightarrow> u8 list \<Rightarrow> nat \<Rightarrow> cmd parse" where
  "parseline 0 b s = NoFuel"
| "parseline (Suc k) b s =
     (case parsepipe (Suc (length b)) (\<lambda>s. parseline k b s) b s of
        Parsed cmd s1 \<Rightarrow>
          (case parse_backs b cmd s1 of (cmd, s2) \<Rightarrow>
           case peek b s2 '';'' of (r, s3) \<Rightarrow>
           if r then case gettoken b s3 of (_, _, _, s4) \<Rightarrow>
             case parseline k b s4 of Parsed right s5 \<Rightarrow> Parsed (listcmd cmd right) s5 | e \<Rightarrow> e
           else Parsed cmd s3)
      | e \<Rightarrow> e)"

section \<open>Running commands\<close>

definition panic_sh :: "string \<Rightarrow> ('w, 'a) uprog" where
  "panic_sh s = bind (fprintf_u 2 ''%s\<newline>'' [VStr (Some (lit s))]) (\<lambda>_. exit_u 1)"

definition fork1 :: "('w, int) uprog" where
  "fork1 = bind (usysv UFork) (\<lambda>pid. if pid = -1 then panic_sh ''fork'' else ret pid)"

text \<open>\<^verbatim>\<open>nulterminate\<close> writes into the buffer of the line.\<close>

fun nulterminate :: "cmd \<Rightarrow> (nat \<Rightarrow> u8) \<Rightarrow> nat \<Rightarrow> u8" where
  "nulterminate NULLCMD m = m"
| "nulterminate (EXEC a) m =
     fold (\<lambda>v m. case v of Some (q, e) \<Rightarrow> m(e := 0) | None \<Rightarrow> m) (takeWhile (\<lambda>v. v \<noteq> None) a) m"
| "nulterminate (REDIR c f e mode fd) m = (nulterminate c m)(e := 0)"
| "nulterminate (PIPE l r) m = nulterminate r (nulterminate l m)"
| "nulterminate (LIST l r) m = nulterminate r (nulterminate l m)"
| "nulterminate (BACK c) m = nulterminate c m"

definition parsecmd :: "u8 list \<Rightarrow> ('w, cmd \<times> (nat \<Rightarrow> u8)) uprog" where
  "parsecmd b =
     (case parseline (Suc (length b)) b 0 of
        Parsed cmd s \<Rightarrow>
          (case peek b s [] of (_, s) \<Rightarrow>
           if s \<noteq> length b
           then bind (fprintf_u 2 ''leftovers: %s\<newline>'' [VStr (Some (drop s b))]) (\<lambda>_. panic_sh ''syntax'')
           else ret (cmd, nulterminate cmd (cstring b)))
      | Syntax m \<Rightarrow> panic_sh m
      | NoFuel \<Rightarrow> (\<lambda>_. Hang))"

text \<open>The string that starts at an index of the buffer, of \<open>SHBUF\<close> bytes.\<close>

definition SHBUF :: nat where "SHBUF = 100"

definition str_at :: "(nat \<Rightarrow> u8) \<Rightarrow> nat \<Rightarrow> u8 list" where
  "str_at m q = takeWhile (\<lambda>c. c \<noteq> 0) (map m [q..<SHBUF])"

abbreviation call_u :: "ucall \<Rightarrow> ('w, unit) uprog" where
  "call_u c \<equiv> bind (usysv c) (\<lambda>_. skip)"

text \<open>\<^verbatim>\<open>runcmd\<close> does not return: where the code calls it from a child, the statements after the call
  are those of the parent.\<close>

fun runcmd :: "(nat \<Rightarrow> u8) \<Rightarrow> cmd \<Rightarrow> ('w, unit) uprog" where
  "runcmd m NULLCMD = exit_u 1"
| "runcmd m (EXEC a) =
     (case a ! 0 of None \<Rightarrow> exit_u 1
      | Some (q, e) \<Rightarrow>
          seqK [exec_u (str_at m q) (map (\<lambda>v. str_at m (fst (the v))) (takeWhile (\<lambda>v. v \<noteq> None) a)),
                fprintf_u 2 ''exec %s failed\<newline>'' [VStr (Some (str_at m q))]] (exit_u 0))"
| "runcmd m (REDIR c f e mode fd) =
     seqK [call_u (UClose fd)] (bind (usysv (UOpen (str_at m f) mode)) (\<lambda>r.
       if r < 0 then seqK [fprintf_u 2 ''open %s failed\<newline>'' [VStr (Some (str_at m f))]] (exit_u 1)
       else seqK [runcmd m c] (exit_u 0)))"
| "runcmd m (LIST l r) =
     bind fork1 (\<lambda>pid. seqK [whenK (pid = 0) (runcmd m l), call_u UWait, runcmd m r] (exit_u 0))"
| "runcmd m (PIPE l r) =
     bind pipe_u (\<lambda>p. case p of None \<Rightarrow> panic_sh ''pipe'' | Some (p0, p1) \<Rightarrow>
       bind fork1 (\<lambda>pid. seqK
         [whenK (pid = 0) (block [call_u (UClose 1), call_u (UDup p1), call_u (UClose p0), call_u (UClose p1), runcmd m l])]
         (bind fork1 (\<lambda>pid. seqK
            [whenK (pid = 0) (block [call_u (UClose 0), call_u (UDup p0), call_u (UClose p0), call_u (UClose p1), runcmd m r]),
             call_u (UClose p0), call_u (UClose p1), call_u UWait, call_u UWait] (exit_u 0)))))"
| "runcmd m (BACK c) =
     bind fork1 (\<lambda>pid. seqK [whenK (pid = 0) (runcmd m c)] (exit_u 0))"

text \<open>\<^verbatim>\<open>getcmd\<close> returns the bytes of the line, or \<open>None\<close> for its \<^verbatim>\<open>-1\<close>.\<close>

definition getcmd :: "nat \<Rightarrow> ('w, u8 list option) uprog" where
  "getcmd nbuf = bind (write_u 2 (lit ''$ '')) (\<lambda>_. bind (gets_u (int nbuf)) (\<lambda>line.
     ret (if cstring line 0 = 0 then None else Some (takeWhile (\<lambda>c. c \<noteq> 0) line))))"

fun open_console :: "nat \<Rightarrow> ('w, unit) uprog" where
  "open_console 0 = (\<lambda>_. Hang)"
| "open_console (Suc k) = bind (usysv (UOpen (lit ''console'') O_RDWR)) (\<lambda>fd.
     if fd < 0 then skip else if 3 \<le> fd then call_u (UClose fd) else open_console k)"

fun sh_loop :: "nat \<Rightarrow> ('w, unit) uprog" where
  "sh_loop 0 = (\<lambda>_. Hang)"
| "sh_loop (Suc k) = bind (getcmd SHBUF) (\<lambda>line. case line of None \<Rightarrow> skip
     | Some buf \<Rightarrow>
         if take 3 buf = lit ''cd '' then
           (let dir = drop 3 (butlast buf) in
            bind (usysv (UChdir dir)) (\<lambda>r.
              seqK [whenK (r < 0) (fprintf_u 2 ''cannot cd %s\<newline>'' [VStr (Some dir)])] (sh_loop k)))
         else bind fork1 (\<lambda>pid. seqK
           [whenK (pid = 0) (bind (parsecmd buf) (\<lambda>(cmd, m). runcmd m cmd)), call_u UWait] (sh_loop k)))"

definition sh_main :: "('w, unit) uprog" where
  "sh_main w = seqK [open_console (Suc (length (replies w KCall))), \<lambda>w. sh_loop (Suc (feed w 0)) w] (exit_u 0) w"

declare parse_args.simps [simp del] parse_backs.simps [simp del]

section \<open>What the parser makes\<close>

text \<open>The array of an \<^verbatim>\<open>EXEC\<close> node holds \<open>n\<close> words of the line and null pointers after them.\<close>

definition args_ok :: "u8 list \<Rightarrow> nat \<Rightarrow> (nat \<times> nat) option list \<Rightarrow> bool" where
  "args_ok b n a \<longleftrightarrow> length a = MAXARGS \<and> n < MAXARGS \<and>
     (\<forall>i < n. \<exists>q e. a ! i = Some (q, e) \<and> word_at b q e) \<and> (\<forall>i < MAXARGS. n \<le> i \<longrightarrow> a ! i = None)"

fun cmd_ok :: "u8 list \<Rightarrow> cmd \<Rightarrow> bool" where
  "cmd_ok b NULLCMD = False"
| "cmd_ok b (EXEC a) = (\<exists>n. args_ok b n a)"
| "cmd_ok b (REDIR c q e mode fd) = (cmd_ok b c \<and> word_at b q e)"
| "cmd_ok b (PIPE l r) = (cmd_ok b l \<and> cmd_ok b r)"
| "cmd_ok b (LIST l r) = (cmd_ok b l \<and> cmd_ok b r)"
| "cmd_ok b (BACK c) = cmd_ok b c"

text \<open>A simple command with \<open>n\<close> arguments under its redirections.\<close>

fun simple_ok :: "u8 list \<Rightarrow> nat \<Rightarrow> cmd \<Rightarrow> bool" where
  "simple_ok b n (EXEC a) = args_ok b n a"
| "simple_ok b n (REDIR c q e mode fd) = (simple_ok b n c \<and> word_at b q e)"
| "simple_ok b n c = False"

definition parse_post :: "u8 list \<Rightarrow> nat \<Rightarrow> (cmd \<Rightarrow> bool) \<Rightarrow> cmd parse \<Rightarrow> bool" where
  "parse_post b s Q r \<longleftrightarrow>
     (case r of Parsed c s' \<Rightarrow> Q c \<and> s \<le> s' \<and> s' \<le> length b | Syntax m \<Rightarrow> True | NoFuel \<Rightarrow> False)"

lemma simple_cmd_ok: "simple_ok b n c \<Longrightarrow> cmd_ok b c"
  by (induction b n c rule: simple_ok.induct) auto

lemma set_arg_end: "simple_ok b n c \<Longrightarrow> simple_ok b n (set_arg c n None)"
  by (induction b n c rule: simple_ok.induct) (auto simp: args_ok_def nth_list_update)

lemma set_arg_next:
  "simple_ok b n c \<Longrightarrow> word_at b q e \<Longrightarrow> Suc n < MAXARGS \<Longrightarrow> simple_ok b (Suc n) (set_arg c n (Some (q, e)))"
  by (induction b n c rule: simple_ok.induct) (auto simp: args_ok_def nth_list_update less_Suc_eq)

lemma args_ok_empty: "simple_ok b 0 execcmd"
  by (simp add: execcmd_def args_ok_def)

lemma parse_post_trans: "parse_post b s' Q r \<Longrightarrow> s \<le> s' \<Longrightarrow> parse_post b s Q r"
  by (auto simp: parse_post_def split: parse.splits)

text \<open>Redirections keep whatever holds of a command and is kept by one more redirection.\<close>

lemma parseredirs_post:
  assumes b: "0 \<notin> set b" and Q: "\<And>c q e m fd. Q c \<Longrightarrow> word_at b q e \<Longrightarrow> Q (REDIR c q e m fd)"
    and "s \<le> length b" "Q c"
  shows "parse_post b s Q (parseredirs b c s)"
  using assms(3,4)
proof (induction "length b - s" arbitrary: c s rule: less_induct)
  case less
  obtain r s1 where p: "peek b s ''<>'' = (r, s1)" by fastforce
  obtain tok q1 e1 s2 where t1: "gettoken b s1 = (tok, q1, e1, s2)" using prod_cases4 by blast
  obtain t q e s3 where t2: "gettoken b s2 = (t, q, e, s3)" using prod_cases4 by blast
  note s1 = peek_bounds [OF p]
  show ?case
  proof (cases "r \<and> t = chr CHR ''a''")
    case True
    define c' where "c' = (if tok = chr CHR ''<'' then redircmd c q e O_RDONLY 0
           else if tok = chr CHR ''>'' then redircmd c q e (O_WRONLY OR O_CREATE OR O_TRUNC) 1
           else if tok = chr CHR ''+'' then redircmd c q e (O_WRONLY OR O_CREATE) 1
           else c)"
    have s2: "s < s2" "s2 \<le> length b" "s < length b"
      using peek_gettoken [of b s "''<>''" s1 tok q1 e1 s2] p t1 True s1(2) less.prems
        gettoken_word(1) [OF b _ t1] by auto
    have w: "word_at b q e" "s3 \<le> length b" using gettoken_word [OF b s2(2) t2] True by auto
    have "s2 \<le> s3" using gettoken_mono [OF t2] by simp
    moreover have "Q c'" using Q less.prems(2) w(1) by (simp add: c'_def redircmd_def)
    ultimately have "parse_post b s3 Q (parseredirs b c' s3)" using less.hyps [of s3 c'] s2 w by simp
    moreover have "parseredirs b c s = parseredirs b c' s3"
      using True p t1 t2 by (subst parseredirs.simps) (simp add: c'_def)
    ultimately show ?thesis using s2(1) \<open>s2 \<le> s3\<close> by (auto intro: parse_post_trans)
  next
    case False
    with p t1 t2 s1 less.prems show ?thesis
      by (subst parseredirs.simps) (auto simp: parse_post_def)
  qed
qed

lemma parse_args_post:
  assumes b: "0 \<notin> set b" and "s \<le> length b" "simple_ok b n c"
  shows "parse_post b s (cmd_ok b) (parse_args b n c s)"
  using assms(2,3)
proof (induction "length b - s" arbitrary: c n s rule: less_induct)
  case less
  obtain r s1 where p: "peek b s ''|)&;'' = (r, s1)" by fastforce
  obtain t q e s2 where t: "gettoken b s1 = (t, q, e, s2)" using prod_cases4 by blast
  note s1 = peek_bounds [OF p]
  have s2: "s2 \<le> length b" "s1 \<le> s2" using gettoken_word(1) [OF b _ t] gettoken_mono [OF t] s1 less.prems by auto
  have ended: "cmd_ok b (set_arg c n None)" by (rule simple_cmd_ok [OF set_arg_end [OF less.prems(2)]])
  show ?case
  proof (cases "\<not> r \<and> t = chr CHR ''a'' \<and> Suc n < MAXARGS")
    case True
    then have w: "word_at b q e" using gettoken_word(2) [OF b _ t] s1 less.prems by auto
    have lt: "s < s2" "s < length b" using gettoken_mono [OF t] True s1 by auto
    let ?c = "set_arg c n (Some (q, e))"
    have "simple_ok b (Suc n) ?c" using set_arg_next [OF less.prems(2) w] True by simp
    then have r: "parse_post b s2 (simple_ok b (Suc n)) (parseredirs b ?c s2)"
      using s2 by (intro parseredirs_post b) auto
    show ?thesis
    proof (cases "parseredirs b ?c s2")
      case (Parsed c' s3)
      with r have c': "simple_ok b (Suc n) c'" "s2 \<le> s3" "s3 \<le> length b" by (auto simp: parse_post_def)
      have "parse_post b s3 (cmd_ok b) (parse_args b (Suc n) c' s3)"
        using less.hyps [of s3 "Suc n" c'] c' lt by simp
      then have "parse_post b s (cmd_ok b) (parse_args b (Suc n) c' s3)"
        by (rule parse_post_trans) (use lt c' in simp)
      with Parsed True p t show ?thesis by (subst parse_args.simps) simp
    qed (use r True p t in \<open>subst parse_args.simps; simp add: parse_post_def\<close>)+
  next
    case False
    with p t s1 s2 less.prems ended show ?thesis
      by (subst parse_args.simps) (auto simp: parse_post_def)
  qed
qed

lemma parse_backs_post:
  assumes b: "0 \<notin> set b" and "s \<le> length b" "cmd_ok b c" "parse_backs b c s = (c', s')"
  shows "cmd_ok b c' \<and> s \<le> s' \<and> s' \<le> length b"
  using assms(2-)
proof (induction "length b - s" arbitrary: c s rule: less_induct)
  case less
  obtain r s1 where p: "peek b s ''&'' = (r, s1)" by fastforce
  obtain t q e s2 where t: "gettoken b s1 = (t, q, e, s2)" using prod_cases4 by blast
  note s1 = peek_bounds [OF p]
  show ?case
  proof (cases r)
    case True
    have s2: "s < s2" "s2 \<le> length b" "s < length b"
      using peek_gettoken [of b s "''&''" s1 t q e s2] p t True s1(2) less.prems gettoken_word(1) [OF b _ t] by auto
    have "parse_backs b (backcmd c) s2 = (c', s')"
      using less.prems(3) p t True by (subst (asm) parse_backs.simps) simp
    then have "cmd_ok b c' \<and> s2 \<le> s' \<and> s' \<le> length b"
      using less.hyps [of s2 "backcmd c"] s2 less.prems(2) by (simp add: backcmd_def)
    with s2(1) show ?thesis by simp
  next
    case False
    with less.prems p s1 show ?thesis by (subst (asm) parse_backs.simps) auto
  qed
qed

text \<open>\<open>pl_ok b s pl\<close>: the calls of \<^verbatim>\<open>parseline\<close> beyond \<open>s\<close> end well.\<close>

definition pl_ok :: "u8 list \<Rightarrow> nat \<Rightarrow> (nat \<Rightarrow> cmd parse) \<Rightarrow> bool" where
  "pl_ok b s pl \<longleftrightarrow> (\<forall>s'. s < s' \<and> s' \<le> length b \<longrightarrow> parse_post b s' (cmd_ok b) (pl s'))"

lemma parseblock_post:
  assumes b: "0 \<notin> set b" and s: "s \<le> length b" and pl: "pl_ok b s pl"
  shows "parse_post b s (cmd_ok b) (parseblock pl b s)"
proof -
  obtain r s1 where p: "peek b s ''('' = (r, s1)" by fastforce
  obtain t q e s2 where t: "gettoken b s1 = (t, q, e, s2)" using prod_cases4 by blast
  note s1 = peek_bounds [OF p]
  show ?thesis
  proof (cases r)
    case True
    have s2: "s < s2" "s2 \<le> length b"
      using peek_gettoken [of b s "''(''" s1 t q e s2] p t True s1(2) s gettoken_word(1) [OF b _ t] by auto
    with pl have r: "parse_post b s2 (cmd_ok b) (pl s2)" by (simp add: pl_ok_def)
    show ?thesis
    proof (cases "pl s2")
      case (Parsed c s3)
      with r have c: "cmd_ok b c" "s2 \<le> s3" "s3 \<le> length b" by (auto simp: parse_post_def)
      obtain r' s4 where p': "peek b s3 '')'' = (r', s4)" by fastforce
      obtain t' q' e' s5 where t': "gettoken b s4 = (t', q', e', s5)" using prod_cases4 by blast
      have s5: "s4 \<le> s5" "s3 \<le> s4" "s5 \<le> length b"
        using gettoken_mono [OF t'] gettoken_word(1) [OF b _ t'] peek_bounds [OF p'] c by auto
      have "parse_post b s5 (cmd_ok b) (parseredirs b c s5)"
        using c s5 by (intro parseredirs_post b) auto
      then have "parse_post b s (cmd_ok b) (parseredirs b c s5)"
        by (rule parse_post_trans) (use s2 c s5 in simp)
      with True p t Parsed p' t' show ?thesis by (simp add: parseblock_def) (simp add: parse_post_def)
    qed (use r True p t in \<open>simp_all add: parseblock_def parse_post_def\<close>)
  qed (use p in \<open>simp add: parseblock_def parse_post_def\<close>)
qed

lemma parseexec_post:
  assumes b: "0 \<notin> set b" and s: "s \<le> length b" and pl: "pl_ok b s pl"
  shows "parse_post b s (cmd_ok b) (parseexec pl b s)"
proof -
  obtain r s1 where p: "peek b s ''('' = (r, s1)" by fastforce
  note s1 = peek_bounds [OF p]
  then have pl1: "pl_ok b s1 pl" using pl by (auto simp: pl_ok_def)
  have redirs: "parse_post b s1 (simple_ok b 0) (parseredirs b execcmd s1)"
    using s1 s by (intro parseredirs_post b args_ok_empty) auto
  have "parse_post b s1 (cmd_ok b) (case parseredirs b execcmd s1 of Parsed rt s2 \<Rightarrow> parse_args b 0 rt s2 | e \<Rightarrow> e)"
  proof (cases "parseredirs b execcmd s1")
    case (Parsed c s2)
    with redirs have "simple_ok b 0 c" "s1 \<le> s2" "s2 \<le> length b" by (auto simp: parse_post_def)
    with Parsed parse_args_post [OF b, of s2 0 c] show ?thesis by (auto intro: parse_post_trans)
  qed (use redirs in \<open>simp_all add: parse_post_def\<close>)
  moreover have "parse_post b s1 (cmd_ok b) (parseblock pl b s1)"
    using s1 s by (intro parseblock_post b pl1) auto
  ultimately show ?thesis using p s1(1) by (auto simp: parseexec_def intro: parse_post_trans)
qed

lemma parsepipe_post:
  assumes b: "0 \<notin> set b" and "s \<le> length b" "pl_ok b s pl" "length b - s < k"
  shows "parse_post b s (cmd_ok b) (parsepipe k pl b s)"
  using assms(2-)
proof (induction k arbitrary: s)
  case (Suc k)
  note ex = parseexec_post [OF b Suc.prems(1,2)]
  show ?case
  proof (cases "parseexec pl b s")
    case (Parsed c s1)
    with ex have c: "cmd_ok b c" "s \<le> s1" "s1 \<le> length b" by (auto simp: parse_post_def)
    obtain r s2 where p: "peek b s1 ''|'' = (r, s2)" by fastforce
    obtain t q e s3 where t: "gettoken b s2 = (t, q, e, s3)" using prod_cases4 by blast
    note s2 = peek_bounds [OF p]
    show ?thesis
    proof (cases r)
      case True
      have s3: "s1 < s3" "s3 \<le> length b" "s1 < length b"
        using peek_gettoken [of b s1 "''|''" s2 t q e s3] p t True s2 c gettoken_word(1) [OF b _ t] by auto
      with Suc.prems c have "parse_post b s3 (cmd_ok b) (parsepipe k pl b s3)"
        by (intro Suc.IH) (auto simp: pl_ok_def)
      with Parsed True p t c s3 show ?thesis
        by (auto simp: parse_post_def pipecmd_def split: parse.splits)
    qed (use Parsed p c s2 in \<open>auto simp: parse_post_def\<close>)
  qed (use ex in \<open>simp_all add: parse_post_def\<close>)
qed simp

lemma parseline_post:
  assumes b: "0 \<notin> set b" and "s \<le> length b" "length b - s < k"
  shows "parse_post b s (cmd_ok b) (parseline k b s)"
  using assms(2-)
proof (induction k arbitrary: s)
  case (Suc k)
  have pl: "pl_ok b s (parseline k b)"
    using Suc.IH Suc.prems(2) by (auto simp: pl_ok_def)
  have pipe: "parse_post b s (cmd_ok b) (parsepipe (Suc (length b)) (parseline k b) b s)"
    using Suc.prems by (intro parsepipe_post b pl) auto
  show ?case
  proof (cases "parsepipe (Suc (length b)) (parseline k b) b s")
    case (Parsed c s1)
    with pipe have c: "cmd_ok b c" "s \<le> s1" "s1 \<le> length b" by (auto simp: parse_post_def)
    obtain c' s2 where bk: "parse_backs b c s1 = (c', s2)" by fastforce
    have c': "cmd_ok b c'" "s1 \<le> s2" "s2 \<le> length b" using parse_backs_post [OF b c(3,1) bk] by auto
    obtain r s3 where p: "peek b s2 '';'' = (r, s3)" by fastforce
    obtain t q e s4 where t: "gettoken b s3 = (t, q, e, s4)" using prod_cases4 by blast
    note s3 = peek_bounds [OF p]
    show ?thesis
    proof (cases r)
      case True
      have s4: "s2 < s4" "s4 \<le> length b" "s2 < length b"
        using peek_gettoken [of b s2 "'';''" s3 t q e s4] p t True s3 c' gettoken_word(1) [OF b _ t] by auto
      with Suc.prems c c' have "parse_post b s4 (cmd_ok b) (parseline k b s4)"
        by (intro Suc.IH) auto
      with Parsed True p t c c' s4 bk show ?thesis
        by (auto simp: parse_post_def listcmd_def split: parse.splits)
    qed (use Parsed p c c' s3 bk in \<open>auto simp: parse_post_def\<close>)
  qed (use pipe in \<open>simp_all add: parse_post_def\<close>)
qed simp

section \<open>The strings of a command\<close>

fun words :: "cmd \<Rightarrow> (nat \<times> nat) list" where
  "words NULLCMD = []"
| "words (EXEC a) = map the (takeWhile (\<lambda>v. v \<noteq> None) a)"
| "words (REDIR c q e mode fd) = (q, e) # words c"
| "words (PIPE l r) = words l @ words r"
| "words (LIST l r) = words l @ words r"
| "words (BACK c) = words c"

lemma nulterminate_apply: "nulterminate c m i = (if i \<in> snd ` set (words c) then 0 else m i)"
proof (induction c arbitrary: m)
  case (EXEC a)
  have "fold (\<lambda>v m. case v of Some (q, e) \<Rightarrow> m(e := 0) | None \<Rightarrow> m) vs m i =
      (if i \<in> snd ` set (map the vs) then 0 else m i)" if "None \<notin> set vs" for vs
    using that
  proof (induction vs arbitrary: m)
    case (Cons v vs)
    then show ?case by (cases v) auto
  qed simp
  moreover have "None \<notin> set (takeWhile (\<lambda>v. v \<noteq> None) a)" by (auto dest: set_takeWhileD)
  ultimately show ?case unfolding nulterminate.simps words.simps by blast
qed auto

lemma cmd_ok_words:
  assumes "cmd_ok b c" "(q, e) \<in> set (words c)"
  shows "word_at b q e"
  using assms
proof (induction c)
  case (EXEC a)
  then obtain n v where n: "args_ok b n a" and v: "v \<in> set (takeWhile (\<lambda>v. v \<noteq> None) a)" "(q, e) = the v" by auto
  from set_takeWhileD [OF v(1)] obtain i where i: "i < length a" "v = a ! i" "v \<noteq> None"
    by (metis in_set_conv_nth)
  with n have "i < n" by (metis args_ok_def not_le_imp_less)
  with n i v(2) show ?case by (auto simp: args_ok_def)
qed auto

lemma str_at_word:
  assumes "length b < SHBUF" "\<forall>(q, e) \<in> set (words c). word_at b q e" "(q, e) \<in> set (words c)"
  shows "str_at (nulterminate c (cstring b)) q = slice b q (e - q)"
proof -
  let ?m = "nulterminate c (cstring b)"
  from assms(2,3) have w: "word_at b q e" by auto
  have keep: "?m i = b ! i \<and> b ! i \<noteq> 0" if "q \<le> i" "i < e" for i
  proof -
    from that w have i: "word_byte (cstring b i)" "i < length b" by (auto simp: word_at_def)
    then have "i \<notin> snd ` set (words c)" using assms(2) by (auto simp: word_at_def)
    with i show ?thesis by (simp add: nulterminate_apply cstring_def word_byte_def)
  qed
  have "e < SHBUF" using w assms(1) by (simp add: word_at_def)
  then have "[q..<SHBUF] = [q..<e] @ e # [Suc e..<SHBUF]"
    using w upt_add_eq_append [of q e "SHBUF - e"] upt_conv_Cons [of e SHBUF] by (simp add: word_at_def)
  moreover have "?m e = 0" using assms(3) by (force simp: nulterminate_apply)
  moreover have "takeWhile (\<lambda>c. c \<noteq> 0) (map ?m [q..<e]) = map ?m [q..<e]" using keep by simp
  ultimately have "str_at ?m q = map ?m [q..<e]" using keep
    by (simp add: str_at_def takeWhile_append)
  also have "\<dots> = slice b q (e - q)"
    using keep w by (intro nth_equalityI) (auto simp: slice_def word_at_def)
  finally show ?thesis .
qed

section \<open>Properties\<close>

text \<open>C29. The parser of the shell ends on every line: it returns a command, in which every array of
  arguments holds words of the line with a null pointer after them inside its \<^verbatim>\<open>MAXARGS\<close> entries, or
  it reports a syntax error.\<close>

theorem sh_parser_total:
  assumes "0 \<notin> set b"
  shows "(\<exists>c s. parseline (Suc (length b)) b 0 = Parsed c s \<and> cmd_ok b c \<and> s \<le> length b) \<or>
         (\<exists>m. parseline (Suc (length b)) b 0 = Syntax m)"
  using parseline_post [OF assms, of 0 "Suc (length b)"]
  by (auto simp: parse_post_def split: parse.splits)

theorem sh_parser_total_witness:
  "cmd_ok (lit ''a|b'') (PIPE (EXEC (Some (0, 1) # replicate 9 None)) (EXEC (Some (2, 3) # replicate 9 None)))"
proof -
  have "parseline (Suc (length (lit ''a|b''))) (lit ''a|b'') 0 =
      Parsed (PIPE (EXEC (Some (0, 1) # replicate 9 None)) (EXEC (Some (2, 3) # replicate 9 None))) 3"
    by code_simp
  moreover have "0 \<notin> set (lit ''a|b'')" by (simp add: lit_def)
  ultimately show ?thesis using sh_parser_total [of "lit ''a|b''"] by simp
qed

text \<open>C30. When \<^verbatim>\<open>parsecmd\<close> returns, the string at each pointer to an argument or a file name of the
  command is the word of the line it stands for: the NULs written by \<^verbatim>\<open>nulterminate\<close> end every word
  and fall inside none.\<close>

theorem sh_arguments:
  assumes "0 \<notin> set b" "length b < SHBUF" "parsecmd b w = Ok (c, m) w'"
  shows "cmd_ok b c \<and> (\<forall>(q, e) \<in> set (words c). word_at b q e \<and> str_at m q = slice b q (e - q))"
proof -
  from assms(3) obtain s where p: "parseline (Suc (length b)) b 0 = Parsed c s" and m: "m = nulterminate c (cstring b)"
    by (auto simp: parsecmd_def panic_sh_def run_simps exit_u_def obind_Ok_iff
        split: parse.splits prod.splits if_splits)
  have "cmd_ok b c" using parseline_post [OF assms(1), of 0 "Suc (length b)"] p by (simp add: parse_post_def)
  moreover from this have "\<forall>(q, e) \<in> set (words c). word_at b q e" using cmd_ok_words by blast
  ultimately show ?thesis using str_at_word [OF assms(2)] by (auto simp: m)
qed

theorem sh_arguments_witness:
  "\<exists>c m w'. parsecmd (lit ''a>b'') \<lparr>replies = (\<lambda>_. []), calls = []\<rparr> = Ok (c, m) w' \<and>
     words c = [(2, 3), (0, 1)] \<and> str_at m 0 = lit ''a'' \<and> str_at m 2 = lit ''b''"
proof -
  let ?b = "lit ''a>b''"
  let ?w = "\<lparr>replies = (\<lambda>_. []), calls = []\<rparr> :: uworld"
  define c where "c = REDIR (EXEC (Some (0, 1) # replicate 9 None)) 2 3 (O_WRONLY OR O_CREATE OR O_TRUNC) 1"
  have "parseline (Suc (length ?b)) ?b 0 = Parsed c 3" unfolding c_def by code_simp
  moreover have "peek ?b 3 [] = (False, 3)" by code_simp
  moreover have l: "length ?b = 3" by (simp add: lit_def)
  ultimately have r: "parsecmd ?b ?w = Ok (c, nulterminate c (cstring ?b)) ?w"
    by (simp add: parsecmd_def run_simps del: parseline.simps)
  have words: "words c = [(2, 3), (0, 1)]" by (simp add: c_def eval_nat_numeral)
  have "0 \<notin> set ?b" "length ?b < SHBUF" by (simp_all add: lit_def SHBUF_def)
  from sh_arguments [OF this r] have "str_at (nulterminate c (cstring ?b)) 0 = slice ?b 0 1"
    "str_at (nulterminate c (cstring ?b)) 2 = slice ?b 2 1" by (simp_all add: words)
  then show ?thesis using r words by (auto simp: slice_def lit_def simp del: parseline.simps)
qed

end
