(* ===== verification/Xv6_Utils.thy ===== *)
theory Xv6_Utils
  imports Xv6_Sh
begin

text \<open>
  The utilities of \<^verbatim>\<open>user/\<close>: \<^verbatim>\<open>wc.c\<close>, \<^verbatim>\<open>cat.c\<close>, \<^verbatim>\<open>echo.c\<close>, \<^verbatim>\<open>ls.c\<close>, \<^verbatim>\<open>init.c\<close>, \<^verbatim>\<open>kill.c\<close>, \<^verbatim>\<open>ln.c\<close>,
  \<^verbatim>\<open>mkdir.c\<close>, \<^verbatim>\<open>rm.c\<close>, \<^verbatim>\<open>cow.c\<close> and \<^verbatim>\<open>zombie.c\<close>, over the system calls of \<^verbatim>\<open>Xv6_Ulib\<close>.  An \<^verbatim>\<open>argv\<close> is
  the list of its strings.  A loop that reads to the end of its input has fuel for every byte and
  reply that is coming, and a loop of other calls has fuel for every reply.

  Shown: \<^verbatim>\<open>wc\<close> prints the numbers of lines, words and bytes, however the input is cut into
  pieces; \<^verbatim>\<open>cat -n\<close> prints a number wherever a piece starts, also
  inside a line.
\<close>

section \<open>wc.c\<close>

record wcount =
  wc_l :: u32
  wc_w :: u32
  wc_c :: u32
  wc_inword :: bool

definition wc_blanks :: "u8 list" where
  "wc_blanks = [32, 13, 9, 10, 11]"

text \<open>The body of the inner loop.\<close>

definition wc_byte :: "u8 \<Rightarrow> wcount \<Rightarrow> wcount" where
  "wc_byte b k =
     (let k = k\<lparr>wc_c := wc_c k + 1\<rparr>;
          k = (if b = 10 then k\<lparr>wc_l := wc_l k + 1\<rparr> else k) in
      if chr_in wc_blanks b then k\<lparr>wc_inword := False\<rparr>
      else if \<not> wc_inword k then k\<lparr>wc_w := wc_w k + 1, wc_inword := True\<rparr>
      else k)"

fun wc_loop :: "nat \<Rightarrow> int \<Rightarrow> wcount \<Rightarrow> ('w, bool \<times> wcount) uprog" where
  "wc_loop 0 fd k = (\<lambda>_. Hang)"
| "wc_loop (Suc f) fd k = bind (read_u fd 512) (\<lambda>r.
     case r of None \<Rightarrow> ret (True, k) | Some [] \<Rightarrow> ret (False, k)
     | Some bs \<Rightarrow> wc_loop f fd (fold wc_byte bs k))"

definition wc :: "int \<Rightarrow> u8 list \<Rightarrow> ('w, unit) uprog" where
  "wc fd name w = bind (wc_loop (Suc (feed w fd)) fd \<lparr>wc_l = 0, wc_w = 0, wc_c = 0, wc_inword = False\<rparr>) (\<lambda>(err, k).
     if err then seqK [printf_u ''wc: read error\<newline>'' []] (exit_u 1)
     else printf_u ''%d %d %d %s\<newline>'' [VNum (ucast (wc_l k)), VNum (ucast (wc_w k)), VNum (ucast (wc_c k)), VStr (Some name)]) w"

fun wc_files :: "u8 list list \<Rightarrow> ('w, unit) uprog" where
  "wc_files [] = exit_u 0"
| "wc_files (f # fs) = bind (usysv (UOpen f 0)) (\<lambda>fd.
     if fd < 0 then seqK [printf_u ''wc: cannot open %s\<newline>'' [VStr (Some f)]] (exit_u 1)
     else seqK [wc fd f, call_u (UClose fd)] (wc_files fs))"

definition wc_main :: "u8 list list \<Rightarrow> ('w, unit) uprog" where
  "wc_main argv = (if length argv \<le> 1 then seqK [wc 0 []] (exit_u 0) else wc_files (tl argv))"

section \<open>cat.c\<close>

text \<open>The body of the loop over a piece of \<open>n\<close> bytes, at index \<open>i\<close>.\<close>

fun numcat_bytes :: "nat \<Rightarrow> nat \<Rightarrow> u8 list \<Rightarrow> u32 \<Rightarrow> ('w, u32) uprog" where
  "numcat_bytes n i [] cont = ret cont"
| "numcat_bytes n i (b # bs) cont =
     seqK [printf_u ''%c'' [VNum (ucast b)]]
       (if b = 10
        then seqK [whenK (i + 1 < n) (printf_u ''%d'' [VNum (ucast (cont + 1))])] (numcat_bytes n (Suc i) bs (cont + 1))
        else numcat_bytes n (Suc i) bs cont)"

fun numcat_loop :: "nat \<Rightarrow> int \<Rightarrow> u32 \<Rightarrow> ('w, unit) uprog" where
  "numcat_loop 0 fd cont = (\<lambda>_. Hang)"
| "numcat_loop (Suc f) fd cont = bind (read_u fd 512) (\<lambda>r.
     case r of None \<Rightarrow> skip | Some [] \<Rightarrow> skip
     | Some bs \<Rightarrow> seqK [printf_u ''%d'' [VNum (ucast cont)]]
         (bind (numcat_bytes (length bs) 0 bs cont) (\<lambda>cont. numcat_loop f fd cont)))"

definition numcat :: "int \<Rightarrow> ('w, unit) uprog" where
  "numcat fd w = numcat_loop (Suc (feed w fd)) fd 1 w"

fun cat_loop :: "nat \<Rightarrow> int \<Rightarrow> ('w, unit) uprog" where
  "cat_loop 0 fd = (\<lambda>_. Hang)"
| "cat_loop (Suc f) fd = bind (read_u fd 512) (\<lambda>r.
     case r of None \<Rightarrow> seqK [fprintf_u 2 ''cat: read error\<newline>'' []] (exit_u 1)
     | Some [] \<Rightarrow> skip
     | Some bs \<Rightarrow> bind (write_u 1 bs) (\<lambda>m.
         if m \<noteq> int (length bs) then seqK [fprintf_u 2 ''cat: write error\<newline>'' []] (exit_u 1)
         else cat_loop f fd))"

definition cat :: "int \<Rightarrow> ('w, unit) uprog" where
  "cat fd w = cat_loop (Suc (feed w fd)) fd w"

fun cat_files :: "bool \<Rightarrow> u8 list list \<Rightarrow> ('w, unit) uprog" where
  "cat_files num [] = exit_u 0"
| "cat_files num (f # fs) = bind (usysv (UOpen f 0)) (\<lambda>fd.
     if fd < 0 then seqK [fprintf_u 2 ''cat: cannot open %s\<newline>'' [VStr (Some f)]] (exit_u 1)
     else seqK [if num then numcat fd else cat fd, call_u (UClose fd)] (cat_files num fs))"

definition cat_main :: "u8 list list \<Rightarrow> ('w, unit) uprog" where
  "cat_main argv =
     (if length argv \<le> 1 then seqK [cat 0] (exit_u 0)
      else let num = strcmp_u (cstring (argv ! 1)) (cstring (lit ''-n'')) 0 = Some 0 in
        cat_files num (drop (if num then 2 else 1) argv))"

section \<open>echo.c\<close>

fun echo_args :: "u8 list list \<Rightarrow> ('w, unit) uprog" where
  "echo_args [] = exit_u 0"
| "echo_args (a # as) =
     seqK [bind (write_u 1 a) (\<lambda>_. skip), bind (write_u 1 (if as \<noteq> [] then lit '' '' else lit ''\<newline>'')) (\<lambda>_. skip)]
       (echo_args as)"

definition echo_main :: "u8 list list \<Rightarrow> ('w, unit) uprog" where
  "echo_main argv = echo_args (tl argv)"

section \<open>ls.c\<close>

definition DIRNAME :: nat where "DIRNAME = 14"

definition fmtname :: "u8 list \<Rightarrow> u8 list" where
  "fmtname path =
     (let p = rev (takeWhile (\<lambda>c. c \<noteq> of_char CHR ''/'') (rev path)) in
      if DIRNAME \<le> length p then p else p @ replicate (DIRNAME - length p) 32)"

text \<open>The loop over the entries of a directory; \<open>cont\<close> is the global line counter of \<^verbatim>\<open>-n\<close>.\<close>

fun ls_entries :: "nat \<Rightarrow> int \<Rightarrow> u8 list \<Rightarrow> nat \<Rightarrow> u32 \<Rightarrow> ('w, u32) uprog" where
  "ls_entries 0 fd path flag cont = (\<lambda>_. Hang)"
| "ls_entries (Suc f) fd path flag cont = bind (read_u fd 16) (\<lambda>r.
     case r of None \<Rightarrow> ret cont
     | Some de \<Rightarrow>
         if length de \<noteq> 16 then ret cont
         else if (unle (slice de 0 2) :: u16) = 0 then ls_entries f fd path flag cont
         else let buf = path @ lit ''/'' @ takeWhile (\<lambda>c. c \<noteq> 0) (slice de 2 14) in
           bind (stat_u buf) (\<lambda>st. case st of
             None \<Rightarrow> seqK [printf_u ''ls: cannot stat %s\<newline>'' [VStr (Some buf)]] (ls_entries f fd path flag cont)
           | Some st \<Rightarrow>
               seqK [whenK (1 \<le> flag) (printf_u [CHR ''%'', CHR ''d'', CHR 0x09] [VNum (ucast cont)]),
                     printf_u ''%s %d %d %d\<newline>'' [VStr (Some (fmtname buf)), VNum (scast (st_type st)),
                       VNum (ucast (st_ino st)), VNum (st_size st)]]
                 (ls_entries f fd path flag (if 1 \<le> flag then cont + 1 else cont))))"

definition ls :: "u8 list \<Rightarrow> nat \<Rightarrow> u32 \<Rightarrow> ('w, u32) uprog" where
  "ls path flag cont = bind (usysv (UOpen path 0)) (\<lambda>fd.
     if fd < 0 then seqK [fprintf_u 2 ''ls: cannot open %s\<newline>'' [VStr (Some path)]] (ret cont)
     else bind (fstat_u fd) (\<lambda>st. case st of
       None \<Rightarrow> seqK [fprintf_u 2 ''ls: cannot stat %s\<newline>'' [VStr (Some path)], call_u (UClose fd)] (ret cont)
     | Some st \<Rightarrow>
         bind (if st_type st = 3 \<or> st_type st = 2 then
                 seqK [printf_u ''%s %d %d %l\<newline>'' [VStr (Some (fmtname path)), VNum (scast (st_type st)),
                   VNum (ucast (st_ino st)), VNum (st_size st)]] (ret cont)
               else if st_type st = 1 then
                 if 512 < length path + 1 + DIRNAME + 1
                 then seqK [printf_u ''ls: path too long\<newline>'' []] (ret cont)
                 else (\<lambda>w. ls_entries (Suc (feed w fd)) fd path flag cont w)
               else ret cont)
           (\<lambda>cont. seqK [call_u (UClose fd)] (ret cont))))"

fun ls_args :: "u8 list list \<Rightarrow> nat \<Rightarrow> u32 \<Rightarrow> ('w, unit) uprog" where
  "ls_args [] flag cont = exit_u 0"
| "ls_args (a # as) flag cont = bind (ls a flag cont) (\<lambda>cont. ls_args as flag cont)"

text \<open>Without an argument \<^verbatim>\<open>argv[1]\<close> is null and \<^verbatim>\<open>strcmp\<close> reads from address 0, where the text of the
  program starts; \<open>text0\<close> is the string found there.\<close>

definition ls_main :: "u8 list \<Rightarrow> u8 list list \<Rightarrow> ('w, unit) uprog" where
  "ls_main text0 argv =
     (let arg1 = (if 1 < length argv then argv ! 1 else text0);
          flag = (if strcmp_u (cstring arg1) (cstring (lit ''-n'')) 0 = Some 0 then 1 else 0) in
      if length argv < 2 + flag then bind (ls (lit ''.'') flag 1) (\<lambda>_. exit_u 0)
      else ls_args (drop (flag + 1) argv) flag 1)"

section \<open>Programs that only issue calls\<close>

definition cow_main :: "('w, int) uprog" where
  "cow_main = bind (usysv UCow) (\<lambda>r. seqK [printf_u ''%d\<newline>'' [VNum (of_int r)]] (ret 0))"

fun kill_args :: "u8 list list \<Rightarrow> ('w, unit) uprog" where
  "kill_args [] = exit_u 0"
| "kill_args (a # as) = seqK [call_u (UKill (sint (the (atoi_u (cstring a) 0 0))))] (kill_args as)"

definition kill_main :: "u8 list list \<Rightarrow> ('w, unit) uprog" where
  "kill_main argv = (if length argv < 2 then seqK [fprintf_u 2 ''usage: kill pid...\<newline>'' []] (exit_u 1)
     else kill_args (tl argv))"

definition ln_main :: "u8 list list \<Rightarrow> ('w, unit) uprog" where
  "ln_main argv = (if length argv \<noteq> 3 then seqK [fprintf_u 2 ''Usage: ln old new\<newline>'' []] (exit_u 1)
     else bind (usysv (ULink (argv ! 1) (argv ! 2))) (\<lambda>r.
       seqK [whenK (r < 0) (fprintf_u 2 ''link %s %s: failed\<newline>'' [VStr (Some (argv ! 1)), VStr (Some (argv ! 2))])]
         (exit_u 0)))"

fun mkdir_args :: "u8 list list \<Rightarrow> ('w, unit) uprog" where
  "mkdir_args [] = exit_u 0"
| "mkdir_args (a # as) = bind (usysv (UMkdir a)) (\<lambda>r.
     if r < 0 then seqK [fprintf_u 2 ''mkdir: %s failed to create\<newline>'' [VStr (Some a)]] (exit_u 0) else mkdir_args as)"

definition mkdir_main :: "u8 list list \<Rightarrow> ('w, unit) uprog" where
  "mkdir_main argv = (if length argv < 2 then seqK [fprintf_u 2 ''Usage: mkdir files...\<newline>'' []] (exit_u 1)
     else mkdir_args (tl argv))"

fun rm_args :: "u8 list list \<Rightarrow> ('w, unit) uprog" where
  "rm_args [] = exit_u 0"
| "rm_args (a # as) = bind (usysv (UUnlink a)) (\<lambda>r.
     if r < 0 then seqK [fprintf_u 2 ''rm: %s failed to delete\<newline>'' [VStr (Some a)]] (exit_u 0) else rm_args as)"

definition rm_main :: "u8 list list \<Rightarrow> ('w, unit) uprog" where
  "rm_main argv = (if length argv < 2 then seqK [fprintf_u 2 ''Usage: rm files...\<newline>'' []] (exit_u 1)
     else rm_args (tl argv))"

definition zombie_main :: "('w, unit) uprog" where
  "zombie_main = bind (usysv UFork) (\<lambda>pid. seqK [whenK (pid > 0) (call_u (USleep 5))] (exit_u 0))"

section \<open>init.c\<close>

text \<open>The inner loop waits until the shell with the given pid has exited.\<close>

fun init_wait :: "nat \<Rightarrow> int \<Rightarrow> ('w, unit) uprog" where
  "init_wait 0 pid = (\<lambda>_. Hang)"
| "init_wait (Suc f) pid = bind (usysv UWait) (\<lambda>wpid.
     if wpid = pid then skip
     else if wpid < 0 then seqK [printf_u ''init: wait returned an error\<newline>'' []] (exit_u 1)
     else init_wait f pid)"

fun init_loop :: "nat \<Rightarrow> ('w, unit) uprog" where
  "init_loop 0 = (\<lambda>_. Hang)"
| "init_loop (Suc f) = seqK [printf_u ''init: starting sh\<newline>'' []] (bind (usysv UFork) (\<lambda>pid.
     if pid < 0 then seqK [printf_u ''init: fork failed\<newline>'' []] (exit_u 1)
     else if pid = 0 then
       seqK [exec_u (lit ''sh'') [lit ''sh''], printf_u ''init: exec sh failed\<newline>'' []] (exit_u 1)
     else seqK [\<lambda>w. init_wait (Suc (length (replies w KCall))) pid w] (init_loop f)))"

definition init_main :: "('w, unit) uprog" where
  "init_main = bind (usysv (UOpen (lit ''console'') O_RDWR)) (\<lambda>r.
     seqK [whenK (r < 0) (block [call_u (UMknod (lit ''console'') 1 0), call_u (UOpen (lit ''console'') O_RDWR)]),
           call_u (UDup 0), call_u (UDup 0)]
       (\<lambda>w. init_loop (Suc (length (replies w KCall))) w))"

section \<open>Counting\<close>

text \<open>Where words start in a text.\<close>

definition word_starts :: "u8 list \<Rightarrow> nat set" where
  "word_starts s = {i. i < length s \<and> s ! i \<notin> set wc_blanks \<and> (i = 0 \<or> s ! (i - 1) \<in> set wc_blanks)}"

definition wc_of :: "u8 list \<Rightarrow> wcount" where
  "wc_of s = \<lparr>wc_l = of_nat (count_list s 10), wc_w = of_nat (card (word_starts s)), wc_c = of_nat (length s),
     wc_inword = (s \<noteq> [] \<and> last s \<notin> set wc_blanks)\<rparr>"

lemma chr_in_blanks: "chr_in wc_blanks c \<longleftrightarrow> c \<in> set wc_blanks"
  by (simp add: chr_in_iff wc_blanks_def)

lemma finite_word_starts: "finite (word_starts s)"
  by (rule finite_subset [of _ "{..<length s}"]) (auto simp: word_starts_def)

lemma word_starts_snoc:
  "word_starts (s @ [b]) = word_starts s \<union>
     (if b \<notin> set wc_blanks \<and> (s = [] \<or> last s \<in> set wc_blanks) then {length s} else {})"
  by (cases "s = []") (auto simp: word_starts_def nth_append last_conv_nth less_Suc_eq split: if_splits)

lemma wc_byte_of: "wc_byte b (wc_of s) = wc_of (s @ [b])"
proof -
  have "length s \<notin> word_starts s" by (simp add: word_starts_def)
  then have "card (insert (length s) (word_starts s)) = Suc (card (word_starts s))"
    by (simp add: finite_word_starts)
  moreover have "(10 :: u8) \<in> set wc_blanks" by (simp add: wc_blanks_def)
  ultimately show ?thesis
    by (auto simp: wc_byte_def wc_of_def Let_def chr_in_blanks word_starts_snoc)
qed

lemma fold_wc_byte: "fold wc_byte bs (wc_of s) = wc_of (s @ bs)"
  by (induction bs arbitrary: s) (simp_all add: wc_byte_of)

section \<open>Reading to the end\<close>

text \<open>The input ends without a read error.\<close>

fun eof :: "reply list \<Rightarrow> bool" where
  "eof [] = False"
| "eof (r # rs) = (0 \<le> r_val r \<and> (r_data r = [] \<or> eof rs))"

lemma read_u_eof:
  assumes "eof (replies w (KRead fd))" "incoming (replies w (KRead fd)) = []"
  shows "\<exists>rs. read_u fd n w = Ok (Some []) (took fd n rs w)"
  using assms
  by (intro exI [of _ "tl (replies w (KRead fd))"], cases "replies w (KRead fd)")
     (auto simp: read_u_def took_def split: if_splits)

lemma read_u_more:
  assumes "eof (replies w (KRead fd))" "incoming (replies w (KRead fd)) \<noteq> []" "0 < n"
  shows "\<exists>b bs rs. read_u fd n w = Ok (Some (b # bs)) (took fd n rs w) \<and> eof rs \<and>
     incoming (replies w (KRead fd)) = (b # bs) @ incoming rs \<and> feed (took fd n rs w) fd < feed w fd"
proof -
  have "ends rs" if "eof rs" for rs using that by (induction rs) (auto simp: ends_def)
  with read_u_some [OF _ assms(2,3)] assms(1) obtain bs rs where
    r: "read_u fd n w = Ok (Some bs) (took fd n rs w)" "bs \<noteq> []"
      "incoming (replies w (KRead fd)) = bs @ incoming rs" "feed (took fd n rs w) fd < feed w fd"
    by blast
  have "eof rs"
  proof (cases "replies w (KRead fd)")
    case (Cons a as)
    with r(1) assms have "rs = as \<or> rs = a\<lparr>r_data := drop n (r_data a)\<rparr> # as"
      by (auto simp: read_u_def Let_def took_def fun_eq_iff split: if_splits dest!: arg_cong [of _ _ replies] fun_cong [of _ _ "KRead fd"])
    with Cons assms show ?thesis by (auto split: if_splits)
  qed (use assms in simp)
  with r show ?thesis by (cases bs) auto
qed

lemma wc_loop_run:
  assumes "eof (replies w (KRead fd))" "feed w fd < k"
  shows "\<exists>w'. wc_loop k fd (wc_of s) w = Ok (False, wc_of (s @ incoming (replies w (KRead fd)))) w' \<and>
     (\<forall>f. written f (calls w') = written f (calls w) \<and> replies w' (KWrite f) = replies w (KWrite f))"
  using assms
proof (induction k arbitrary: w s)
  case (Suc k)
  show ?case
  proof (cases "incoming (replies w (KRead fd)) = []")
    case True
    from read_u_eof [OF Suc.prems(1) True, of 512] True show ?thesis by (auto simp: run_simps)
  next
    case False
    from read_u_more [OF Suc.prems(1) False, of 512] obtain b bs rs where
      r: "read_u fd 512 w = Ok (Some (b # bs)) (took fd 512 rs w)" "eof rs"
        "incoming (replies w (KRead fd)) = (b # bs) @ incoming rs" "feed (took fd 512 rs w) fd < feed w fd" by auto
    with Suc.IH [of "took fd 512 rs w" "s @ b # bs"] Suc.prems(2) show ?thesis
      by (auto simp: run_simps fold_wc_byte wc_byte_of)
  qed
qed simp

lemma written_putted: "written fd (calls (putted fd bs w)) = written fd (calls w) @ map (\<lambda>b. [b]) bs"
proof -
  have "written fd (map (\<lambda>b. UWrite fd [b]) bs) = map (\<lambda>b. [b]) bs" by (induction bs) simp_all
  then show ?thesis by (simp add: putted_def)
qed

text \<open>C31. \<^verbatim>\<open>wc\<close> prints the numbers of newlines, of words and of bytes of its input, and the name, however
  the input is cut into pieces: a word starts at each byte that is not blank and has a blank or
  nothing before it.\<close>

theorem wc_counts:
  assumes "eof (replies w (KRead fd))" "input = incoming (replies w (KRead fd))" "0 \<notin> set name"
    and "out = num_text (of_nat (count_list input 10)) 10 True @ lit '' '' @
               num_text (of_nat (card (word_starts input))) 10 True @ lit '' '' @
               num_text (of_nat (length input)) 10 True @ lit '' '' @ name @ lit ''\<newline>''"
    and "length out \<le> length (replies w (KWrite 1))"
  shows "\<exists>w'. wc fd name w = Ok () w' \<and> written 1 (calls w') = written 1 (calls w) @ map (\<lambda>b. [b]) out"
proof -
  have zero: "\<lparr>wc_l = 0, wc_w = 0, wc_c = 0, wc_inword = False\<rparr> = wc_of []"
    by (simp add: wc_of_def word_starts_def)
  from wc_loop_run [OF assms(1), of "Suc (feed w fd)" "[]"] assms(2) obtain w1 where
    w1: "wc_loop (Suc (feed w fd)) fd (wc_of []) w = Ok (False, wc_of input) w1"
      "written 1 (calls w1) = written 1 (calls w)" "replies w1 (KWrite 1) = replies w (KWrite 1)" by auto
  have name: "takeWhile (\<lambda>b. b \<noteq> 0) name = name" using assms(3) by (subst takeWhile_eq_all_conv) auto
  have word: "ucast (ucast x :: u64) = x" for x :: u32 by (rule bit_word_eqI) (simp add: bit_simps)
  have "format_text False (lit ''%d %d %d %s\<newline>'')
      [VNum (ucast (wc_l (wc_of input))), VNum (ucast (wc_w (wc_of input))), VNum (ucast (wc_c (wc_of input))), VStr (Some name)]
      = Some out"
    by (simp add: assms(4) wc_of_def conv_text_def lit_def name word)
  from printf_run(2) [OF this, of w1 1] w1 assms(5) have
    "printf_u ''%d %d %d %s\<newline>'' [VNum (ucast (wc_l (wc_of input))), VNum (ucast (wc_w (wc_of input))),
       VNum (ucast (wc_c (wc_of input))), VStr (Some name)] w1 = Ok () (putted 1 out w1)" by simp
  with w1 show ?thesis by (simp add: wc_def zero run_simps written_putted)
qed

definition demo_wc :: uworld where
  "demo_wc = \<lparr>replies = (\<lambda>k. if k = KRead 0
       then [\<lparr>r_val = 1, r_data = lit ''on''\<rparr>, \<lparr>r_val = 1, r_data = lit ''e two\<newline>''\<rparr>, \<lparr>r_val = 0, r_data = []\<rparr>]
       else replicate 10 \<lparr>r_val = 1, r_data = []\<rparr>),
     calls = []\<rparr>"

theorem wc_counts_witness:
  "\<exists>w'. wc 0 (lit ''f'') demo_wc = Ok () w' \<and> written 1 (calls w') = map (\<lambda>b. [b]) (lit ''1 2 8 f\<newline>'')"
proof -
  let ?in = "lit ''one two\<newline>''"
  have i: "?in = incoming (replies demo_wc (KRead 0))" "eof (replies demo_wc (KRead 0))"
    by (simp_all add: demo_wc_def lit_def)
  have "word_starts ?in = set (filter (\<lambda>i. ?in ! i \<notin> set wc_blanks \<and> (i = 0 \<or> ?in ! (i - 1) \<in> set wc_blanks)) [0..<length ?in])"
    by (auto simp: word_starts_def)
  moreover have "filter (\<lambda>i. ?in ! i \<notin> set wc_blanks \<and> (i = 0 \<or> ?in ! (i - 1) \<in> set wc_blanks)) [0..<length ?in] = [0, 4]"
    by code_simp
  ultimately have "word_starts ?in = set [0, 4]" by (simp only:)
  then have c: "card (word_starts ?in) = 2" by simp
  have "num_text (of_nat (count_list ?in 10)) 10 True = lit ''1''" "num_text 2 10 True = lit ''2''"
    "num_text (of_nat (length ?in)) 10 True = lit ''8''" by code_simp+
  then have o: "lit ''1 2 8 f\<newline>'' = num_text (of_nat (count_list ?in 10)) 10 True @ lit '' '' @
      num_text (of_nat (card (word_starts ?in))) 10 True @ lit '' '' @
      num_text (of_nat (length ?in)) 10 True @ lit '' '' @ lit ''f'' @ lit ''\<newline>''"
    unfolding c by (simp add: lit_def)
  from wc_counts [OF i(2,1) _ o] show ?thesis by (simp add: demo_wc_def lit_def)
qed

text \<open>\<^verbatim>\<open>cat -n\<close> numbers pieces: a line that arrives in two reads gets a number in its middle.\<close>

definition demo_numcat :: uworld where
  "demo_numcat = \<lparr>replies = (\<lambda>k. if k = KRead 0
       then [\<lparr>r_val = 1, r_data = lit ''a''\<rparr>, \<lparr>r_val = 1, r_data = lit ''b\<newline>''\<rparr>, \<lparr>r_val = 0, r_data = []\<rparr>]
       else replicate 10 \<lparr>r_val = 1, r_data = []\<rparr>),
     calls = []\<rparr>"

lemma numcat_splits_line:
  "case numcat 0 demo_numcat of Ok _ w \<Rightarrow> concat (written 1 (calls w)) = lit ''1a1b\<newline>'' | _ \<Rightarrow> False"
  by code_simp

end
