(* ===== verification/Spec2Isabelle.thy ===== *)
theory Spec2Isabelle
  imports Xv6_Spinlock Xv6_Copy Xv6_Tty Xv6_Grep Xv6_Utils
begin

text \<open>
  A verification development of the xv6 kernel for RISC-V under \<^verbatim>\<open>src/Xv6\<close>.

  \<^bold>\<open>The program.\<close>  xv6 is a small Unix.  \<^verbatim>\<open>kernel/start.c\<close> and \<^verbatim>\<open>kernel/main.c\<close> boot each hart.  The
  physical page allocator (\<^verbatim>\<open>kalloc.c\<close>) serves the page tables (\<^verbatim>\<open>vm.c\<close>), the process table
  (\<^verbatim>\<open>proc.c\<close>) and the pipes (\<^verbatim>\<open>pipe.c\<close>).  Spin locks (\<^verbatim>\<open>spinlock.c\<close>) and sleep locks (\<^verbatim>\<open>sleeplock.c\<close>)
  protect the shared structures.  The file system is layered: the disk driver (\<^verbatim>\<open>virtio_disk.c\<close>),
  the buffer cache (\<^verbatim>\<open>bio.c\<close>), the write-ahead log (\<^verbatim>\<open>log.c\<close>), inodes, directories and path names
  (\<^verbatim>\<open>fs.c\<close>), open files (\<^verbatim>\<open>file.c\<close>) and the system calls on them (\<^verbatim>\<open>sysfile.c\<close>, \<^verbatim>\<open>exec.c\<close>).
  \<^verbatim>\<open>trap.c\<close>, \<^verbatim>\<open>syscall.c\<close> and \<^verbatim>\<open>sysproc.c\<close> enter the kernel; \<^verbatim>\<open>console.c\<close>, \<^verbatim>\<open>uart.c\<close>, \<^verbatim>\<open>printf.c\<close> and
  \<^verbatim>\<open>plic.c\<close> drive the terminal.  \<^verbatim>\<open>mkfs/mkfs.c\<close> writes the first disk image, and \<^verbatim>\<open>user/\<close> holds the C
  library, the shell and the utilities.

  \<^bold>\<open>Conventions.\<close>  A C function that only computes is a HOL function.  A function that changes
  kernel state is a statement, a function from the state to an \<open>outcome\<close>: \<open>Ok\<close> with the result
  and the new state, \<open>Panic\<close> with its message, \<open>Sleep\<close> with the channel slept on, \<open>Exit\<close>, or \<open>Hang\<close>
  for a loop that spins for ever in a run of one hart.  \<^verbatim>\<open>uint64\<close> and \<^verbatim>\<open>uint\<close> are 64 and 32 bit
  words, so arithmetic wraps as in C.  Memory is a function from 64 bit addresses to bytes.

  \<^bold>\<open>Theories.\<close>
  \<^item> \<open>Xv6_Prelude\<close>: outcomes, statements, their weakest preconditions; lemmas on list slices,
    little-endian encoding and byte memory.
  \<^item> \<open>Xv6_Layout\<close>: the constants and address macros of \<^verbatim>\<open>param.h\<close>, \<^verbatim>\<open>memlayout.h\<close> and the paging part
    of \<^verbatim>\<open>riscv.h\<close>.  The lemmas show that a page table entry gives back the address and the flags it
    was made of, and that the three indices of a virtual address determine its page.
  \<^item> \<open>Xv6_String\<close>: \<^verbatim>\<open>string.c\<close> over byte memory.  The lemmas give the bytes each routine writes and
    its frame.  \<open>strlen\<close> is a \<open>partial_function\<close>, and is shown to return on a terminated string.
  \<^item> \<open>Xv6_Machine\<close>: harts and their registers (\<^verbatim>\<open>riscv.h\<close>), per-CPU state (\<^verbatim>\<open>proc.h\<close>) and
    \<^verbatim>\<open>spinlock.c\<close> run by one hart; the lemmas give the closed form of every lock operation.
  \<^item> \<open>Xv6_Spinlock\<close>: the pieces of \<^verbatim>\<open>acquire\<close> and \<^verbatim>\<open>release\<close> interleaved over any number of harts, with
    mutual exclusion, the panics and the refinement of an abstract mutex.
  \<^item> \<open>Xv6_Kalloc\<close>: \<^verbatim>\<open>kalloc.c\<close>; the free list threaded through the free pages is a stack of distinct pages.
  \<^item> \<open>Xv6_Vm\<close>, \<open>Xv6_Pagetable\<close>, \<open>Xv6_Copy\<close>: \<^verbatim>\<open>vm.c\<close>, the mappings that \<^verbatim>\<open>mappages\<close> and \<^verbatim>\<open>uvmunmap\<close> make and
    remove, and the copies between kernel and user memory.
  \<^item> \<open>Xv6_Proc\<close>: the process table of \<^verbatim>\<open>proc.c\<close>, sleep and wakeup, kill, wait and the scheduler.
  \<^item> \<open>Xv6_Sleeplock\<close>: \<^verbatim>\<open>sleeplock.c\<close>, with exclusion in every interleaving of the processes and no lost wakeup.
  \<^item> \<open>Xv6_Disk\<close>: \<^verbatim>\<open>virtio_disk.c\<close>.  The device is a field of the state (\<open>vdev\<close>), of which the theorems assume
    \<open>virtio_blk\<close>, what the virtio specification says of a block device; \<open>simple_disk\<close> is an instance.  The field
    \<open>power\<close> counts the requests that the device completes before a power failure, the outcome \<open>Crash\<close>.
  \<^item> \<open>Xv6_Bio\<close>: \<^verbatim>\<open>bio.c\<close>; the links of the buffers as a list in order of use, and the cache seen as a map from
    block numbers to contents (\<open>bview\<close>), with the specifications that the file system uses.
  \<^item> \<open>Xv6_Log\<close>: \<^verbatim>\<open>log.c\<close>.  \<open>log_replay\<close> is what recovery makes of a medium; commit and recovery keep it
    all old or all new at every request at which the power may fail.  \<open>log_step\<close> interleaves transactions
    and shows how far the reservation of log space goes.

  \<^bold>\<open>Plan.\<close>  In this order: spin locks over interleaved harts, \<^verbatim>\<open>kalloc.c\<close>, \<^verbatim>\<open>vm.c\<close>, \<^verbatim>\<open>proc.c\<close>,
  \<^verbatim>\<open>sleeplock.c\<close>, \<^verbatim>\<open>virtio_disk.c\<close>, \<^verbatim>\<open>bio.c\<close>, \<^verbatim>\<open>log.c\<close>, \<^verbatim>\<open>fs.c\<close>, \<^verbatim>\<open>file.c\<close>, \<^verbatim>\<open>pipe.c\<close>, \<^verbatim>\<open>sysfile.c\<close>,
  the terminal, traps and system calls, \<^verbatim>\<open>exec.c\<close>, \<^verbatim>\<open>mkfs.c\<close>, and the user library and programs.

  \<^bold>\<open>Not modelled.\<close>  The assembly files (\<^verbatim>\<open>entry.S\<close>, \<^verbatim>\<open>swtch.S\<close>, \<^verbatim>\<open>trampoline.S\<close>, \<^verbatim>\<open>kernelvec.S\<close>) save
  and restore registers, which the model does not have; \<^verbatim>\<open>ramdisk.c\<close> is not part of the build; the
  test programs of \<^verbatim>\<open>user/\<close> exercise the system calls and provide nothing to other parts.  Memory
  ordering (\<^verbatim>\<open>__sync_synchronize\<close>) is not modelled: accesses are sequentially consistent.
\<close>

end
